(* ===== verification/Prelude.thy ===== *)
theory Prelude
  imports Main "HOL-Library.Word"
begin

text \<open>
  Shared vocabulary of the development: the wire types of include/hotrod/Types.h, the outcome of a
  C++ computation (normal return, exception, a blocking call that does not return, undefined
  behaviour), sequencing of such computations with and without state, std::string against byte
  arrays, std::to_string on unsigned values, and the generic lemmas and simplification collections
  the components use.
\<close>

unbundle bit_operations_syntax

section \<open>Wire types\<close>

type_synonym byte = "8 word"
type_synonym byteArray = "byte list"
type_synonym VInt = "32 word"
type_synonym VLong = "64 word"
type_synonym int32 = "32 word"
type_synonym int64 = "64 word"

section \<open>Outcomes of C++ computations\<close>

text \<open>
  \<open>Block\<close> is a system call that waits for input that never arrives; \<open>UB\<close> is an operation
  the C++ standard leaves undefined (an out-of-range vector access, a shift by the width of its
  operand or more). Both are kept apart from exceptions: no \<^verbatim>\<open>catch\<close> clause sees them.
\<close>

datatype ('e, 'a) outcome = Ok 'a | Throw 'e | Block | UB

fun bindO :: "('e, 'a) outcome \<Rightarrow> ('a \<Rightarrow> ('e, 'b) outcome) \<Rightarrow> ('e, 'b) outcome" where
  "bindO (Ok a) f = f a"
| "bindO (Throw e) f = Throw e"
| "bindO Block f = Block"
| "bindO UB f = UB"

type_synonym ('s, 'e, 'a) comp = "'s \<Rightarrow> ('e, 'a) outcome \<times> 's"

definition ret :: "'a \<Rightarrow> ('s, 'e, 'a) comp" where
  "ret a = (\<lambda>s. (Ok a, s))"

definition throw :: "'e \<Rightarrow> ('s, 'e, 'a) comp" where
  "throw e = (\<lambda>s. (Throw e, s))"

definition bindM :: "('s, 'e, 'a) comp \<Rightarrow> ('a \<Rightarrow> ('s, 'e, 'b) comp) \<Rightarrow> ('s, 'e, 'b) comp" where
  "bindM m f = (\<lambda>s. case m s of
      (Ok a, s') \<Rightarrow> f a s'
    | (Throw e, s') \<Rightarrow> (Throw e, s')
    | (Block, s') \<Rightarrow> (Block, s')
    | (UB, s') \<Rightarrow> (UB, s'))"

text \<open>\<open>liftO\<close> runs a stateless computation inside a stateful one.\<close>

definition liftO :: "('e, 'a) outcome \<Rightarrow> ('s, 'e, 'a) comp" where
  "liftO r = (\<lambda>s. (r, s))"

text \<open>\<open>catchM\<close> is try and catch: only exceptions reach the handler.\<close>

definition catchM :: "('s, 'e, 'a) comp \<Rightarrow> ('e \<Rightarrow> ('s, 'e, 'a) comp) \<Rightarrow> ('s, 'e, 'a) comp" where
  "catchM m h = (\<lambda>s. case m s of
      (Throw e, s') \<Rightarrow> h e s'
    | (Ok a, s') \<Rightarrow> (Ok a, s')
    | (Block, s') \<Rightarrow> (Block, s')
    | (UB, s') \<Rightarrow> (UB, s'))"

named_theorems comp_simps \<open>one-step evaluation of sequenced computations\<close>
named_theorems codec_simps \<open>reading back what the encoders write\<close>
named_theorems byte_simps \<open>bytes cut out of words and glued together again\<close>

lemma bindO_assoc: "bindO (bindO m f) g = bindO m (\<lambda>x. bindO (f x) g)"
  by (cases m) auto

lemma bindO_eq_Ok_iff [simp]: "bindO m f = Ok b \<longleftrightarrow> (\<exists>a. m = Ok a \<and> f a = Ok b)"
  by (cases m) auto

lemma ret_apply [comp_simps]: "ret a s = (Ok a, s)"
  by (simp add: ret_def)

lemma throw_apply [comp_simps]: "throw e s = (Throw e, s)"
  by (simp add: throw_def)

lemma liftO_apply [comp_simps]: "liftO r s = (r, s)"
  by (simp add: liftO_def)

lemma bindM_Ok [comp_simps]: "m s = (Ok a, s') \<Longrightarrow> bindM m f s = f a s'"
  by (simp add: bindM_def)

lemma bindM_Throw [comp_simps]: "m s = (Throw e, s') \<Longrightarrow> bindM m f s = (Throw e, s')"
  by (simp add: bindM_def)

lemma bindM_Block [comp_simps]: "m s = (Block, s') \<Longrightarrow> bindM m f s = (Block, s')"
  by (simp add: bindM_def)

lemma bindM_UB [comp_simps]: "m s = (UB, s') \<Longrightarrow> bindM m f s = (UB, s')"
  by (simp add: bindM_def)

lemma catchM_Ok [comp_simps]: "m s = (Ok a, s') \<Longrightarrow> catchM m h s = (Ok a, s')"
  by (simp add: catchM_def)

lemma catchM_Throw [comp_simps]: "m s = (Throw e, s') \<Longrightarrow> catchM m h s = h e s'"
  by (simp add: catchM_def)

lemma catchM_eq_Ok_iff:
  "catchM m h s = (Ok b, t) \<longleftrightarrow> m s = (Ok b, t) \<or> (\<exists>e s'. m s = (Throw e, s') \<and> h e s' = (Ok b, t))"
  by (auto simp: catchM_def split: prod.splits outcome.splits)

lemma bindM_liftO_Ok: "bindM (liftO (Ok v)) f = f v"
  by (rule ext) (simp add: bindM_def liftO_def)

lemma catchM_liftO_Ok: "catchM (liftO (Ok v)) h = liftO (Ok v)"
  by (rule ext) (simp add: catchM_def liftO_def)

lemma bindM_eq_Ok_iff:
  "bindM m f s = (Ok b, t) \<longleftrightarrow> (\<exists>a s'. m s = (Ok a, s') \<and> f a s' = (Ok b, t))"
  by (auto simp: bindM_def split: prod.splits outcome.splits)

lemma bindM_OkE:
  assumes "bindM m f s = (Ok b, t)"
  obtains a s' where "m s = (Ok a, s')" and "f a s' = (Ok b, t)"
  using assms by (auto simp: bindM_eq_Ok_iff)

lemma bindM_assoc: "bindM (bindM m f) g = bindM m (\<lambda>x. bindM (f x) g)"
  by (auto simp: bindM_def fun_eq_iff split: prod.splits outcome.splits)

lemma unat_less_exp: "unat (v :: 'a::len word) < 2 ^ LENGTH('a)"
  by (rule unsigned_less)

section \<open>Strings and byte arrays\<close>

definition bytes_of_string :: "string \<Rightarrow> byteArray" where
  "bytes_of_string s = map (\<lambda>c. word_of_nat (of_char c)) s"

definition string_of_bytes :: "byteArray \<Rightarrow> string" where
  "string_of_bytes bs = map (\<lambda>b. char_of (unat b)) bs"

lemma length_bytes_of_string [simp]: "length (bytes_of_string s) = length s"
  by (simp add: bytes_of_string_def)

lemma bytes_of_string_eq_Nil [simp]: "bytes_of_string s = [] \<longleftrightarrow> s = []"
  by (simp add: bytes_of_string_def)

lemma of_char_less_256: "(of_char c :: nat) < 256"
  by simp

lemma string_of_bytes_of_string [simp]: "string_of_bytes (bytes_of_string s) = s"
proof -
  have "char_of (unat (word_of_nat (of_char c) :: byte)) = c" for c :: char
    by (simp add: unsigned_of_nat take_bit_nat_eq_self of_char_less_256)
  then show ?thesis by (simp add: string_of_bytes_def bytes_of_string_def o_def)
qed

lemma bytes_of_string_of_bytes [simp]: "bytes_of_string (string_of_bytes bs) = bs"
proof -
  have "word_of_nat (of_char (char_of (unat b) :: char)) = b" for b :: byte
    by (simp add: take_bit_nat_eq_self unsigned_less [of b, simplified])
  then show ?thesis by (simp add: string_of_bytes_def bytes_of_string_def o_def)
qed

section \<open>std::to\_string on unsigned values\<close>

definition digit_char :: "nat \<Rightarrow> char" where
  "digit_char d = char_of (48 + d)"

fun to_string :: "nat \<Rightarrow> string" where
  "to_string n = (if n < 10 then [digit_char n] else to_string (n div 10) @ [digit_char (n mod 10)])"

declare to_string.simps [simp del]

fun string_to_nat :: "string \<Rightarrow> nat" where
  "string_to_nat s = foldl (\<lambda>a c. 10 * a + (of_char c - 48)) 0 s"

lemma of_char_digit_char: "d < 10 \<Longrightarrow> of_char (digit_char d) = 48 + d"
  by (simp add: digit_char_def take_bit_nat_eq_self)

lemma string_to_nat_to_string: "string_to_nat (to_string n) = n"
proof (induction n rule: to_string.induct)
  case (1 n)
  show ?case
  proof (cases "n < 10")
    case True
    then show ?thesis by (simp add: to_string.simps [of n] of_char_digit_char)
  next
    case False
    with 1 have "string_to_nat (to_string (n div 10)) = n div 10" by simp
    with False show ?thesis by (simp add: to_string.simps [of n] of_char_digit_char)
  qed
qed

lemma to_string_inject [simp]: "to_string m = to_string n \<longleftrightarrow> m = n"
  by (metis string_to_nat_to_string)

lemma to_string_digits: "c \<in> set (to_string n) \<Longrightarrow> \<exists>d < 10. c = digit_char d"
proof (induction n rule: to_string.induct)
  case (1 n)
  then show ?case
    by (cases "n < 10") (auto simp: to_string.simps [of n] intro: exI [of _ "n mod 10"])
qed

lemma colon_notin_to_string: "CHR '':'' \<notin> set (to_string n)"
proof
  assume "CHR '':'' \<in> set (to_string n)"
  then obtain d where d: "d < 10" and eq: "CHR '':'' = digit_char d"
    by (blast dest: to_string_digits)
  from eq have "of_char (CHR '':'') = (of_char (digit_char d) :: nat)" by simp
  with d show False by (simp add: of_char_digit_char)
qed

section \<open>Lists\<close>

lemma mod_length_less: "i < length xs \<Longrightarrow> j mod length xs < length xs"
  by (rule mod_less_divisor) auto

lemma take_append_drop_append: "n = length xs \<Longrightarrow> take n (xs @ ys) = xs \<and> drop n (xs @ ys) = ys"
  by simp

text \<open>A separator that does not occur after it splits a list in one way only.\<close>

lemma split_at_last_unique:
  assumes "xs @ c # ys = xs' @ c # ys'" and "c \<notin> set ys" and "c \<notin> set ys'"
  shows "xs = xs' \<and> ys = ys'"
proof -
  from assms(1) have rev: "rev ys @ c # rev xs = rev ys' @ c # rev xs'"
    by (metis append.assoc append_Cons append_Nil rev.simps(2) rev_append)
  have tw: "takeWhile (\<lambda>x. x \<noteq> c) (rev zs @ c # us) = rev zs" if "c \<notin> set zs" for zs us
    using that by (subst takeWhile_append2) auto
  from arg_cong [OF rev, of "takeWhile (\<lambda>x. x \<noteq> c)"] tw [OF assms(2)] tw [OF assms(3)]
  have "rev ys = rev ys'" by simp
  then have "ys = ys'" by simp
  with assms(1) show ?thesis by simp
qed

text \<open>A condition on the state that a computation keeps, however it ends.\<close>

definition keeps :: "('s \<Rightarrow> 's \<Rightarrow> bool) \<Rightarrow> ('s, 'e, 'a) comp \<Rightarrow> bool" where
  "keeps R f \<longleftrightarrow> (\<forall>s. R s (snd (f s)))"

lemma keeps_bind: "(\<And>s t u. R s t \<Longrightarrow> R t u \<Longrightarrow> R s u) \<Longrightarrow> keeps R f \<Longrightarrow> (\<And>a. keeps R (g a)) \<Longrightarrow> keeps R (bindM f g)"
  unfolding keeps_def bindM_def by (auto split: prod.splits outcome.splits) (metis snd_conv)+

lemma keeps_if: "keeps R f \<Longrightarrow> keeps R g \<Longrightarrow> keeps R (if b then f else g)"
  by simp

end
