(* ===== verification/Errors.thy ===== *)
theory Errors
  imports Prelude
begin

text \<open>
  include/hotrod/HotRodClientException.h and the protocol constants of include/hotrod/HeaderCodec.h:
  server addresses, failure phases, the typed client exception, the exceptions the code can throw,
  and the advisory classification helpers a caller uses to decide on a retry.
\<close>

section \<open>Protocol constants\<close>

definition REQUEST_MAGIC :: byte where "REQUEST_MAGIC = 0xA0"
definition RESPONSE_MAGIC :: byte where "RESPONSE_MAGIC = 0xA1"
definition VERSION_40 :: byte where "VERSION_40 = 0x28"
definition VERSION_41 :: byte where "VERSION_41 = 0x29"

definition AUTH_MECH_LIST_REQUEST :: byte where "AUTH_MECH_LIST_REQUEST = 0x21"
definition AUTH_MECH_LIST_RESPONSE :: byte where "AUTH_MECH_LIST_RESPONSE = 0x22"
definition AUTH_REQUEST :: byte where "AUTH_REQUEST = 0x23"
definition AUTH_RESPONSE :: byte where "AUTH_RESPONSE = 0x24"
definition ERROR_RESPONSE :: byte where "ERROR_RESPONSE = 0x50"

definition NO_ERROR :: byte where "NO_ERROR = 0x00"
definition COMMAND_TIMEOUT :: byte where "COMMAND_TIMEOUT = 0x86"
definition NODE_SUSPECTED :: byte where "NODE_SUSPECTED = 0x87"
definition ILLEGAL_LIFECYCLE_STATE :: byte where "ILLEGAL_LIFECYCLE_STATE = 0x88"

lemmas status_defs = NO_ERROR_def COMMAND_TIMEOUT_def NODE_SUSPECTED_def ILLEGAL_LIFECYCLE_STATE_def

lemmas auth_opcode_defs = AUTH_MECH_LIST_REQUEST_def AUTH_MECH_LIST_RESPONSE_def
  AUTH_REQUEST_def AUTH_RESPONSE_def ERROR_RESPONSE_def

datatype ClientIntelligence = BASIC | TOPOLOGY_AWARE | HASH_DISTRIBUTION_AWARE

fun intelligence_byte :: "ClientIntelligence \<Rightarrow> byte" where
  "intelligence_byte BASIC = 0x01"
| "intelligence_byte TOPOLOGY_AWARE = 0x02"
| "intelligence_byte HASH_DISTRIBUTION_AWARE = 0x03"

section \<open>The client exception\<close>

datatype FailurePhase = BeforeSend | AfterSend | ServerError

record ServerAddress =
  sa_host :: string
  sa_port :: "16 word"

record HotRodClientException =
  message :: string
  phase :: FailurePhase
  serverStatus :: "byte option"
  triedNodes :: "ServerAddress list"
  ownersExhausted :: bool

text \<open>
  Every exception of the code derives from std::exception: the typed client exception, a plain
  std::runtime\_error with its message, std::out\_of\_range and std::invalid\_argument (thrown by
  vector::at and std::stoi), and std::bad\_any\_cast.
\<close>

datatype exn = RuntimeError string | OutOfRange | InvalidArgument | BadAnyCast | HotRod HotRodClientException

fun what :: "exn \<Rightarrow> string" where
  "what (RuntimeError m) = m"
| "what OutOfRange = ''out_of_range''"
| "what InvalidArgument = ''invalid_argument''"
| "what BadAnyCast = ''bad any_cast''"
| "what (HotRod e) = message e"

definition hotrod_exn ::
  "string \<Rightarrow> FailurePhase \<Rightarrow> byte option \<Rightarrow> ServerAddress list \<Rightarrow> bool \<Rightarrow> exn" where
  "hotrod_exn m p st tried exh =
     HotRod \<lparr>message = m, phase = p, serverStatus = st, triedNodes = tried, ownersExhausted = exh\<rparr>"

section \<open>Classification helpers\<close>

definition isTransientStatus :: "byte \<Rightarrow> bool" where
  "isTransientStatus status =
     (if status = COMMAND_TIMEOUT then True
      else if status = NODE_SUSPECTED then True
      else if status = ILLEGAL_LIFECYCLE_STATE then True
      else False)"

definition isTransient :: "HotRodClientException \<Rightarrow> bool" where
  "isTransient e = (case phase e of
      BeforeSend \<Rightarrow> True
    | AfterSend \<Rightarrow> True
    | ServerError \<Rightarrow> (case serverStatus e of None \<Rightarrow> False | Some s \<Rightarrow> isTransientStatus s))"

definition outcomeUncertain :: "HotRodClientException \<Rightarrow> bool" where
  "outcomeUncertain e \<longleftrightarrow> phase e = AfterSend \<or>
     (phase e = ServerError \<and> (case serverStatus e of None \<Rightarrow> False | Some s \<Rightarrow> s = COMMAND_TIMEOUT))"

lemma isTransientStatus_iff: "isTransientStatus s \<longleftrightarrow> s \<in> {0x86, 0x87, 0x88}"
  by (simp add: isTransientStatus_def status_defs)

lemma uncertain_is_transient: "outcomeUncertain e \<Longrightarrow> isTransient e"
  by (auto simp: outcomeUncertain_def isTransient_def isTransientStatus_def status_defs
      split: FailurePhase.splits option.splits)

end
