(* ===== verification/Codec.thy ===== *)
theory Codec
  imports Errors
begin

text \<open>
  src/codec/Codec.cpp: the wire primitives of the protocol. A buffer is a byte list, an offset a
  natural number (every reader leaves its offset within the buffer, so size\_t never wraps).
  A reader returns the value and the advanced offset. The variable-length readers shift by
  7, 14, ... with no bound on the number of bytes; a shift by the width of the value or more is
  undefined in C++ and is the outcome \<open>UB\<close> here.
\<close>

section \<open>Variable-length integers\<close>

text \<open>The loops of writeVInt and writeVLong differ only in the width of the value.\<close>

function writeVar :: "byteArray \<Rightarrow> 'a::len word \<Rightarrow> byteArray" where
  "writeVar buffer value =
     (if value AND NOT 0x7F \<noteq> 0
      then writeVar (buffer @ [ucast ((value AND 0x7F) OR 0x80)]) (drop_bit 7 value)
      else buffer @ [ucast value])"
  by pat_completeness auto

lemma and_not_7F_drop: "(v :: 'a::len word) AND NOT 0x7F \<noteq> 0 \<longleftrightarrow> drop_bit 7 v \<noteq> 0"
proof -
  have m: "(0x7F :: 'a word) = mask 7" by (simp add: mask_eq_exp_minus_1)
  have "(v AND NOT (mask 7) = 0) = (drop_bit 7 v = 0)"
  proof
    assume a: "v AND NOT (mask 7) = 0"
    show "drop_bit 7 v = 0"
    proof (rule bit_word_eqI)
      fix n assume "n < LENGTH('a)"
      from a have "\<not> bit (v AND NOT (mask 7)) (7 + n)" by simp
      then show "bit (drop_bit 7 v) n = bit 0 n"
        by (auto simp: bit_simps dest: bit_imp_le_length)
    qed
  next
    assume a: "drop_bit 7 v = 0"
    show "v AND NOT (mask 7) = 0"
    proof (rule bit_word_eqI)
      fix n assume "n < LENGTH('a)"
      from a have "\<not> bit (drop_bit 7 v) (n - 7)" by simp
      then show "bit (v AND NOT (mask 7)) n = bit 0 n"
        by (cases "n < 7") (auto simp: bit_simps)
    qed
  qed
  with m show ?thesis by simp
qed

lemma drop_bit_7_less:
  assumes "drop_bit 7 (v :: 'a::len word) \<noteq> 0"
  shows "unat (drop_bit 7 v) < unat v"
proof -
  have "unat (drop_bit 7 v) = unat v div 128"
    by (simp add: unat_drop_bit_eq) (simp add: drop_bit_eq_div)
  moreover from assms have "unat (drop_bit 7 v) \<noteq> 0" by (simp add: unat_eq_0)
  ultimately show ?thesis by auto
qed

termination writeVar
proof (relation "measure (\<lambda>(b, v). unat v)", goal_cases)
  case 1
  show ?case by simp
next
  case (2 buffer v)
  then have "drop_bit 7 v \<noteq> 0" by (simp only: and_not_7F_drop not_False_eq_True)
  then show ?case by (simp add: drop_bit_7_less)
qed

declare writeVar.simps [simp del]

definition writeVInt :: "byteArray \<Rightarrow> VInt \<Rightarrow> byteArray" where
  "writeVInt buffer value = writeVar buffer value"

definition writeVLong :: "byteArray \<Rightarrow> VLong \<Rightarrow> byteArray" where
  "writeVLong buffer value = writeVar buffer value"

text \<open>
  The loop of readVInt and readVLong: \<open>b\<close> is the byte read last, \<open>shift\<close> the shift of the
  next one.
\<close>

function readVarLoop ::
  "string \<Rightarrow> byteArray \<Rightarrow> nat \<Rightarrow> byte \<Rightarrow> nat \<Rightarrow> 'a::len word \<Rightarrow> (exn, 'a word \<times> nat) outcome" where
  "readVarLoop name buffer offset b shift result =
     (if b AND 0x80 = 0 then Ok (result, offset)
      else if offset \<ge> length buffer then Throw (RuntimeError (name @ '': incomplete varint''))
      else if shift \<ge> LENGTH('a) then UB
      else readVarLoop name buffer (Suc offset) (buffer ! offset) (shift + 7)
             (result OR push_bit shift (ucast (buffer ! offset AND 0x7F))))"
  by pat_completeness auto

termination readVarLoop
  by (relation "measure (\<lambda>(n, buffer, offset, b, s, r). length buffer - offset)") auto

declare readVarLoop.simps [simp del]

definition readVar :: "string \<Rightarrow> byteArray \<Rightarrow> nat \<Rightarrow> (exn, 'a::len word \<times> nat) outcome" where
  "readVar name buffer offset =
     (if offset \<ge> length buffer then Throw (RuntimeError (name @ '': offset out of bounds''))
      else readVarLoop name buffer (Suc offset) (buffer ! offset) 7 (ucast (buffer ! offset AND 0x7F)))"

definition readVInt :: "byteArray \<Rightarrow> nat \<Rightarrow> (exn, VInt \<times> nat) outcome" where
  "readVInt buffer offset = readVar ''readVInt'' buffer offset"

definition readVLong :: "byteArray \<Rightarrow> nat \<Rightarrow> (exn, VLong \<times> nat) outcome" where
  "readVLong buffer offset = readVar ''readVLong'' buffer offset"

section \<open>Fixed-width 64-bit integers\<close>

text \<open>The shift of a signed value is arithmetic; the loop counts i from 7 down to 0.\<close>

fun writeLongLoop :: "nat \<Rightarrow> byteArray \<Rightarrow> int64 \<Rightarrow> byteArray" where
  "writeLongLoop 0 buffer value = buffer"
| "writeLongLoop (Suc i) buffer value =
     writeLongLoop i (buffer @ [ucast (signed_drop_bit (i * 8) value AND 0xFF)]) value"

definition writeLong :: "byteArray \<Rightarrow> int64 \<Rightarrow> byteArray" where
  "writeLong buffer value = writeLongLoop 8 buffer value"

fun readLongLoop :: "nat \<Rightarrow> byteArray \<Rightarrow> nat \<Rightarrow> int64 \<Rightarrow> int64 \<times> nat" where
  "readLongLoop 0 buffer offset result = (result, offset)"
| "readLongLoop (Suc n) buffer offset result =
     readLongLoop n buffer (Suc offset) (push_bit 8 result OR ucast (buffer ! offset))"

definition readLong :: "byteArray \<Rightarrow> nat \<Rightarrow> (exn, int64 \<times> nat) outcome" where
  "readLong buffer offset =
     (if offset + 8 > length buffer then Throw (RuntimeError ''readLong: offset out of bounds'')
      else Ok (readLongLoop 8 buffer offset 0))"

section \<open>Strings and byte arrays\<close>

text \<open>static\_cast<VInt>(size) keeps the low 32 bits of the length.\<close>

definition writeString :: "byteArray \<Rightarrow> string \<Rightarrow> byteArray" where
  "writeString buffer value =
     (if value = [] then writeVInt buffer 0
      else writeVInt buffer (word_of_nat (length value)) @ bytes_of_string value)"

definition readString :: "byteArray \<Rightarrow> nat \<Rightarrow> (exn, string \<times> nat) outcome" where
  "readString buffer offset =
     bindO (readVInt buffer offset) (\<lambda>(len, offset).
       if len = 0 then Ok ([], offset)
       else if offset + unat len > length buffer
         then Throw (RuntimeError ''readString: string length exceeds buffer'')
       else Ok (string_of_bytes (take (unat len) (drop offset buffer)), offset + unat len))"

definition writeByteArray :: "byteArray \<Rightarrow> byteArray \<Rightarrow> byteArray" where
  "writeByteArray buffer value = writeVInt buffer (word_of_nat (length value)) @ value"

definition readByteArray :: "byteArray \<Rightarrow> nat \<Rightarrow> (exn, byteArray \<times> nat) outcome" where
  "readByteArray buffer offset =
     bindO (readVInt buffer offset) (\<lambda>(len, offset).
       if len = 0 then Ok ([], offset)
       else if offset + unat len > length buffer
         then Throw (RuntimeError ''readByteArray: array length exceeds buffer'')
       else Ok (take (unat len) (drop offset buffer), offset + unat len))"

text \<open>A counted sequence of values of one primitive.\<close>

fun readN :: "(byteArray \<Rightarrow> nat \<Rightarrow> (exn, 'a \<times> nat) outcome) \<Rightarrow> nat \<Rightarrow> byteArray \<Rightarrow> nat \<Rightarrow>
    (exn, 'a list \<times> nat) outcome" where
  "readN dec 0 buf off = Ok ([], off)"
| "readN dec (Suc n) buf off =
     bindO (dec buf off) (\<lambda>(v, off). bindO (readN dec n buf off) (\<lambda>(vs, off). Ok (v # vs, off)))"

text \<open>\<open>at_input buf off xs\<close>: the unread part of the buffer at the offset is \<open>xs\<close>.\<close>

definition at_input :: "byteArray \<Rightarrow> nat \<Rightarrow> byteArray \<Rightarrow> bool" where
  "at_input buf off xs \<longleftrightarrow> off \<le> length buf \<and> drop off buf = xs"

text \<open>\<open>reads buf m v rest\<close>: the read \<open>m\<close> delivers \<open>v\<close> and leaves \<open>rest\<close> unread.\<close>

definition reads :: "byteArray \<Rightarrow> (exn, 'a \<times> nat) outcome \<Rightarrow> 'a \<Rightarrow> byteArray \<Rightarrow> bool" where
  "reads buf m v rest \<longleftrightarrow> (\<exists>off. m = Ok (v, off) \<and> at_input buf off rest)"

abbreviation fits32 :: "'a list \<Rightarrow> bool" where
  "fits32 xs \<equiv> length xs < 2 ^ 32"

section \<open>Seven-bit groups\<close>

lemma writeVar_big:
  "drop_bit 7 v \<noteq> 0 \<Longrightarrow>
    writeVar buf v = writeVar (buf @ [ucast ((v AND 0x7F) OR 0x80)]) (drop_bit 7 v)"
  by (subst writeVar.simps) (simp only: and_not_7F_drop not_False_eq_True if_True)

lemma writeVar_small: "drop_bit 7 v = 0 \<Longrightarrow> writeVar buf v = buf @ [ucast v]"
  using and_not_7F_drop [of v] by (subst writeVar.simps) (simp only: if_False simp_thms)

lemma group_induct [case_names small big]:
  assumes small: "\<And>v. drop_bit 7 v = 0 \<Longrightarrow> P v"
    and big: "\<And>v. drop_bit 7 v \<noteq> 0 \<Longrightarrow> P (drop_bit 7 v) \<Longrightarrow> P v"
  shows "P (v :: 'a::len word)"
proof (induction "unat v" arbitrary: v rule: less_induct)
  case less
  show ?case
  proof (cases "drop_bit 7 v = 0")
    case True
    then show ?thesis by (rule small)
  next
    case False
    then have "P (drop_bit 7 v)" by (rule less [OF drop_bit_7_less])
    with False show ?thesis by (rule big)
  qed
qed

lemma writeVar_append: "writeVar buf v = buf @ writeVar [] v"
proof (induction v arbitrary: buf rule: group_induct)
  case (small v)
  then show ?case by (simp add: writeVar_small)
next
  case (big v)
  show ?case
    by (subst (1 2) writeVar_big [OF big(1)], subst (1 2) big(2)) simp
qed

lemma writeVar_Cons:
  "drop_bit 7 v \<noteq> 0 \<Longrightarrow> writeVar [] v = ucast ((v AND 0x7F) OR 0x80) # writeVar [] (drop_bit 7 v)"
  by (simp add: writeVar_big) (subst writeVar_append, simp)

lemma writeVar_not_Nil [simp]: "writeVar buf v \<noteq> []"
  by (subst writeVar.simps) (subst writeVar_append, simp)

lemma unat_drop_bit_7: "unat (drop_bit 7 (v :: 'a::len word)) = unat v div 128"
  by (simp add: unat_drop_bit_eq) (simp add: drop_bit_eq_div)

lemma group_ge_128: "drop_bit 7 (v :: 'a::len word) \<noteq> 0 \<Longrightarrow> 128 \<le> unat v"
  by (metis unat_drop_bit_7 div_less not_le unat_eq_0)

text \<open>The encoding is minimal: n bytes are enough exactly for the values below 2^(7 n).\<close>

lemma length_writeVar_le_iff:
  "length (writeVar [] v) \<le> Suc n \<longleftrightarrow> unat v < 2 ^ (7 * Suc n)"
proof (induction v arbitrary: n rule: group_induct)
  case (small v)
  have "unat v < 128"
    using arg_cong [OF small, of unat] by (simp only: unat_drop_bit_7) (simp add: div_eq_0_iff)
  also have "128 \<le> (2 :: nat) ^ (7 * Suc n)" by (simp add: power_add)
  finally show ?case using small by (simp add: writeVar_small)
next
  case (big v)
  show ?case
  proof (cases n)
    case 0
    with big.hyps group_ge_128 [OF big.hyps] show ?thesis
      by (simp add: writeVar_Cons length_0_conv)
  next
    case (Suc m)
    have "unat v < 2 ^ (7 * Suc n) \<longleftrightarrow> unat (drop_bit 7 v) < 2 ^ (7 * Suc m)"
      by (simp add: unat_drop_bit_7 Suc power_add div_less_iff_less_mult)
    with big Suc show ?thesis by (simp add: writeVar_Cons)
  qed
qed

lemma bit_0x80 [byte_simps]: "bit (0x80 :: int) n \<longleftrightarrow> n = 7"
proof -
  have "(0x80 :: int) = 2 ^ 7" by simp
  then show ?thesis by (simp only: bit_exp_iff) auto
qed

lemma bit_0x7F [byte_simps]: "bit (0x7F :: int) n \<longleftrightarrow> n < 7"
proof -
  have "(0x7F :: int) = mask 7" by (simp add: mask_eq_exp_minus_1)
  then show ?thesis by (simp only: bit_mask_iff) auto
qed

lemma bit_0xFF [byte_simps]: "bit (0xFF :: int) n \<longleftrightarrow> n < 8"
proof -
  have "(0xFF :: int) = mask 8" by (simp add: mask_eq_exp_minus_1)
  then show ?thesis by (simp only: bit_mask_iff) auto
qed

lemma group_byte [byte_simps]:
  fixes v :: "'a::len word"
  assumes "8 \<le> LENGTH('a)"
  shows "(ucast ((v AND 0x7F) OR 0x80) :: byte) AND 0x80 \<noteq> 0"
    and "ucast ((ucast ((v AND 0x7F) OR 0x80) :: byte) AND 0x7F) = v AND 0x7F"
proof -
  have "bit ((ucast ((v AND 0x7F) OR 0x80) :: byte) AND 0x80) 7"
    using assms by (simp add: bit_simps byte_simps)
  then show "(ucast ((v AND 0x7F) OR 0x80) :: byte) AND 0x80 \<noteq> 0" by auto
  show "ucast ((ucast ((v AND 0x7F) OR 0x80) :: byte) AND 0x7F) = v AND 0x7F"
    using assms by (intro bit_word_eqI) (auto simp: bit_simps byte_simps)
qed

lemma last_byte [byte_simps]:
  fixes v :: "'a::len word"
  assumes "drop_bit 7 v = 0"
  shows "(ucast v :: byte) AND 0x80 = 0" and "ucast ((ucast v :: byte) AND 0x7F) = v"
proof -
  have nb: "n < 7" if "bit v n" for n
  proof (rule ccontr)
    assume "\<not> n < 7"
    with that have "bit (drop_bit 7 v) (n - 7)" by (simp add: bit_simps byte_simps)
    with assms show False by simp
  qed
  show "(ucast v :: byte) AND 0x80 = 0"
    by (intro bit_word_eqI) (auto simp: bit_simps byte_simps dest: nb)
  show "ucast ((ucast v :: byte) AND 0x7F) = v"
    by (intro bit_word_eqI) (auto simp: bit_simps byte_simps dest: nb)
qed

section \<open>Reading back a variable-length integer\<close>

lemma readVarLoop_stop: "b AND 0x80 = 0 \<Longrightarrow> readVarLoop nm buf off b sh r = Ok (r, off)"
  by (simp add: readVarLoop.simps)

lemma readVarLoop_step:
  "b AND 0x80 \<noteq> 0 \<Longrightarrow> off < length buf \<Longrightarrow> sh < LENGTH('a) \<Longrightarrow>
    readVarLoop nm buf off b sh (r :: 'a::len word) =
    readVarLoop nm buf (Suc off) (buf ! off) (sh + 7) (r OR push_bit sh (ucast (buf ! off AND 0x7F)))"
  by (subst readVarLoop.simps) simp

lemma push_bit_group:
  "push_bit s (v AND 0x7F) OR push_bit (s + 7) (drop_bit 7 v) = push_bit s (v :: 'a::len word)"
proof (rule bit_word_eqI)
  fix n assume "n < LENGTH('a)"
  show "bit (push_bit s (v AND 0x7F) OR push_bit (s + 7) (drop_bit 7 v)) n = bit (push_bit s v) n"
  proof (cases "s + 7 \<le> n")
    case True
    then have "7 + (n - (s + 7)) = n - s" by simp
    with True show ?thesis by (auto simp: bit_simps byte_simps)
  next
    case False
    with \<open>n < LENGTH('a)\<close> show ?thesis by (auto simp: bit_simps byte_simps)
  qed
qed

text \<open>
  The loop, entered with the first byte of the encoding of \<open>v\<close> already merged at \<open>s\<close>,
  merges the whole of \<open>v\<close> at \<open>s\<close> and stops right behind the encoding.
\<close>

lemma readVarLoop_writeVar:
  fixes v :: "'a::len word"
  assumes "8 \<le> LENGTH('a)" and "writeVar [] v = b # bs" and "unat v * 2 ^ s < 2 ^ LENGTH('a)"
  shows "readVarLoop nm (pre @ b # bs @ rest) (Suc (length pre)) b (s + 7)
           (r OR push_bit s (ucast (b AND 0x7F))) = Ok (r OR push_bit s v, length pre + Suc (length bs))"
  using assms(2,3)
proof (induction v arbitrary: b bs s r pre rule: group_induct)
  case (small v)
  then have "b = ucast v" "bs = []" by (simp_all add: writeVar_small)
  with small(1) show ?case by (simp add: byte_simps readVarLoop_stop)
next
  case (big v)
  from big.hyps big.prems(1) have b: "b = ucast ((v AND 0x7F) OR 0x80)"
    and bs: "writeVar [] (drop_bit 7 v) = bs" by (simp_all add: writeVar_Cons)
  then obtain c cs where c: "bs = c # cs" by (metis list.exhaust writeVar_not_Nil)
  note ge = group_ge_128 [OF big.hyps]
  have le: "unat (drop_bit 7 v) * 2 ^ (s + 7) \<le> unat v * 2 ^ s"
    by (simp add: unat_drop_bit_7 power_add)
  have "(2::nat) ^ (s + 7) \<le> unat v * 2 ^ s" using ge by (simp add: power_add)
  from le_less_trans [OF this big.prems(2)] have s: "s + 7 < LENGTH('a)"
    by (metis one_less_numeral_iff power_less_imp_less_exp semiring_norm(76))
  let ?buf = "pre @ b # bs @ rest"
  have IH: "readVarLoop nm ((pre @ [b]) @ c # cs @ rest) (Suc (length (pre @ [b]))) c ((s + 7) + 7)
      ((r OR push_bit s (v AND 0x7F)) OR push_bit (s + 7) (ucast (c AND 0x7F))) =
      Ok ((r OR push_bit s (v AND 0x7F)) OR push_bit (s + 7) (drop_bit 7 v), length (pre @ [b]) + Suc (length cs))"
    by (rule big.IH [OF bs [unfolded c] le_less_trans [OF le big.prems(2)]])
  have cont: "b AND 0x80 \<noteq> 0" and low: "ucast (b AND 0x7F) = v AND 0x7F"
    unfolding b by (rule group_byte [OF assms(1)])+
  have "readVarLoop nm ?buf (Suc (length pre)) b (s + 7) (r OR push_bit s (ucast (b AND 0x7F))) =
    readVarLoop nm ?buf (Suc (Suc (length pre))) c (s + 7 + 7)
      (r OR push_bit s (v AND 0x7F) OR push_bit (s + 7) (ucast (c AND 0x7F)))"
    using cont s by (subst readVarLoop_step) (simp_all add: low c nth_append or.assoc)
  also have "\<dots> = Ok (r OR push_bit s v, length pre + Suc (length bs))"
    using IH push_bit_group [of s v] by (simp add: c or.assoc)
  finally show ?case .
qed

lemma readVar_writeVar:
  fixes v :: "'a::len word"
  assumes "8 \<le> LENGTH('a)"
  shows "readVar nm (pre @ writeVar [] v @ rest) (length pre) =
    Ok (v, length pre + length (writeVar [] v))"
proof -
  obtain b bs where w: "writeVar [] v = b # bs" by (metis list.exhaust writeVar_not_Nil)
  have "unat v * 2 ^ 0 < 2 ^ LENGTH('a)" using unsigned_less [of v] by simp
  from readVarLoop_writeVar [OF assms w this, of nm pre rest 0] show ?thesis
    by (simp add: readVar_def w nth_append)
qed

section \<open>Reading back the fixed-width and length-prefixed values\<close>

definition slice8 :: "nat \<Rightarrow> int64 \<Rightarrow> byte" where
  "slice8 i v = ucast (drop_bit (8 * i) v)"

lemma arith_shift_byte:
  assumes "i < 8"
  shows "(ucast (signed_drop_bit (i * 8) v AND 0xFF) :: byte) = slice8 i v"
  using assms unfolding slice8_def
  by (intro bit_word_eqI) (auto simp: bit_simps byte_simps mult.commute)

lemma writeLongLoop_append:
  "i \<le> 8 \<Longrightarrow> writeLongLoop i buf v = buf @ map (\<lambda>k. slice8 k v) (rev [0..<i])"
  by (induction i arbitrary: buf) (simp_all add: arith_shift_byte)

lemma writeLong_eq: "writeLong buf v = buf @ map (\<lambda>k. slice8 k v) (rev [0..<8])"
  by (simp only: writeLong_def writeLongLoop_append le_refl)

lemma length_writeLong [simp]: "length (writeLong [] v) = 8"
  by (simp only: writeLong_eq) simp

lemma glue_byte: "push_bit 8 (drop_bit (8 * Suc i) v) OR ucast (slice8 i v) = drop_bit (8 * i) v"
proof (rule bit_word_eqI)
  fix n assume n: "n < LENGTH(64)"
  show "bit (push_bit 8 (drop_bit (8 * Suc i) v) OR ucast (slice8 i v)) n = bit (drop_bit (8 * i) v) n"
  proof (cases "8 \<le> n")
    case True
    then have "8 + 8 * i + (n - 8) = 8 * i + n" by simp
    with True n show ?thesis by (auto simp: bit_simps slice8_def)
  next
    case False
    with n show ?thesis by (auto simp: bit_simps slice8_def)
  qed
qed

text \<open>After the top bytes of a value have been read, reading the next ones extends it.\<close>

lemma readLongLoop_slices:
  "readLongLoop n (pre @ map (\<lambda>k. slice8 k v) (rev [0..<n]) @ rest) (length pre) (drop_bit (8 * n) v)
     = (v, length pre + n)"
proof (induction n arbitrary: pre)
  case 0
  then show ?case by simp
next
  case (Suc n)
  from Suc [of "pre @ [slice8 n v]"] show ?case
    using glue_byte [of n v] by (simp add: nth_append)
qed

lemma readLong_writeLong:
  "readLong (pre @ writeLong [] v @ rest) (length pre) = Ok (v, length pre + length (writeLong [] v))"
proof -
  have "drop_bit (8 * 8) v = 0" by (rule bit_word_eqI) (auto simp: bit_simps)
  with readLongLoop_slices [of 8 pre v rest] show ?thesis
    by (simp only: readLong_def writeLong_eq) simp
qed

lemma readVInt_writeVInt:
  "readVInt (pre @ writeVInt [] v @ rest) (length pre) = Ok (v, length pre + length (writeVInt [] v))"
  by (simp add: readVInt_def writeVInt_def readVar_writeVar)

lemma readVLong_writeVLong:
  "readVLong (pre @ writeVLong [] v @ rest) (length pre) = Ok (v, length pre + length (writeVLong [] v))"
  by (simp add: readVLong_def writeVLong_def readVar_writeVar)

lemma writeVInt_append: "writeVInt buf v = buf @ writeVInt [] v"
  unfolding writeVInt_def by (rule writeVar_append)

lemma writeVLong_append: "writeVLong buf v = buf @ writeVLong [] v"
  unfolding writeVLong_def by (rule writeVar_append)

lemma writeString_append: "writeString buf s = buf @ writeString [] s"
  unfolding writeString_def using writeVInt_append [of buf] by simp

lemma writeByteArray_append: "writeByteArray buf s = buf @ writeByteArray [] s"
  unfolding writeByteArray_def using writeVInt_append [of buf] by simp

lemma writeLong_append: "writeLong buf v = buf @ writeLong [] v"
  by (simp only: writeLong_eq) simp

lemma unat_length_word: "n < 2 ^ 32 \<Longrightarrow> unat (word_of_nat n :: VInt) = n"
  by (simp add: unsigned_of_nat take_bit_nat_eq_self)

lemma word_of_length_eq_0: "n < 2 ^ 32 \<Longrightarrow> (word_of_nat n :: VInt) = 0 \<longleftrightarrow> n = 0"
  using unat_length_word [of n] by auto

lemma readByteArray_writeByteArray:
  assumes "length s < 2 ^ 32"
  shows "readByteArray (pre @ writeByteArray [] s @ rest) (length pre) =
    Ok (s, length pre + length (writeByteArray [] s))"
  using assms readVInt_writeVInt [of pre "word_of_nat (length s)" "s @ rest"]
  by (auto simp: readByteArray_def writeByteArray_def unat_length_word word_of_length_eq_0)

lemma readString_writeString:
  assumes "length s < 2 ^ 32"
  shows "readString (pre @ writeString [] s @ rest) (length pre) =
    Ok (s, length pre + length (writeString [] s))"
proof (cases "s = []")
  case True
  with readVInt_writeVInt [of pre 0 rest] show ?thesis
    by (simp add: readString_def writeString_def)
next
  case False
  with assms readVInt_writeVInt [of pre "word_of_nat (length s)" "bytes_of_string s @ rest"]
  show ?thesis
    by (simp add: readString_def writeString_def unat_length_word word_of_length_eq_0)
qed

section \<open>Bounds\<close>

lemma readVarLoop_bounds:
  "readVarLoop nm buf off b sh (r :: 'a::len word) = Ok (v, off') \<Longrightarrow> off \<le> length buf \<Longrightarrow>
    off \<le> off' \<and> off' \<le> length buf"
proof (induction nm buf off b sh r rule: readVarLoop.induct)
  case (1 nm buf off b sh r)
  show ?case
  proof (cases "b AND 0x80 = 0 \<or> length buf \<le> off \<or> LENGTH('a) \<le> sh")
    case True
    with "1.prems" show ?thesis by (subst (asm) readVarLoop.simps) (auto split: if_splits)
  next
    case False
    with "1.prems" have "readVarLoop nm buf (Suc off) (buf ! off) (sh + 7)
        (r OR push_bit sh (ucast (buf ! off AND 0x7F))) = Ok (v, off')"
      by (simp add: readVarLoop_step)
    with "1.IH" False show ?thesis by fastforce
  qed
qed

lemma readVar_bounds:
  "readVar nm buf off = Ok (v, off') \<Longrightarrow> off < off' \<and> off' \<le> length buf"
  by (auto simp: readVar_def dest!: readVarLoop_bounds split: if_splits)

text \<open>A successful read does not look at what follows: more input gives the same result.\<close>

lemma readVarLoop_extend:
  "readVarLoop nm buf off b sh (r :: 'a::len word) = Ok (v, off') \<Longrightarrow>
    readVarLoop nm (buf @ zs) off b sh r = Ok (v, off')"
proof (induction nm buf off b sh r rule: readVarLoop.induct)
  case (1 nm buf off b sh r)
  show ?case
  proof (cases "b AND 0x80 = 0 \<or> length buf \<le> off \<or> LENGTH('a) \<le> sh")
    case True
    with "1.prems" show ?thesis
      by (subst (asm) readVarLoop.simps, subst readVarLoop.simps) (auto split: if_splits)
  next
    case False
    with "1.prems" have "readVarLoop nm buf (Suc off) (buf ! off) (sh + 7)
        (r OR push_bit sh (ucast (buf ! off AND 0x7F))) = Ok (v, off')"
      by (simp add: readVarLoop_step)
    with "1.IH" False show ?thesis by (simp add: readVarLoop_step nth_append)
  qed
qed

lemma readVar_extend:
  "readVar nm buf off = Ok (v, off') \<Longrightarrow> readVar nm (buf @ zs) off = Ok (v, off')"
  by (auto simp: readVar_def nth_append dest: readVarLoop_extend split: if_splits)

lemma readLongLoop_extend:
  "off + n \<le> length buf \<Longrightarrow> readLongLoop n (buf @ zs) off r = readLongLoop n buf off r"
  by (induction n arbitrary: off r) (simp_all add: nth_append)

lemma readVarLoop_not_Block: "readVarLoop nm buf off b sh (r :: 'a::len word) \<noteq> Block"
proof (induction nm buf off b sh r rule: readVarLoop.induct)
  case (1 nm buf off b sh r)
  then show ?case by (subst readVarLoop.simps) simp
qed

lemma readVar_not_Block: "readVar nm buf off \<noteq> Block"
  by (simp add: readVar_def readVarLoop_not_Block)

lemma readVarLoop_Throw:
  "readVarLoop nm buf off b sh (r :: 'a::len word) = Throw e \<Longrightarrow> \<exists>m. e = RuntimeError m"
proof (induction nm buf off b sh r rule: readVarLoop.induct)
  case (1 nm buf off b sh r)
  then show ?case by (subst (asm) (2) readVarLoop.simps) (auto split: if_splits)
qed

lemma readVar_Throw: "readVar nm buf off = Throw e \<Longrightarrow> \<exists>m. e = RuntimeError m"
  by (auto simp: readVar_def dest: readVarLoop_Throw split: if_splits)

text \<open>
  The readers run into the undefined shift exactly when more bytes follow than the value has
  seven-bit groups.
\<close>

lemma readVarLoop_UB_iff:
  assumes "7 * N \<ge> LENGTH('a)" and "7 * N < LENGTH('a) + 7" and "k \<le> N"
  shows "readVarLoop nm buf off b (7 * k) (r :: 'a::len word) = UB \<longleftrightarrow>
    b AND 0x80 \<noteq> 0 \<and> off + (N - k) < length buf \<and> (\<forall>j < N - k. buf ! (off + j) AND 0x80 \<noteq> 0)"
  using assms(3)
proof (induction "N - k" arbitrary: k off b r)
  case 0
  then have k: "k = N" by simp
  with assms(1) show ?case by (subst readVarLoop.simps) auto
next
  case (Suc d)
  then have lt: "k < N" and d: "d = N - Suc k" by simp_all
  from lt assms(2) have sh: "7 * k < LENGTH('a)" by simp
  show ?case
  proof (cases "b AND 0x80 = 0 \<or> length buf \<le> off")
    case True
    then show ?thesis by (subst readVarLoop.simps) auto
  next
    case False
    then have "readVarLoop nm buf off b (7 * k) r = readVarLoop nm buf (Suc off) (buf ! off) (7 * Suc k)
        (r OR push_bit (7 * k) (ucast (buf ! off AND 0x7F)))"
      using sh by (simp add: readVarLoop_step add.commute)
    moreover have "N - k = Suc d" using Suc.hyps(2) by simp
    ultimately show ?thesis
      using Suc.hyps(1) [OF d, of "Suc off" "buf ! off"] lt False
      by (auto simp: d [symmetric] All_less_Suc2)
  qed
qed

lemma readVar_UB_iff:
  assumes "7 * N \<ge> LENGTH('a)" and "7 * N < LENGTH('a) + 7" and "1 \<le> N"
  shows "(readVar nm buf off :: (exn, 'a::len word \<times> nat) outcome) = UB \<longleftrightarrow>
    off + N < length buf \<and> (\<forall>j < N. buf ! (off + j) AND 0x80 \<noteq> 0)"
proof (cases "off < length buf")
  case False
  then show ?thesis by (simp add: readVar_def)
next
  case True
  from assms(3) obtain M where N: "N = Suc M" by (cases N) auto
  from readVarLoop_UB_iff [OF assms(1,2), of 1 nm buf "Suc off" "buf ! off"] True show ?thesis
    by (auto simp: readVar_def N All_less_Suc2)
qed

lemma at_input_length: "at_input buf off xs \<Longrightarrow> off + length xs = length buf"
  by (auto simp: at_input_def)

lemma at_input_start: "at_input (pre @ xs) (length pre) xs"
  by (simp add: at_input_def)

lemma reads_Ok: "at_input buf off rest \<Longrightarrow> reads buf (Ok (v, off)) v rest"
  by (simp add: reads_def)

lemma reads_Ok_eq: "at_input buf off rest \<Longrightarrow> v = w \<Longrightarrow> reads buf (Ok (v, off)) w rest"
  by (simp add: reads_def)

lemma reads_bind:
  assumes "reads buf m v rest" and "\<And>off. at_input buf off rest \<Longrightarrow> reads buf (g v off) w rest'"
  shows "reads buf (bindO m (case_prod g)) w rest'"
  using assms by (auto simp: reads_def)

lemma reads_bind_plain:
  "m = Ok v \<Longrightarrow> reads buf (g v) w rest \<Longrightarrow> reads buf (bindO m g) w rest"
  by simp

lemma reads_offset:
  assumes "reads (pre @ xs @ rest) m v rest"
  shows "m = Ok (v, length pre + length xs)"
  using assms by (auto simp: reads_def dest!: at_input_length)

lemma readVar_short:
  assumes "length buf - off \<le> N" and "7 * N \<ge> LENGTH('a)" and "7 * N < LENGTH('a) + 7" and "1 \<le> N"
    and "\<And>v off'. (readVar nm buf off :: (exn, 'a::len word \<times> nat) outcome) \<noteq> Ok (v, off')"
  shows "\<exists>m. (readVar nm buf off :: (exn, 'a word \<times> nat) outcome) = Throw (RuntimeError m)"
proof (cases "readVar nm buf off :: (exn, 'a word \<times> nat) outcome")
  case (Ok p)
  with assms(5) show ?thesis by (cases p) auto
next
  case UB
  with readVar_UB_iff [OF assms(2-4), of nm buf off] assms(1) show ?thesis by auto
qed (auto dest: readVar_Throw simp: readVar_not_Block)

section \<open>The interface of a wire primitive\<close>

text \<open>
  A reader stays within the buffer, makes progress and looks at no byte behind its value; a wire primitive is a reader together with
  the encoder it reads back, whatever stands before and behind the encoding. Clients (headers,
  request bodies, authentication bodies) rely on nothing else.
\<close>

locale bounded_reader =
  fixes dec :: "byteArray \<Rightarrow> nat \<Rightarrow> (exn, 'a \<times> nat) outcome"
  assumes dec_bounds: "dec buf off = Ok (v, off') \<Longrightarrow> off < off' \<and> off' \<le> length buf"
    and dec_extend: "dec buf off = Ok (v, off') \<Longrightarrow> dec (buf @ zs) off = Ok (v, off')"

locale wire_primitive = bounded_reader dec
  for dec :: "byteArray \<Rightarrow> nat \<Rightarrow> (exn, 'a \<times> nat) outcome" +
  fixes enc :: "'a \<Rightarrow> byteArray"
    and valid :: "'a \<Rightarrow> bool"
  assumes dec_enc: "valid v \<Longrightarrow>
    dec (pre @ enc v @ rest) (length pre) = Ok (v, length pre + length (enc v))"
begin

lemma read_at:
  assumes "at_input buf off (enc v @ rest)" and "valid v"
  shows "reads buf (dec buf off) v rest"
proof -
  from assms(1) have off: "off \<le> length buf" and d: "drop off buf = enc v @ rest"
    by (auto simp: at_input_def)
  from d have "take off buf @ enc v @ rest = buf" by (metis append_take_drop_id)
  with dec_enc [OF assms(2), of "take off buf" rest] off
  have "dec buf off = Ok (v, off + length (enc v))" by simp
  moreover have "off + length (enc v) \<le> length buf"
    using arg_cong [OF d, of length] off by simp
  moreover have "drop (off + length (enc v)) buf = rest"
    using arg_cong [OF d, of "drop (length (enc v))"] by (simp add: add.commute)
  ultimately show ?thesis by (auto simp: at_input_def reads_def)
qed

lemma enc_prefix_free:
  assumes "valid v" and "valid w" and eq: "enc v @ r = enc w @ r'"
  shows "v = w \<and> r = r'"
proof -
  from dec_enc [OF assms(1), of "[]" r] dec_enc [OF assms(2), of "[]" r'] eq
  have "(v, length (enc v)) = (w, length (enc w))" by simp
  with eq show ?thesis by simp
qed

lemma dec_truncated:
  assumes "valid v" and "k < length (enc v)"
  shows "dec (pre @ take k (enc v)) (length pre) \<noteq> Ok (w, off')"
proof
  assume a: "dec (pre @ take k (enc v)) (length pre) = Ok (w, off')"
  from dec_extend [OF a, of "drop k (enc v)"]
  have "dec (pre @ enc v @ []) (length pre) = Ok (w, off')" by simp
  with dec_enc [OF assms(1), of pre "[]"] have "off' = length pre + length (enc v)" by auto
  with dec_bounds [OF a] assms(2) show False by simp
qed

lemma enc_not_Nil: "valid v \<Longrightarrow> enc v \<noteq> []"
  using dec_enc [of v "[]" "[]"] dec_bounds [of "enc v" 0] by fastforce

end

context wire_primitive
begin

lemma readN_at:
  assumes "at_input buf off (concat (map enc vs) @ rest)" and "\<forall>v \<in> set vs. valid v"
  shows "reads buf (readN dec (length vs) buf off) vs rest"
  using assms
proof (induction vs arbitrary: off)
  case Nil
  then show ?case by (simp add: reads_Ok)
next
  case (Cons v vs)
  then have a: "at_input buf off (enc v @ concat (map enc vs) @ rest)" and v: "valid v" by simp_all
  show ?case
    by (simp, rule reads_bind [OF read_at [OF a v]], rule reads_bind, rule Cons.IH)
      (use Cons.prems in \<open>simp_all add: reads_Ok\<close>)
qed

end

context bounded_reader
begin

lemma readN_bounds:
  "readN dec n buf off = Ok (vs, off') \<Longrightarrow> off \<le> length buf \<Longrightarrow>
    length vs = n \<and> off + n \<le> off' \<and> off' \<le> length buf"
proof (induction n arbitrary: off vs)
  case 0
  then show ?case by simp
next
  case (Suc n)
  from Suc.prems obtain v ws o1 where d: "dec buf off = Ok (v, o1)"
    and r: "readN dec n buf o1 = Ok (ws, off')" and vs: "vs = v # ws" by auto
  from dec_bounds [OF d] Suc.IH [OF r] vs show ?case by auto
qed

end

interpretation vint: wire_primitive readVInt "writeVInt []" "\<lambda>_. True"
proof unfold_locales
  show "readVInt buf off = Ok (v, off') \<Longrightarrow> off < off' \<and> off' \<le> length buf" for buf off v off'
    by (simp add: readVInt_def readVar_bounds)
  show "readVInt buf off = Ok (v, off') \<Longrightarrow> readVInt (buf @ zs) off = Ok (v, off')" for buf off v off' zs
    by (simp add: readVInt_def readVar_extend)
qed (rule readVInt_writeVInt)

interpretation vlong: wire_primitive readVLong "writeVLong []" "\<lambda>_. True"
proof unfold_locales
  show "readVLong buf off = Ok (v, off') \<Longrightarrow> off < off' \<and> off' \<le> length buf" for buf off v off'
    by (simp add: readVLong_def readVar_bounds)
  show "readVLong buf off = Ok (v, off') \<Longrightarrow> readVLong (buf @ zs) off = Ok (v, off')" for buf off v off' zs
    by (simp add: readVLong_def readVar_extend)
qed (rule readVLong_writeVLong)

lemma readLongLoop_offset: "snd (readLongLoop n buf off r) = off + n"
  by (induction n arbitrary: off r) simp_all

interpretation long: wire_primitive readLong "writeLong []" "\<lambda>_. True"
proof unfold_locales
  show "readLong buf off = Ok (v, off') \<Longrightarrow> off < off' \<and> off' \<le> length buf" for buf off v off'
    using readLongLoop_offset [of 8 buf off 0] by (auto simp: readLong_def split: if_splits)
  show "readLong buf off = Ok (v, off') \<Longrightarrow> readLong (buf @ zs) off = Ok (v, off')"
    for buf off v off' zs
    by (auto simp: readLong_def readLongLoop_extend split: if_splits)
qed (rule readLong_writeLong)

interpretation lpstring: wire_primitive readString "writeString []" fits32
proof unfold_locales
  show "readString buf off = Ok (v, off') \<Longrightarrow> off < off' \<and> off' \<le> length buf" for buf off v off'
    using vint.dec_bounds [of buf off] by (fastforce simp: readString_def split: if_splits)
  show "readString buf off = Ok (v, off') \<Longrightarrow> readString (buf @ zs) off = Ok (v, off')"
    for buf off v off' zs
    by (cases "readVInt buf off") (auto simp: readString_def vint.dec_extend simp del: bindO_eq_Ok_iff split: if_splits)
qed (rule readString_writeString)

interpretation lpbytes: wire_primitive readByteArray "writeByteArray []" fits32
proof unfold_locales
  show "readByteArray buf off = Ok (v, off') \<Longrightarrow> off < off' \<and> off' \<le> length buf" for buf off v off'
    using vint.dec_bounds [of buf off] by (fastforce simp: readByteArray_def split: if_splits)
  show "readByteArray buf off = Ok (v, off') \<Longrightarrow> readByteArray (buf @ zs) off = Ok (v, off')"
    for buf off v off' zs
    by (cases "readVInt buf off") (auto simp: readByteArray_def vint.dec_extend simp del: bindO_eq_Ok_iff split: if_splits)
qed (rule readByteArray_writeByteArray)

lemmas wire_reads = vint.read_at vlong.read_at long.read_at lpstring.read_at lpbytes.read_at

section \<open>Properties\<close>

text \<open>
  C9: Whatever stands before and behind it, a value written by writeVInt, writeVLong, writeLong,
  writeString or writeByteArray is read back unchanged by its reader, and the reader's offset stops
  right behind the value. Strings and arrays need a length below 2^32, the range of the prefix.
\<close>

theorem codec_round_trip:
  assumes "fits32 s" and "fits32 bs"
  shows "readVInt (writeVInt pre i @ rest) (length pre) = Ok (i, length (writeVInt pre i)) \<and>
    readVLong (writeVLong pre l @ rest) (length pre) = Ok (l, length (writeVLong pre l)) \<and>
    readLong (writeLong pre n @ rest) (length pre) = Ok (n, length (writeLong pre n)) \<and>
    readString (writeString pre s @ rest) (length pre) = Ok (s, length (writeString pre s)) \<and>
    readByteArray (writeByteArray pre bs @ rest) (length pre) = Ok (bs, length (writeByteArray pre bs))"
proof (intro conjI)
  show "readVInt (writeVInt pre i @ rest) (length pre) = Ok (i, length (writeVInt pre i))"
    by (subst (1 2) writeVInt_append) (simp add: vint.dec_enc)
  show "readVLong (writeVLong pre l @ rest) (length pre) = Ok (l, length (writeVLong pre l))"
    by (subst (1 2) writeVLong_append) (simp add: vlong.dec_enc)
  show "readLong (writeLong pre n @ rest) (length pre) = Ok (n, length (writeLong pre n))"
    by (subst (1 2) writeLong_append) (simp add: long.dec_enc [simplified])
  show "readString (writeString pre s @ rest) (length pre) = Ok (s, length (writeString pre s))"
    by (subst (1 2) writeString_append) (simp add: lpstring.dec_enc [OF assms(1)])
  show "readByteArray (writeByteArray pre bs @ rest) (length pre) = Ok (bs, length (writeByteArray pre bs))"
    by (subst (1 2) writeByteArray_append) (simp add: lpbytes.dec_enc [OF assms(2)])
qed

theorem codec_round_trip_witness:
  "readString (writeString [0xA0] ''cache'' @ [7]) 1 = Ok (''cache'', 7) \<and>
   readByteArray (writeByteArray [0xA0] [1, 2] @ [7]) 1 = Ok ([1, 2], 4)"
proof -
  have "fits32 ''cache''" and "fits32 [1, 2 :: byte]" by simp_all
  from codec_round_trip [OF this, of "[0xA0]" 0 "[7]"]
  have "readString (writeString [0xA0] ''cache'' @ [7]) 1 = Ok (''cache'', length (writeString [0xA0] ''cache''))"
    and "readByteArray (writeByteArray [0xA0] [1, 2] @ [7]) 1 =
      Ok ([1, 2], length (writeByteArray [0xA0] [1, 2]))" by simp_all
  moreover have "length (writeString [0xA0] ''cache'') = 7" by code_simp
  moreover have "length (writeByteArray [0xA0] [1, 2]) = 4" by code_simp
  ultimately show ?thesis by simp
qed

text \<open>
  The variable-length encodings are minimal: a value takes at most n + 1 bytes exactly when it
  is below 2^(7 (n + 1)). So a vInt takes one to five bytes and a vLong one to ten.
\<close>

theorem varint_minimal_length:
  "(length (writeVInt [] i) \<le> Suc n \<longleftrightarrow> unat i < 2 ^ (7 * Suc n)) \<and>
   (length (writeVLong [] l) \<le> Suc n \<longleftrightarrow> unat l < 2 ^ (7 * Suc n)) \<and>
   length (writeVInt [] i) \<in> {1..5} \<and> length (writeVLong [] l) \<in> {1..10}"
proof -
  have "length (writeVInt [] i) \<le> Suc 4" "length (writeVLong [] l) \<le> Suc 9"
    using unat_less_exp [of i] unat_less_exp [of l]
    unfolding writeVInt_def writeVLong_def length_writeVar_le_iff by simp_all
  moreover have "length (writeVar [] v) \<noteq> 0" for v :: "'a::len word" by simp
  ultimately show ?thesis
    by (auto simp: writeVInt_def writeVLong_def length_writeVar_le_iff simp del: length_0_conv
        intro: Suc_leI)
qed

text \<open>
  C38: The readers accept variable-length integers of any length. A vInt whose first five bytes all
  have the continuation bit set and that is followed by one more byte makes readVInt shift a 32-bit
  value by 35, which C++ leaves undefined; these are the only inputs that do. The same holds of
  readVLong with ten bytes and a shift by 70.
\<close>

theorem read_varint_undefined_iff:
  "(readVInt buf off = UB \<longleftrightarrow>
      off + 5 < length buf \<and> (\<forall>j < 5. buf ! (off + j) AND 0x80 \<noteq> 0)) \<and>
   (readVLong buf off = UB \<longleftrightarrow>
      off + 10 < length buf \<and> (\<forall>j < 10. buf ! (off + j) AND 0x80 \<noteq> 0))"
  using readVar_UB_iff [where 'a = 32 and N = 5] readVar_UB_iff [where 'a = 64 and N = 10]
  by (simp add: readVInt_def readVLong_def)

theorem read_varint_undefined_iff_witness:
  "readVInt [0xFF, 0xFF, 0xFF, 0xFF, 0xFF, 0x01] 0 = UB"
proof -
  have "\<forall>j < (5 :: nat). [0xFF, 0xFF, 0xFF, 0xFF, 0xFF, 0x01 :: byte] ! (0 + j) AND 0x80 \<noteq> 0"
    by code_simp
  with read_varint_undefined_iff [of "[0xFF, 0xFF, 0xFF, 0xFF, 0xFF, 0x01]" 0] show ?thesis by simp
qed

end
