(* ===== verification/HeaderCodec.thy ===== *)
theory HeaderCodec
  imports Codec
begin

text \<open>
  include/hotrod/HeaderCodec.h and src/codec/HeaderCodec.cpp: the request header encoder and the
  response header decoder of protocol 4.0. The std::map of other parameters is the list of its
  entries in iteration order. The server's side of the format is the reference parser
  \<open>parseRequestHeader\<close> and the reference encoder \<open>encodeResponseHeader\<close>, against which the
  two functions of the code are proved.
\<close>

record RequestHeader =
  rq_magic :: byte
  rq_messageId :: VLong
  rq_version :: byte
  rq_opcode :: byte
  rq_cacheName :: string
  rq_flags :: VInt
  rq_clientIntelligence :: ClientIntelligence
  rq_topologyId :: VInt
  rq_keyMediaType :: byte
  rq_valueMediaType :: byte
  rq_otherParams :: "(string \<times> byteArray) list"

record ResponseHeader =
  rs_magic :: byte
  rs_messageId :: VLong
  rs_opcode :: byte
  rs_status :: byte
  rs_topologyChangeMarker :: byte

definition defaultRequestHeader :: RequestHeader where
  "defaultRequestHeader = \<lparr>rq_magic = REQUEST_MAGIC, rq_messageId = 0, rq_version = VERSION_40,
     rq_opcode = 0, rq_cacheName = [], rq_flags = 0, rq_clientIntelligence = BASIC,
     rq_topologyId = 0, rq_keyMediaType = 0, rq_valueMediaType = 0, rq_otherParams = []\<rparr>"

fun writeOtherParams :: "byteArray \<Rightarrow> (string \<times> byteArray) list \<Rightarrow> byteArray" where
  "writeOtherParams buffer [] = buffer"
| "writeOtherParams buffer ((key, value) # params) =
     writeOtherParams (writeByteArray (writeString buffer key) value) params"

definition writeRequestHeader :: "byteArray \<Rightarrow> RequestHeader \<Rightarrow> byteArray" where
  "writeRequestHeader buffer h =
     (let buffer = buffer @ [rq_magic h];
          buffer = writeVLong buffer (rq_messageId h);
          buffer = buffer @ [rq_version h];
          buffer = buffer @ [rq_opcode h];
          buffer = writeString buffer (rq_cacheName h);
          buffer = writeVInt buffer (rq_flags h);
          buffer = buffer @ [intelligence_byte (rq_clientIntelligence h)];
          buffer = writeVInt buffer (rq_topologyId h);
          buffer = (if rq_version h \<ge> 0x28 then buffer @ [rq_keyMediaType h] else buffer);
          buffer = (if rq_version h \<ge> 0x28 then buffer @ [rq_valueMediaType h] else buffer)
      in if rq_version h \<ge> 40
         then writeOtherParams (writeVInt buffer (word_of_nat (length (rq_otherParams h))))
                (rq_otherParams h)
         else buffer)"

definition readResponseHeader :: "byteArray \<Rightarrow> nat \<Rightarrow> (exn, ResponseHeader \<times> nat) outcome" where
  "readResponseHeader buffer offset =
     (if offset \<ge> length buffer
        then Throw (RuntimeError ''readResponseHeader: buffer too short for magic byte'')
      else let magic = buffer ! offset; offset = Suc offset in
      if magic \<noteq> RESPONSE_MAGIC
        then Throw (RuntimeError (''readResponseHeader: invalid magic byte (expected 0xA1, got 0x'' @
               to_string (unat magic) @ '')''))
      else bindO (readVLong buffer offset) (\<lambda>(messageId, offset).
        if offset \<ge> length buffer
          then Throw (RuntimeError ''readResponseHeader: buffer too short for opcode'')
        else let opcode = buffer ! offset; offset = Suc offset in
        if offset \<ge> length buffer
          then Throw (RuntimeError ''readResponseHeader: buffer too short for status'')
        else let status = buffer ! offset; offset = Suc offset in
        if offset \<ge> length buffer
          then Throw (RuntimeError ''readResponseHeader: buffer too short for topology marker'')
        else let marker = buffer ! offset; offset = Suc offset in
        Ok (\<lparr>rs_magic = magic, rs_messageId = messageId, rs_opcode = opcode, rs_status = status,
              rs_topologyChangeMarker = marker\<rparr>, offset)))"

section \<open>The server's side of the format\<close>

definition readByte :: "byteArray \<Rightarrow> nat \<Rightarrow> (exn, byte \<times> nat) outcome" where
  "readByte buf off = (if off < length buf then Ok (buf ! off, Suc off)
     else Throw (RuntimeError ''end of input''))"

fun intelligence_of_byte :: "byte \<Rightarrow> (exn, ClientIntelligence) outcome" where
  "intelligence_of_byte b =
     (if b = 0x01 then Ok BASIC else if b = 0x02 then Ok TOPOLOGY_AWARE
      else if b = 0x03 then Ok HASH_DISTRIBUTION_AWARE
      else Throw (RuntimeError ''unknown client intelligence''))"

definition readParam :: "byteArray \<Rightarrow> nat \<Rightarrow> (exn, (string \<times> byteArray) \<times> nat) outcome" where
  "readParam buf off = bindO (readString buf off) (\<lambda>(k, off).
     bindO (readByteArray buf off) (\<lambda>(v, off). Ok ((k, v), off)))"

definition readTail40 ::
  "byteArray \<Rightarrow> nat \<Rightarrow> (exn, (byte \<times> byte \<times> (string \<times> byteArray) list) \<times> nat) outcome" where
  "readTail40 buf off =
     bindO (readByte buf off) (\<lambda>(kt, off).
     bindO (readByte buf off) (\<lambda>(vt, off).
     bindO (readVInt buf off) (\<lambda>(count, off).
     bindO (readN readParam (unat count) buf off) (\<lambda>(ps, off). Ok ((kt, vt, ps), off)))))"

definition parseHeaderWith ::
  "(byte \<Rightarrow> byteArray \<Rightarrow> nat \<Rightarrow> (exn, (byte \<times> byte \<times> (string \<times> byteArray) list) \<times> nat) outcome) \<Rightarrow>
    byteArray \<Rightarrow> nat \<Rightarrow> (exn, RequestHeader \<times> nat) outcome" where
  "parseHeaderWith tail buf off =
     bindO (readByte buf off) (\<lambda>(magic, off).
     bindO (readVLong buf off) (\<lambda>(mid, off).
     bindO (readByte buf off) (\<lambda>(ver, off).
     bindO (readByte buf off) (\<lambda>(opc, off).
     bindO (readString buf off) (\<lambda>(name, off).
     bindO (readVInt buf off) (\<lambda>(fl, off).
     bindO (readByte buf off) (\<lambda>(ib, off).
     bindO (intelligence_of_byte ib) (\<lambda>ci.
     bindO (readVInt buf off) (\<lambda>(tid, off).
     bindO (tail ver buf off) (\<lambda>((kt, vt, ps), off).
       Ok (\<lparr>rq_magic = magic, rq_messageId = mid, rq_version = ver, rq_opcode = opc,
            rq_cacheName = name, rq_flags = fl, rq_clientIntelligence = ci, rq_topologyId = tid,
            rq_keyMediaType = kt, rq_valueMediaType = vt, rq_otherParams = ps\<rparr>, off)))))))))))"

definition parseRequestHeader :: "byteArray \<Rightarrow> nat \<Rightarrow> (exn, RequestHeader \<times> nat) outcome" where
  "parseRequestHeader = parseHeaderWith (\<lambda>ver buf off. if ver \<ge> 0x28 then readTail40 buf off else Ok ((0, 0, []), off))"

text \<open>The header as the protocol documents it: media types from 2.8 on (version byte 28), parameters from 4.0 on (40).\<close>

definition readDocumentedTail ::
  "byte \<Rightarrow> byteArray \<Rightarrow> nat \<Rightarrow> (exn, (byte \<times> byte \<times> (string \<times> byteArray) list) \<times> nat) outcome" where
  "readDocumentedTail ver buf off =
     (if ver \<ge> 40 then readTail40 buf off
      else if ver \<ge> 28 then
        bindO (readByte buf off) (\<lambda>(kt, off). bindO (readByte buf off) (\<lambda>(vt, off). Ok ((kt, vt, []), off)))
      else Ok ((0, 0, []), off))"

definition parseDocumentedHeader :: "byteArray \<Rightarrow> nat \<Rightarrow> (exn, RequestHeader \<times> nat) outcome" where
  "parseDocumentedHeader = parseHeaderWith readDocumentedTail"

definition encodeResponseHeader :: "VLong \<Rightarrow> byte \<Rightarrow> byte \<Rightarrow> byte \<Rightarrow> byteArray" where
  "encodeResponseHeader mid opc st marker =
     RESPONSE_MAGIC # writeVLong [] mid @ [opc, st, marker]"

text \<open>
  Headers the format can carry: names, keys and values below 2^32 bytes, below 2^32 parameters,
  and no media types or parameters in versions that have no room for them.
\<close>

definition sendable_header :: "RequestHeader \<Rightarrow> bool" where
  "sendable_header h \<longleftrightarrow> fits32 (rq_cacheName h) \<and> fits32 (rq_otherParams h) \<and>
     (\<forall>(k, v) \<in> set (rq_otherParams h). fits32 k \<and> fits32 v) \<and>
     (rq_version h < 0x28 \<longrightarrow>
        rq_keyMediaType h = 0 \<and> rq_valueMediaType h = 0 \<and> rq_otherParams h = [])"

definition documented_header :: "RequestHeader \<Rightarrow> bool" where
  "documented_header h \<longleftrightarrow> fits32 (rq_cacheName h) \<and> fits32 (rq_otherParams h) \<and>
     (\<forall>(k, v) \<in> set (rq_otherParams h). fits32 k \<and> fits32 v) \<and>
     (rq_version h < 28 \<longrightarrow> rq_keyMediaType h = 0 \<and> rq_valueMediaType h = 0) \<and>
     (rq_version h < 40 \<longrightarrow> rq_otherParams h = [])"

definition encodeParam :: "string \<times> byteArray \<Rightarrow> byteArray" where
  "encodeParam p = writeString [] (fst p) @ writeByteArray [] (snd p)"

abbreviation param_ok :: "string \<times> byteArray \<Rightarrow> bool" where
  "param_ok p \<equiv> fits32 (fst p) \<and> fits32 (snd p)"

definition encodeTail40 :: "RequestHeader \<Rightarrow> byteArray" where
  "encodeTail40 h = [rq_keyMediaType h] @ [rq_valueMediaType h] @
     writeVInt [] (word_of_nat (length (rq_otherParams h))) @ concat (map encodeParam (rq_otherParams h))"

section \<open>Reading back headers\<close>

interpretation wbyte: wire_primitive readByte "\<lambda>b. [b]" "\<lambda>_. True"
  by unfold_locales (auto simp: readByte_def nth_append split: if_splits)

lemma readParam_eq_Ok:
  "readParam buf off = Ok (p, off') \<longleftrightarrow>
    (\<exists>o1. readString buf off = Ok (fst p, o1) \<and> readByteArray buf o1 = Ok (snd p, off'))"
  by (cases p) (auto simp: readParam_def)

interpretation wparam: wire_primitive readParam encodeParam param_ok
proof unfold_locales
  fix buf off v off' zs
  assume a: "readParam buf off = Ok (v, off')"
  then obtain o1 where s: "readString buf off = Ok (fst v, o1)"
    and b: "readByteArray buf o1 = Ok (snd v, off')" by (auto simp: readParam_eq_Ok)
  from lpstring.dec_bounds [OF s] lpbytes.dec_bounds [OF b]
  show "off < off' \<and> off' \<le> length buf" by simp
  from lpstring.dec_extend [OF s] lpbytes.dec_extend [OF b]
  show "readParam (buf @ zs) off = Ok (v, off')" by (auto simp: readParam_eq_Ok)
next
  fix v pre rest
  assume ok: "param_ok v"
  have "at_input (pre @ encodeParam v @ rest) (length pre)
      (writeString [] (fst v) @ writeByteArray [] (snd v) @ rest)"
    by (simp add: at_input_def encodeParam_def)
  then have "reads (pre @ encodeParam v @ rest) (readParam (pre @ encodeParam v @ rest) (length pre))
      (fst v, snd v) rest"
    unfolding readParam_def using ok
    by (auto intro!: reads_bind reads_Ok intro: wire_reads)
  then show "readParam (pre @ encodeParam v @ rest) (length pre) =
      Ok (v, length pre + length (encodeParam v))"
    using reads_offset by fastforce
qed

lemma writeOtherParams_eq: "writeOtherParams buf ps = buf @ concat (map encodeParam ps)"
proof (induction buf ps rule: writeOtherParams.induct)
  case (2 buf k v ps)
  have "writeByteArray (writeString buf k) v = buf @ encodeParam (k, v)"
    by (subst writeByteArray_append, subst writeString_append) (simp add: encodeParam_def)
  with 2 show ?case by simp
qed simp

lemma writeRequestHeader_eq:
  "writeRequestHeader buf h = buf @ [rq_magic h] @ writeVLong [] (rq_messageId h) @ [rq_version h] @
     [rq_opcode h] @ writeString [] (rq_cacheName h) @ writeVInt [] (rq_flags h) @
     [intelligence_byte (rq_clientIntelligence h)] @ writeVInt [] (rq_topologyId h) @
     (if rq_version h \<ge> 0x28 then encodeTail40 h else [])"
  unfolding writeRequestHeader_def Let_def encodeTail40_def writeOtherParams_eq
  by (simp add: writeVLong_append [of "_ @ _"] writeString_append [of "_ @ _"]
      writeVInt_append [of "_ @ _"])


lemmas header_reads = wire_reads wbyte.read_at

lemma readTail40_at:
  assumes "at_input buf off (encodeTail40 h @ rest)" and "sendable_header h"
  shows "reads buf (readTail40 buf off) (rq_keyMediaType h, rq_valueMediaType h, rq_otherParams h) rest"
proof -
  let ?ps = "rq_otherParams h"
  from assms(2) have n: "unat (word_of_nat (length ?ps) :: VInt) = length ?ps"
    and ok: "\<forall>p \<in> set ?ps. param_ok p"
    by (auto simp: sendable_header_def unat_length_word)
  from assms(1) have a: "at_input buf off ([rq_keyMediaType h] @ [rq_valueMediaType h] @
      writeVInt [] (word_of_nat (length ?ps)) @ concat (map encodeParam ?ps) @ rest)"
    by (simp add: encodeTail40_def)
  show ?thesis unfolding readTail40_def
    by (rule reads_bind, rule header_reads, rule a, rule TrueI)
      (intro reads_bind reads_Ok | rule header_reads, assumption, rule TrueI
        | simp only: n, rule wparam.readN_at, assumption, rule ok)+
qed

lemma intelligence_round_trip: "intelligence_of_byte (intelligence_byte ci) = Ok ci"
  by (cases ci) simp_all

lemma readVersionTail_at:
  assumes "at_input buf off ((if rq_version h \<ge> 0x28 then encodeTail40 h else []) @ rest)"
    and "sendable_header h"
  shows "reads buf (if rq_version h \<ge> 0x28 then readTail40 buf off else Ok ((0, 0, []), off))
      (rq_keyMediaType h, rq_valueMediaType h, rq_otherParams h) rest"
proof (cases "rq_version h \<ge> 0x28")
  case True
  with assms readTail40_at show ?thesis by simp
next
  case False
  with assms show ?thesis by (auto simp: sendable_header_def intro: reads_Ok)
qed

definition headerFront :: "RequestHeader \<Rightarrow> byteArray" where
  "headerFront h = [rq_magic h] @ writeVLong [] (rq_messageId h) @ [rq_version h] @ [rq_opcode h] @
     writeString [] (rq_cacheName h) @ writeVInt [] (rq_flags h) @ [intelligence_byte (rq_clientIntelligence h)] @
     writeVInt [] (rq_topologyId h)"

lemma writeRequestHeader_front:
  "writeRequestHeader [] h = headerFront h @ (if rq_version h \<ge> 0x28 then encodeTail40 h else [])"
  by (simp add: writeRequestHeader_eq headerFront_def)

lemma parseHeaderWith_at:
  assumes a: "at_input buf off (headerFront h @ ts)" and nm: "fits32 (rq_cacheName h)"
    and tail: "\<And>off. at_input buf off ts \<Longrightarrow> reads buf (tail (rq_version h) buf off) (kt, vt, ps) rest"
  shows "reads buf (parseHeaderWith tail buf off) (h\<lparr>rq_keyMediaType := kt, rq_valueMediaType := vt, rq_otherParams := ps\<rparr>) rest"
  unfolding parseHeaderWith_def
  by (rule reads_bind, rule header_reads, rule a [unfolded headerFront_def append_assoc], rule TrueI)
    ((rule reads_bind, rule header_reads tail, assumption, (rule TrueI nm)?)
      | (rule reads_bind_plain, rule intelligence_round_trip)
      | (simp only: prod.case, rule reads_Ok_eq, assumption, simp))+

lemma parseRequestHeader_at:
  assumes a: "at_input buf off (writeRequestHeader [] h @ rest)" and ok: "sendable_header h"
  shows "reads buf (parseRequestHeader buf off) h rest"
proof -
  from ok have nm: "fits32 (rq_cacheName h)" by (simp add: sendable_header_def)
  have "reads buf (parseRequestHeader buf off)
      (h\<lparr>rq_keyMediaType := rq_keyMediaType h, rq_valueMediaType := rq_valueMediaType h, rq_otherParams := rq_otherParams h\<rparr>) rest"
    unfolding parseRequestHeader_def
    by (rule parseHeaderWith_at [OF a [unfolded writeRequestHeader_front append_assoc] nm]) (rule readVersionTail_at [OF _ ok])
  then show ?thesis by simp
qed

lemma readVLong_truncated:
  assumes "k < length (writeVLong [] v)"
  shows "\<exists>m. readVLong (pre @ take k (writeVLong [] v)) (length pre) = Throw (RuntimeError m)"
proof -
  have "unat v < 2 ^ (7 * Suc 9)" using unat_less_exp [of v] by simp
  then have "length (writeVLong [] v) \<le> 10"
    unfolding writeVLong_def length_writeVar_le_iff [symmetric] by simp
  with assms vlong.dec_truncated [OF TrueI assms, of pre] show ?thesis
    unfolding readVLong_def by (intro readVar_short [where N = 10]) auto
qed

section \<open>Properties\<close>

text \<open>
  C12: A server that parses request headers as the protocol documents them (media types from version 2.8 on, version byte 28;
  parameters from 4.0 on, version byte 40) reads back, field by field, every header the client writes in a version before 2.8 or
  from 4.0 on, and finds the request body right behind it. In the versions from 28 to 39 it does not: writeRequestHeader
  compares the version with 0x28, which is 40, and leaves the media types out; such a server takes the first two bytes of the
  request body for them.
\<close>

theorem request_header_round_trip:
  assumes d: "documented_header h"
  shows "if 28 \<le> rq_version h \<and> rq_version h < 40
    then parseDocumentedHeader (writeRequestHeader pre h @ [k, v] @ body) (length pre) =
      Ok (h\<lparr>rq_keyMediaType := k, rq_valueMediaType := v\<rparr>, length (writeRequestHeader pre h) + 2)
    else parseDocumentedHeader (writeRequestHeader pre h @ body) (length pre) = Ok (h, length (writeRequestHeader pre h))"
proof -
  have w: "writeRequestHeader pre h = pre @ writeRequestHeader [] h" by (simp add: writeRequestHeader_eq)
  from d have nm: "fits32 (rq_cacheName h)" by (simp add: documented_header_def)
  note at = parseHeaderWith_at [OF _ nm, of _ _ _ readDocumentedTail, folded parseDocumentedHeader_def]
  show ?thesis
  proof (cases "28 \<le> rq_version h \<and> rq_version h < 40")
    case True
    let ?buf = "pre @ writeRequestHeader [] h @ [k, v] @ body"
    have "writeRequestHeader [] h @ [k, v] @ body = headerFront h @ [k] @ [v] @ body"
      using True [THEN conjunct2, folded not_le] by (simp add: writeRequestHeader_front)
    with at_input_start have a: "at_input ?buf (length pre) (headerFront h @ [k] @ [v] @ body)" by metis
    have t: "reads ?buf (readDocumentedTail (rq_version h) ?buf off) (k, v, []) body" if "at_input ?buf off ([k] @ [v] @ body)" for off
      unfolding readDocumentedTail_def if_not_P [OF True [THEN conjunct2, unfolded not_le [symmetric]]] if_P [OF True [THEN conjunct1]]
      by (rule reads_bind, rule wbyte.read_at, rule that, rule TrueI,
        rule reads_bind, rule wbyte.read_at, assumption, rule TrueI, rule reads_Ok, assumption)
    have "reads ?buf (parseDocumentedHeader ?buf (length pre)) (h\<lparr>rq_keyMediaType := k, rq_valueMediaType := v, rq_otherParams := []\<rparr>) body"
      by (rule at [OF a]) (rule t)
    moreover have "rq_otherParams h = []" using d True by (simp add: documented_header_def)
    ultimately have "reads ?buf (parseDocumentedHeader ?buf (length pre)) (h\<lparr>rq_keyMediaType := k, rq_valueMediaType := v\<rparr>) body"
      by (cases h) simp
    with reads_offset [of pre "writeRequestHeader [] h @ [k, v]" body "parseDocumentedHeader ?buf (length pre)"]
    have "parseDocumentedHeader ?buf (length pre) =
        Ok (h\<lparr>rq_keyMediaType := k, rq_valueMediaType := v\<rparr>, length pre + length (writeRequestHeader [] h @ [k, v]))"
      by simp
    moreover have "writeRequestHeader pre h @ [k, v] @ body = ?buf" "length (writeRequestHeader pre h) = length pre + length (writeRequestHeader [] h)"
      using w by simp_all
    ultimately show ?thesis unfolding if_P [OF True] by simp
  next
    case False
    let ?buf = "pre @ writeRequestHeader [] h @ body"
    have a: "at_input ?buf (length pre) (headerFront h @ (if rq_version h \<ge> 0x28 then encodeTail40 h else []) @ body)"
      using at_input_start [of pre "writeRequestHeader [] h @ body"] by (simp add: writeRequestHeader_front)
    have t: "reads ?buf (readDocumentedTail (rq_version h) ?buf off) (rq_keyMediaType h, rq_valueMediaType h, rq_otherParams h) body"
      if "at_input ?buf off ((if rq_version h \<ge> 0x28 then encodeTail40 h else []) @ body)" for off
    proof (cases "rq_version h \<ge> 40")
      case True
      moreover from True d have "sendable_header h" by (simp add: documented_header_def sendable_header_def not_less)
      ultimately show ?thesis using that readTail40_at by (simp add: readDocumentedTail_def)
    next
      case f: False
      with False d that show ?thesis by (auto simp: readDocumentedTail_def documented_header_def not_le not_less intro: reads_Ok)
    qed
    have "reads ?buf (parseDocumentedHeader ?buf (length pre))
        (h\<lparr>rq_keyMediaType := rq_keyMediaType h, rq_valueMediaType := rq_valueMediaType h, rq_otherParams := rq_otherParams h\<rparr>) body"
      by (rule at [OF a]) (rule t)
    then have "reads ?buf (parseDocumentedHeader ?buf (length pre)) h body" by simp
    with reads_offset [of pre "writeRequestHeader [] h" body "parseDocumentedHeader ?buf (length pre)"]
    have "parseDocumentedHeader ?buf (length pre) = Ok (h, length pre + length (writeRequestHeader [] h))" by simp
    moreover have "writeRequestHeader pre h @ body = ?buf" "length (writeRequestHeader pre h) = length pre + length (writeRequestHeader [] h)"
      using w by simp_all
    ultimately show ?thesis unfolding if_not_P [OF False] by simp
  qed
qed

theorem request_header_round_trip_witness:
  "parseDocumentedHeader (writeRequestHeader [] (defaultRequestHeader\<lparr>rq_messageId := 300,
       rq_cacheName := ''c'', rq_otherParams := [(''k'', [1, 2])]\<rparr>) @ [9]) 0 =
     Ok (defaultRequestHeader\<lparr>rq_messageId := 300, rq_cacheName := ''c'',
       rq_otherParams := [(''k'', [1, 2])]\<rparr>, 18) \<and>
   parseDocumentedHeader (writeRequestHeader [] (defaultRequestHeader\<lparr>rq_version := 30, rq_keyMediaType := 1\<rparr>) @ [7, 8, 9]) 0 =
     Ok (defaultRequestHeader\<lparr>rq_version := 30, rq_keyMediaType := 7, rq_valueMediaType := 8\<rparr>, 10)"
proof
  let ?h = "defaultRequestHeader\<lparr>rq_messageId := 300,
       rq_cacheName := ''c'', rq_otherParams := [(''k'', [1, 2])]\<rparr>"
  have "documented_header ?h" by (simp add: documented_header_def defaultRequestHeader_def VERSION_40_def)
  from request_header_round_trip [OF this, of "[]" 0 0 "[9]"]
  have "parseDocumentedHeader (writeRequestHeader [] ?h @ [9]) 0 = Ok (?h, length (writeRequestHeader [] ?h))"
    by (simp add: defaultRequestHeader_def VERSION_40_def)
  moreover have "length (writeRequestHeader [] ?h) = 18" by code_simp
  ultimately show "parseDocumentedHeader (writeRequestHeader [] ?h @ [9]) 0 = Ok (?h, 18)" by simp
  let ?g = "defaultRequestHeader\<lparr>rq_version := 30, rq_keyMediaType := 1\<rparr>"
  have "documented_header ?g" by (simp add: documented_header_def defaultRequestHeader_def)
  from request_header_round_trip [OF this, of "[]" 7 8 "[9]"]
  have "parseDocumentedHeader (writeRequestHeader [] ?g @ [7, 8, 9]) 0 =
      Ok (?g\<lparr>rq_keyMediaType := 7, rq_valueMediaType := 8\<rparr>, length (writeRequestHeader [] ?g) + 2)"
    by simp
  moreover have "length (writeRequestHeader [] ?g) = 8" by code_simp
  ultimately show "parseDocumentedHeader (writeRequestHeader [] ?g @ [7, 8, 9]) 0 =
      Ok (defaultRequestHeader\<lparr>rq_version := 30, rq_keyMediaType := 7, rq_valueMediaType := 8\<rparr>, 10)" by simp
qed

text \<open>
  readResponseHeader decodes every response header the server sends and stops right behind it,
  and it accepts no proper prefix of one: a truncated header is a std::runtime\_error.
\<close>

theorem response_header_decoded:
  "readResponseHeader (pre @ encodeResponseHeader mid opc st marker @ rest) (length pre) =
     Ok (\<lparr>rs_magic = RESPONSE_MAGIC, rs_messageId = mid, rs_opcode = opc, rs_status = st,
          rs_topologyChangeMarker = marker\<rparr>,
         length pre + length (encodeResponseHeader mid opc st marker)) \<and>
   (k < length (encodeResponseHeader mid opc st marker) \<longrightarrow>
     (\<exists>m. readResponseHeader (pre @ take k (encodeResponseHeader mid opc st marker)) (length pre) =
       Throw (RuntimeError m)))"
proof (intro conjI impI)
  let ?e = "writeVLong [] mid"
  have "readVLong ((pre @ [RESPONSE_MAGIC]) @ ?e @ [opc, st, marker] @ rest) (length (pre @ [RESPONSE_MAGIC])) =
      Ok (mid, length (pre @ [RESPONSE_MAGIC]) + length ?e)"
    by (rule vlong.dec_enc [OF TrueI])
  then show "readResponseHeader (pre @ encodeResponseHeader mid opc st marker @ rest) (length pre) =
     Ok (\<lparr>rs_magic = RESPONSE_MAGIC, rs_messageId = mid, rs_opcode = opc, rs_status = st,
          rs_topologyChangeMarker = marker\<rparr>,
         length pre + length (encodeResponseHeader mid opc st marker))"
    by (simp add: readResponseHeader_def encodeResponseHeader_def nth_append Let_def)
  assume k: "k < length (encodeResponseHeader mid opc st marker)"
  show "\<exists>m. readResponseHeader (pre @ take k (encodeResponseHeader mid opc st marker)) (length pre) =
       Throw (RuntimeError m)"
  proof (cases k)
    case 0
    then show ?thesis by (simp add: readResponseHeader_def)
  next
    case (Suc j)
    let ?buf = "(pre @ [RESPONSE_MAGIC]) @ take j (?e @ [opc, st, marker])"
    have buf: "pre @ take k (encodeResponseHeader mid opc st marker) = ?buf"
      by (simp add: Suc encodeResponseHeader_def)
    show ?thesis
    proof (cases "j < length ?e")
      case True
      with readVLong_truncated [OF True, of "pre @ [RESPONSE_MAGIC]"] show ?thesis
        unfolding buf by (auto simp: readResponseHeader_def nth_append)
    next
      case False
      then have "readVLong ?buf (length (pre @ [RESPONSE_MAGIC])) =
          Ok (mid, length (pre @ [RESPONSE_MAGIC]) + length ?e)"
        by (simp only: take_append take_all not_less) (rule vlong.dec_enc [OF TrueI])
      with k Suc False show ?thesis
        unfolding buf by (auto simp: readResponseHeader_def encodeResponseHeader_def nth_append Let_def)
    qed
  qed
qed

theorem response_header_decoded_witness:
  "\<exists>m. readResponseHeader [0xA1, 0xAC, 0x02, 0x04] 0 = Throw (RuntimeError m)"
proof -
  have e: "encodeResponseHeader 300 0x04 0 0 = [0xA1, 0xAC, 0x02, 0x04, 0, 0]" by code_simp
  have "4 < length (encodeResponseHeader 300 0x04 0 0)" by (simp add: e)
  then have "\<exists>m. readResponseHeader ([] @ take 4 (encodeResponseHeader 300 0x04 0 0)) (length ([] :: byteArray)) =
      Throw (RuntimeError m)"
    using response_header_decoded [of "[]" 300 "0x04" 0 0 "[]" 4] by blast
  then show ?thesis by (simp add: e)
qed

end
