(* ===== verification/AuthCodec.thy ===== *)
theory AuthCodec
  imports HeaderCodec
begin

text \<open>
  include/hotrod/AuthCodec.h: the bodies of the SASL messages. The bodies the server writes are the
  reference encoders \<open>mechListBody\<close> and \<open>authResponseBody\<close>; the server's parser of the
  request body is \<open>parseAuthRequest\<close>.
\<close>

record AuthResponseBody =
  completed :: bool
  challenge :: byteArray

definition encodeAuthMechListRequestBody :: byteArray where
  "encodeAuthMechListRequestBody = []"

definition decodeAuthMechListResponse :: "byteArray \<Rightarrow> (exn, string list) outcome" where
  "decodeAuthMechListResponse body =
     bindO (readVInt body 0) (\<lambda>(count, offset).
     bindO (readN readString (unat count) body offset) (\<lambda>(mechs, offset). Ok mechs))"

definition encodeAuthRequestBody :: "string \<Rightarrow> byteArray \<Rightarrow> byteArray" where
  "encodeAuthRequestBody mechanism saslResponse =
     writeByteArray (writeString [] mechanism) saslResponse"

text \<open>vector::at throws std::out\_of\_range on an empty body.\<close>

definition decodeAuthResponse :: "byteArray \<Rightarrow> (exn, AuthResponseBody) outcome" where
  "decodeAuthResponse body =
     (if body = [] then Throw OutOfRange
      else bindO (readByteArray body 1) (\<lambda>(ch, offset).
        Ok \<lparr>completed = (body ! 0 \<noteq> 0), challenge = ch\<rparr>))"

definition mechListBody :: "string list \<Rightarrow> byteArray" where
  "mechListBody ms = writeVInt [] (word_of_nat (length ms)) @ concat (map (writeString []) ms)"

definition authResponseBody :: "bool \<Rightarrow> byteArray \<Rightarrow> byteArray" where
  "authResponseBody b ch = (if b then 1 else 0) # writeByteArray [] ch"

definition parseAuthRequest :: "byteArray \<Rightarrow> (exn, string \<times> byteArray) outcome" where
  "parseAuthRequest body = bindO (readString body 0) (\<lambda>(m, off).
     bindO (readByteArray body off) (\<lambda>(t, off). Ok (m, t)))"

section \<open>Properties\<close>

text \<open>
  The authentication bodies round-trip: the mechanism list and the challenge the server encodes
  are decoded to the same mechanisms, completion flag and challenge, and the server parses the
  mechanism and token out of the request body the client encodes.
\<close>

theorem auth_bodies_round_trip:
  assumes "fits32 ms" and "\<forall>m \<in> set ms. fits32 m" and "fits32 ch" and "fits32 mech"
  shows "decodeAuthMechListResponse (mechListBody ms @ rest) = Ok ms \<and>
    decodeAuthResponse (authResponseBody b ch @ rest) = Ok \<lparr>completed = b, challenge = ch\<rparr> \<and>
    parseAuthRequest (encodeAuthRequestBody mech ch @ rest) = Ok (mech, ch)"
proof (intro conjI)
  have "at_input (mechListBody ms @ rest) 0
      (writeVInt [] (word_of_nat (length ms)) @ concat (map (writeString []) ms) @ rest)"
    by (simp add: at_input_def mechListBody_def)
  from vint.read_at [OF this TrueI] obtain o1
    where r: "readVInt (mechListBody ms @ rest) 0 = Ok (word_of_nat (length ms), o1)"
      and a: "at_input (mechListBody ms @ rest) o1 (concat (map (writeString []) ms) @ rest)"
    by (auto simp: reads_def)
  from r lpstring.readN_at [OF a assms(2)] assms(1)
  show "decodeAuthMechListResponse (mechListBody ms @ rest) = Ok ms"
    by (auto simp: decodeAuthMechListResponse_def reads_def unat_length_word)
next
  have "readByteArray ([if b then 1 else 0] @ writeByteArray [] ch @ rest) (length [if b then 1 else (0 :: byte)]) =
      Ok (ch, length [if b then 1 else (0 :: byte)] + length (writeByteArray [] ch))"
    by (rule lpbytes.dec_enc [OF assms(3)])
  then show "decodeAuthResponse (authResponseBody b ch @ rest) = Ok \<lparr>completed = b, challenge = ch\<rparr>"
    by (simp add: decodeAuthResponse_def authResponseBody_def)
next
  have "at_input (encodeAuthRequestBody mech ch @ rest) 0
      (writeString [] mech @ writeByteArray [] ch @ rest)"
    unfolding encodeAuthRequestBody_def at_input_def by (subst writeByteArray_append) simp
  from lpstring.read_at [OF this assms(4)] show
    "parseAuthRequest (encodeAuthRequestBody mech ch @ rest) = Ok (mech, ch)"
    using lpbytes.read_at [OF _ assms(3)] by (fastforce simp: parseAuthRequest_def reads_def)
qed

theorem auth_bodies_round_trip_witness:
  "decodeAuthMechListResponse (mechListBody [''SCRAM-SHA-256'', ''PLAIN''] @ [7]) =
     Ok [''SCRAM-SHA-256'', ''PLAIN''] \<and>
   parseAuthRequest (encodeAuthRequestBody ''PLAIN'' [1, 2] @ [7]) = Ok (''PLAIN'', [1, 2])"
proof -
  have "fits32 [''SCRAM-SHA-256'', ''PLAIN'']" and "\<forall>m \<in> set [''SCRAM-SHA-256'', ''PLAIN'']. fits32 m"
    and "fits32 [1, 2 :: byte]" and "fits32 ''PLAIN''" by simp_all
  from auth_bodies_round_trip [OF this, of "[7]"] show ?thesis by blast
qed

end
