(* ===== verification/Connection.thy ===== *)
theory Connection
  imports HeaderCodec
begin

text \<open>
  include/hotrod/Connection.h and src/transport/Connection.cpp: the blocking TCP connection and the
  typed reads the response parsers use.

  The operating system is an input of the model. \<open>incoming\<close> is what successive recv calls have to
  offer: segments of data, a failure, or an orderly close by the peer; a call for n bytes takes at
  most n of the segment at hand, and with nothing on offer it blocks. Every sequence of short reads
  POSIX allows is one such list. \<open>sendScript\<close> lists how many bytes successive send calls accept,
  or their failure; \<open>sent\<close> are the bytes handed to the system so far. Name resolution and the
  outcome of each connection attempt are arguments of connect.
\<close>

section \<open>State\<close>

datatype recv_event = RecvData byteArray | RecvError string | RecvClosed

datatype send_event = SendAccepts nat | SendError string

datatype attempt =
    NoSocket                  \<comment> \<open>socket() failed\<close>
  | Immediate                 \<comment> \<open>connect() succeeded at once\<close>
  | Refused                   \<comment> \<open>connect() failed with an error other than EINPROGRESS\<close>
  | InProgress int int        \<comment> \<open>EINPROGRESS, with the result of select() and SO\_ERROR\<close>

record Connection =
  cn_host :: string
  cn_port :: "16 word"
  cn_connected :: bool
  cn_socket :: bool           \<comment> \<open>socket\_ is not INVALID\_SOCK\<close>
  incoming :: "recv_event list"
  sendScript :: "send_event list"
  sent :: byteArray

type_synonym 'a conn = "(Connection, exn, 'a) comp"

record EntryMetadata =
  md_created :: "int64 option"
  md_lastUsed :: "int64 option"
  md_lifespan :: "VInt option"
  md_maxIdle :: "VInt option"
  md_version :: "int64 option"  \<comment> \<open>None: the field has not been written\<close>

record EntryWithMetadata =
  ew_metadata :: EntryMetadata
  ew_value :: byteArray

definition noMetadata :: EntryMetadata where
  "noMetadata = \<lparr>md_created = None, md_lastUsed = None, md_lifespan = None, md_maxIdle = None,
     md_version = None\<rparr>"

definition newConnection :: "string \<Rightarrow> 16 word \<Rightarrow> recv_event list \<Rightarrow> send_event list \<Rightarrow> Connection" where
  "newConnection host port inc script = \<lparr>cn_host = host, cn_port = port, cn_connected = False,
     cn_socket = False, incoming = inc, sendScript = script, sent = []\<rparr>"

section \<open>Connecting\<close>

definition attemptSucceeds :: "attempt \<Rightarrow> bool" where
  "attemptSucceeds a = (case a of
      NoSocket \<Rightarrow> False
    | Immediate \<Rightarrow> True
    | Refused \<Rightarrow> False
    | InProgress selectResult so_error \<Rightarrow> selectResult > 0 \<and> so_error = 0)"

fun tryAddresses :: "attempt list \<Rightarrow> Connection \<Rightarrow> Connection" where
  "tryAddresses [] c = c"
| "tryAddresses (a # as) c =
     (if a = NoSocket then tryAddresses as (c\<lparr>cn_socket := False\<rparr>)
      else if attemptSucceeds a then c\<lparr>cn_socket := True, cn_connected := True\<rparr>
      else tryAddresses as (c\<lparr>cn_socket := False\<rparr>))"

definition connect :: "string + attempt list \<Rightarrow> unit conn" where
  "connect resolved = (\<lambda>c.
     if cn_connected c then throw (RuntimeError ''Already connected'') c
     else case resolved of
       Inl gaiError \<Rightarrow> throw (RuntimeError (''getaddrinfo failed: '' @ gaiError)) c
     | Inr addresses \<Rightarrow>
         (let c = tryAddresses addresses c
          in if cn_connected c then ret () c
             else throw (RuntimeError (''Failed to connect to '' @ cn_host c @ '':'' @
                    to_string (unat (cn_port c)))) c))"

text \<open>After ::shutdown, recv hands out what has arrived and then returns 0 instead of blocking.\<close>

definition shutdown :: "Connection \<Rightarrow> Connection" where
  "shutdown c = (if \<not> cn_connected c \<or> \<not> cn_socket c then c else c\<lparr>incoming := incoming c @ [RecvClosed]\<rparr>)"

definition close :: "Connection \<Rightarrow> Connection" where
  "close c = (if \<not> cn_connected c then c else c\<lparr>cn_socket := False, cn_connected := False\<rparr>)"

definition destroyConnection :: "Connection \<Rightarrow> Connection" where
  "destroyConnection c = (if cn_connected c then close c else c)"

section \<open>Sending and receiving\<close>

fun sendLoop :: "send_event list \<Rightarrow> byteArray \<Rightarrow> byteArray \<Rightarrow>
    (exn, unit) outcome \<times> byteArray \<times> send_event list" where
  "sendLoop script done [] = (Ok (), done, script)"
| "sendLoop [] done rest = (Block, done, [])"
| "sendLoop (SendError m # script) done rest =
     (Throw (RuntimeError (''send failed: '' @ m)), done, script)"
| "sendLoop (SendAccepts n # script) done rest = sendLoop script (done @ take n rest) (drop n rest)"

definition send :: "byteArray \<Rightarrow> unit conn" where
  "send data = (\<lambda>c.
     if \<not> cn_connected c then throw (RuntimeError ''Not connected'') c
     else case sendLoop (sendScript c) [] data of
       (r, done, script) \<Rightarrow> (r, c\<lparr>sent := sent c @ done, sendScript := script\<rparr>))"

text \<open>
  The loop of receive: \<open>remaining\<close> bytes are missing, \<open>buffer\<close> holds those read. recv
  returns 0 when the peer has closed the connection, and goes on doing so.
\<close>

fun recvLoop :: "nat \<Rightarrow> byteArray \<Rightarrow> recv_event list \<Rightarrow> (exn, byteArray) outcome \<times> recv_event list" where
  "recvLoop remaining buffer [] = (if remaining = 0 then (Ok buffer, []) else (Block, []))"
| "recvLoop remaining buffer (ev # evs) =
     (if remaining = 0 then (Ok buffer, ev # evs)
      else case ev of
        RecvError m \<Rightarrow> (Throw (RuntimeError (''recv failed: '' @ m)), evs)
      | RecvClosed \<Rightarrow> (Throw (RuntimeError ''Connection closed by peer''), ev # evs)
      | RecvData seg \<Rightarrow>
          if length seg \<le> remaining
          then recvLoop (remaining - length seg) (buffer @ seg) evs
          else (Ok (buffer @ take remaining seg), RecvData (drop remaining seg) # evs))"

definition receive :: "nat \<Rightarrow> byteArray conn" where
  "receive len = (\<lambda>c.
     if \<not> cn_connected c then throw (RuntimeError ''Not connected'') c
     else case recvLoop len [] (incoming c) of (r, inc) \<Rightarrow> (r, c\<lparr>incoming := inc\<rparr>))"

section \<open>Typed reads\<close>

definition ub :: "'a conn" where
  "ub = (\<lambda>c. (UB, c))"

lemma bindM_cong [fundef_cong]:
  assumes "m s = m' s'" and "\<And>a t. m' s' = (Ok a, t) \<Longrightarrow> f a t = g a t"
  shows "bindM m f s = bindM m' g s'"
  using assms by (auto simp: bindM_def split: prod.splits outcome.splits)

function receiveVarLoop :: "byte \<Rightarrow> nat \<Rightarrow> 'a::len word \<Rightarrow> Connection \<Rightarrow> (exn, 'a word) outcome \<times> Connection" where
  "receiveVarLoop b shift value c =
     (if b AND 0x80 = 0 then ret value c
      else bindM (receive 1) (\<lambda>nextByte c.
        if shift \<ge> LENGTH('a) then ub c
        else receiveVarLoop (nextByte ! 0) (shift + 7)
               (value OR push_bit shift (ucast (nextByte ! 0 AND 0x7F))) c) c)"
  by pat_completeness auto

termination receiveVarLoop
  by (relation "measure (\<lambda>(b, shift, v :: 'a word, c). LENGTH('a) - shift)") auto

declare receiveVarLoop.simps [simp del]

definition receiveVInt :: "VInt conn" where
  "receiveVInt = bindM (receive 1) (\<lambda>firstByte.
     receiveVarLoop (firstByte ! 0) 7 (ucast (firstByte ! 0 AND 0x7F)))"

definition receiveVLong :: "VLong conn" where
  "receiveVLong = bindM (receive 1) (\<lambda>firstByte.
     receiveVarLoop (firstByte ! 0) 7 (ucast (firstByte ! 0 AND 0x7F)))"

definition receiveByteArray :: "byteArray conn" where
  "receiveByteArray = bindM receiveVInt (\<lambda>len.
     if len > 0 then receive (unat len) else ret [])"

definition receiveString :: "string conn" where
  "receiveString = bindM receiveByteArray (\<lambda>bytes. ret (string_of_bytes bytes))"

definition bigEndian64 :: "byteArray \<Rightarrow> int64" where
  "bigEndian64 bs = foldl (\<lambda>r b. push_bit 8 r OR ucast b) 0 bs"

definition receiveMetadata :: "EntryMetadata conn" where
  "receiveMetadata =
     bindM (receive 1) (\<lambda>flagByte.
     let flag = flagByte ! 0 in
     bindM (if flag AND 0x01 = 0
            then bindM (receive 8) (\<lambda>createdBytes.
                 bindM receiveVInt (\<lambda>lifespan.
                   ret (Some (bigEndian64 createdBytes), Some lifespan)))
            else ret (None, None)) (\<lambda>(created, lifespan).
     bindM (if flag AND 0x02 = 0
            then bindM (receive 8) (\<lambda>lastUsedBytes.
                 bindM receiveVInt (\<lambda>maxIdle.
                   ret (Some (bigEndian64 lastUsedBytes), Some maxIdle)))
            else ret (None, None)) (\<lambda>(lastUsed, maxIdle).
     bindM (receive 8) (\<lambda>versionBytes.
       ret \<lparr>md_created = created, md_lastUsed = lastUsed, md_lifespan = lifespan,
            md_maxIdle = maxIdle, md_version = Some (bigEndian64 versionBytes)\<rparr>))))"

section \<open>The byte stream behind the segments\<close>

text \<open>
  What a reader can get before it blocks or fails: the bytes of the leading data segments, and the
  event that ends them (none: the stream is still open).
\<close>

fun stream :: "recv_event list \<Rightarrow> byteArray" where
  "stream [] = []"
| "stream (RecvData seg # evs) = seg @ stream evs"
| "stream (ev # evs) = []"

fun ending :: "recv_event list \<Rightarrow> recv_event list" where
  "ending [] = []"
| "ending (RecvData seg # evs) = ending evs"
| "ending (ev # evs) = ev # evs"

fun endOutcome :: "recv_event list \<Rightarrow> (exn, 'a) outcome" where
  "endOutcome (RecvError m # evs) = Throw (RuntimeError (''recv failed: '' @ m))"
| "endOutcome (RecvClosed # evs) = Throw (RuntimeError ''Connection closed by peer'')"
| "endOutcome evs = Block"

definition avail :: "Connection \<Rightarrow> byteArray" where
  "avail c = stream (incoming c)"

text \<open>Two states of one connection between which only input has been consumed.\<close>

definition same_conn :: "Connection \<Rightarrow> Connection \<Rightarrow> bool" where
  "same_conn c c' \<longleftrightarrow> (\<exists>inc. c' = c\<lparr>incoming := inc\<rparr> \<and> ending inc = ending (incoming c))"

definition yields :: "Connection \<Rightarrow> 'a conn \<Rightarrow> 'a \<Rightarrow> byteArray \<Rightarrow> bool" where
  "yields c m v rest \<longleftrightarrow> (\<exists>c'. m c = (Ok v, c') \<and> same_conn c c' \<and> avail c' = rest)"

definition holds :: "Connection \<Rightarrow> byteArray \<Rightarrow> bool" where
  "holds c xs \<longleftrightarrow> cn_connected c \<and> avail c = xs"

text \<open>The server's encoding of an entry's metadata.\<close>

definition metadataFlag :: "EntryMetadata \<Rightarrow> byte" where
  "metadataFlag m = (if md_lifespan m = None then 0x01 else 0) OR (if md_maxIdle m = None then 0x02 else 0)"

fun encodeExpiration :: "int64 option \<Rightarrow> VInt option \<Rightarrow> byteArray" where
  "encodeExpiration (Some t) (Some d) = writeLong [] t @ writeVInt [] d"
| "encodeExpiration _ _ = []"

definition encodeMetadata :: "EntryMetadata \<Rightarrow> byteArray" where
  "encodeMetadata m = [metadataFlag m] @ encodeExpiration (md_created m) (md_lifespan m) @
     encodeExpiration (md_lastUsed m) (md_maxIdle m) @
     (case md_version m of Some v \<Rightarrow> writeLong [] v | None \<Rightarrow> [])"

definition valid_metadata :: "EntryMetadata \<Rightarrow> bool" where
  "valid_metadata m \<longleftrightarrow> (md_created m = None \<longleftrightarrow> md_lifespan m = None) \<and>
     (md_lastUsed m = None \<longleftrightarrow> md_maxIdle m = None) \<and> md_version m \<noteq> None"

section \<open>Receiving\<close>

lemma recvLoop_enough:
  "n \<le> length (stream evs) \<Longrightarrow> \<exists>evs'. recvLoop n buf evs = (Ok (buf @ take n (stream evs)), evs') \<and>
     stream evs' = drop n (stream evs) \<and> ending evs' = ending evs"
proof (induction n buf evs rule: recvLoop.induct)
  case (2 n buf ev evs)
  show ?case
  proof (cases "n = 0 \<or> (\<forall>seg. ev \<noteq> RecvData seg)")
    case True
    with "2.prems" show ?thesis by (cases ev) auto
  next
    case False
    then obtain seg where seg: "ev = RecvData seg" and n: "n \<noteq> 0" by auto
    show ?thesis
    proof (cases "length seg \<le> n")
      case True
      with "2.IH" [OF n seg True] "2.prems" seg n show ?thesis by auto
    next
      case False
      with seg n show ?thesis by auto
    qed
  qed
qed simp

lemma recvLoop_short:
  "length (stream evs) < n \<Longrightarrow> fst (recvLoop n buf evs) = endOutcome (ending evs)"
proof (induction n buf evs rule: recvLoop.induct)
  case (2 n buf ev evs)
  then show ?case by (cases ev) auto
qed simp

lemma holdsD: "holds c xs \<Longrightarrow> cn_connected c \<and> avail c = xs"
  by (simp add: holds_def)

lemma same_conn_trans: "same_conn c d \<Longrightarrow> same_conn d e \<Longrightarrow> same_conn c e"
  by (auto simp: same_conn_def)

lemma same_conn_refl [simp]: "same_conn c c"
  unfolding same_conn_def by (rule exI [of _ "incoming c"]) simp

lemma same_conn_connected: "same_conn c d \<Longrightarrow> cn_connected d = cn_connected c"
  by (auto simp: same_conn_def)

lemma receive_yields:
  assumes "holds c (xs @ rest)" and "length xs = n"
  shows "yields c (receive n) xs rest"
proof -
  from assms recvLoop_enough [of n "incoming c" "[]"] obtain evs' where
    "recvLoop n [] (incoming c) = (Ok xs, evs')" "stream evs' = rest" "ending evs' = ending (incoming c)"
    by (auto simp: holds_def avail_def)
  with assms(1) show ?thesis
    by (auto simp: yields_def receive_def holds_def same_conn_def avail_def)
qed

lemma receive_short:
  assumes "cn_connected c" and "length (avail c) < n"
  shows "fst (receive n c) = endOutcome (ending (incoming c))"
  using assms recvLoop_short [of "incoming c" n "[]"]
  by (auto simp: receive_def avail_def split: prod.splits)

lemma yields_ret: "holds c rest \<Longrightarrow> v = w \<Longrightarrow> yields c (ret v) w rest"
  by (simp add: yields_def ret_def holds_def)

lemma yields_bind:
  assumes "yields c m v rest" and "cn_connected c"
    and "\<And>d. same_conn c d \<Longrightarrow> holds d rest \<Longrightarrow> yields d (f v) w rest'"
  shows "yields c (bindM m f) w rest'"
proof -
  from assms(1) obtain d where d: "m c = (Ok v, d)" "same_conn c d" "avail d = rest"
    by (auto simp: yields_def)
  with assms(2) have "holds d rest" by (simp add: holds_def same_conn_connected)
  from assms(3) [OF d(2) this] obtain e where "f v d = (Ok w, e)" "same_conn d e" "avail e = rest'"
    by (auto simp: yields_def)
  with d show ?thesis by (auto simp: yields_def bindM_Ok intro: same_conn_trans)
qed

text \<open>The form in which reads are chained: the input at hand is the first value and what follows.\<close>

lemma holds_bind:
  assumes "holds c xs" and "holds c xs \<Longrightarrow> yields c m v rest"
    and "\<And>d. holds d rest \<Longrightarrow> yields d (f v) w rest'"
  shows "yields c (bindM m f) w rest'"
  using assms by (intro yields_bind [where v = v and rest = rest]) (auto simp: holds_def)

section \<open>The interface of a typed read\<close>

text \<open>
  A typed read consumes exactly the encoding of its value and leaves the bytes behind it, however
  the system cut the stream into segments.
\<close>

locale stream_primitive =
  fixes rd :: "'a conn"
    and enc :: "'a \<Rightarrow> byteArray"
    and valid :: "'a \<Rightarrow> bool"
  assumes rd_enc: "valid v \<Longrightarrow> holds c (enc v @ rest) \<Longrightarrow> yields c rd v rest"
begin

lemma rd_bind:
  assumes "holds c (enc v @ rest)" and "valid v"
    and "\<And>d. holds d rest \<Longrightarrow> yields d (f v) w rest'"
  shows "yields c (bindM rd f) w rest'"
  by (rule holds_bind [OF assms(1)]) (rule rd_enc [OF assms(2)], assumption, rule assms(3))

end

interpretation sbyte: stream_primitive "receive 1" "\<lambda>b. b" "\<lambda>b. length b = 1"
  by unfold_locales (rule receive_yields)

lemma receiveVarLoop_stop: "b AND 0x80 = 0 \<Longrightarrow> receiveVarLoop b sh v = ret v"
  by (rule ext) (simp add: receiveVarLoop.simps)

lemma receiveVarLoop_step:
  "b AND 0x80 \<noteq> 0 \<Longrightarrow> sh < LENGTH('a) \<Longrightarrow> receiveVarLoop b sh (v :: 'a::len word) =
     bindM (receive 1) (\<lambda>nb. receiveVarLoop (nb ! 0) (sh + 7) (v OR push_bit sh (ucast (nb ! 0 AND 0x7F))))"
  by (rule ext) (simp add: receiveVarLoop.simps [of b] cong: if_cong)

text \<open>The connection's loop is the codec's loop: what one decodes from a buffer, the other decodes from the stream.\<close>

lemma receiveVarLoop_readVarLoop:
  "readVarLoop nm buf off b sh (r :: 'a::len word) = Ok (v, off') \<Longrightarrow> off \<le> length buf \<Longrightarrow>
     holds c (drop off buf) \<Longrightarrow> yields c (receiveVarLoop b sh r) v (drop off' buf)"
proof (induction nm buf off b sh r arbitrary: c rule: readVarLoop.induct)
  case (1 nm buf off b sh r)
  show ?case
  proof (cases "b AND 0x80 = 0")
    case True
    with "1.prems" show ?thesis by (auto simp: readVarLoop_stop receiveVarLoop_stop intro: yields_ret)
  next
    case False
    with "1.prems"(1) have off: "off < length buf" and sh: "sh < LENGTH('a)"
      by (auto simp: readVarLoop.simps [of nm buf off] split: if_splits)
    with False "1.prems"(1) have rec: "readVarLoop nm buf (Suc off) (buf ! off) (sh + 7)
        (r OR push_bit sh (ucast (buf ! off AND 0x7F))) = Ok (v, off')"
      by (simp add: readVarLoop_step)
    from off "1.prems"(3) have h: "holds c ([buf ! off] @ drop (Suc off) buf)"
      by (simp add: Cons_nth_drop_Suc)
    show ?thesis unfolding receiveVarLoop_step [OF False sh]
      by (rule sbyte.rd_bind [OF h]) (use "1.IH" False off sh rec in auto)
  qed
qed

lemma receiveVar_readVar:
  fixes v :: "'a::len word"
  assumes "readVar nm buf off = Ok (v, off')" and "holds c (drop off buf)"
  shows "yields c (bindM (receive 1) (\<lambda>fb. receiveVarLoop (fb ! 0) 7 (ucast (fb ! 0 AND 0x7F)))) v (drop off' buf)"
proof -
  from assms(1) have off: "off < length buf" and l: "readVarLoop nm buf (Suc off) (buf ! off) 7
      (ucast (buf ! off AND 0x7F)) = Ok (v, off')" by (auto simp: readVar_def split: if_splits)
  from off assms(2) have h: "holds c ([buf ! off] @ drop (Suc off) buf)" by (simp add: Cons_nth_drop_Suc)
  show ?thesis
    by (rule sbyte.rd_bind [OF h]) (use off l in \<open>auto intro: receiveVarLoop_readVarLoop\<close>)
qed


lemma receiveVar_writeVar:
  fixes v :: "'a::len word"
  assumes "8 \<le> LENGTH('a)" and "holds c (writeVar [] v @ rest)"
  shows "yields c (bindM (receive 1) (\<lambda>fb. receiveVarLoop (fb ! 0) 7 (ucast (fb ! 0 AND 0x7F)))) v rest"
  using receiveVar_readVar [OF readVar_writeVar [OF assms(1), of "[]" "[]" v rest], of c] assms(2) by simp

interpretation svint: stream_primitive receiveVInt "writeVInt []" "\<lambda>_. True"
  by unfold_locales (unfold receiveVInt_def writeVInt_def, rule receiveVar_writeVar, simp_all)

interpretation svlong: stream_primitive receiveVLong "writeVLong []" "\<lambda>_. True"
  by unfold_locales (unfold receiveVLong_def writeVLong_def, rule receiveVar_writeVar, simp_all)

interpretation sbytes: stream_primitive receiveByteArray "writeByteArray []" fits32
proof unfold_locales
  fix v :: byteArray and c rest
  assume v: "fits32 v" and "holds c (writeByteArray [] v @ rest)"
  then have h: "holds c (writeVInt [] (word_of_nat (length v)) @ v @ rest)" by (simp add: writeByteArray_def)
  have "yields d (if (word_of_nat (length v) :: VInt) > 0
      then receive (unat (word_of_nat (length v) :: VInt)) else ret []) v rest" if "holds d (v @ rest)" for d
    using that v receive_yields [OF that refl]
    by (auto simp: unat_length_word word_of_length_eq_0 word_neq_0_conv [symmetric] intro!: yields_ret)
  then show "yields c receiveByteArray v rest"
    unfolding receiveByteArray_def by (rule svint.rd_bind [OF h TrueI])
qed

interpretation sstring: stream_primitive receiveString "writeString []" fits32
proof unfold_locales
  fix v :: string and c rest
  assume v: "fits32 v" and "holds c (writeString [] v @ rest)"
  then have h: "holds c (writeByteArray [] (bytes_of_string v) @ rest)"
    by (cases "v = []") (auto simp: writeByteArray_def writeString_def bytes_of_string_def)
  from v show "yields c receiveString v rest"
    unfolding receiveString_def by (intro sbytes.rd_bind [OF h] yields_ret) simp_all
qed

lemma bigEndian64_readLongLoop:
  "fst (readLongLoop n (pre @ bs) (length pre) r) = foldl (\<lambda>r b. push_bit 8 r OR ucast b) r (take n bs)"
  if "n \<le> length bs"
  using that
proof (induction n arbitrary: pre bs r)
  case (Suc n)
  then obtain b bs' where bs: "bs = b # bs'" by (cases bs) auto
  with Suc.IH [of bs' "pre @ [b]" "push_bit 8 r OR ucast b"] Suc.prems show ?case by simp
qed simp

lemma bigEndian64_writeLong [simp]: "bigEndian64 (writeLong [] v) = v"
proof -
  have "readLong ([] @ writeLong [] v @ []) (length ([] :: byteArray)) = Ok (v, 8)"
    by (subst readLong_writeLong) simp
  with bigEndian64_readLongLoop [of 8 "writeLong [] v" "[]" 0] show ?thesis
    by (simp add: readLong_def bigEndian64_def)
qed

lemma metadata_flag_bits:
  "metadataFlag m AND 0x01 = 0 \<longleftrightarrow> md_lifespan m \<noteq> None"
  "metadataFlag m AND 0x02 = 0 \<longleftrightarrow> md_maxIdle m \<noteq> None"
  by (auto simp: metadataFlag_def)

lemma receiveExpiration:
  assumes "holds c (encodeExpiration t d @ rest)" and "t = None \<longleftrightarrow> d = None"
  shows "yields c (if d \<noteq> None
      then bindM (receive 8) (\<lambda>bs. bindM receiveVInt (\<lambda>l. ret (Some (bigEndian64 bs), Some l)))
      else ret (None, None)) (t, d) rest"
proof (cases d)
  case None
  with assms show ?thesis by (auto intro: yields_ret)
next
  case (Some l)
  with assms(2) obtain x where t: "t = Some x" by auto
  with assms(1) Some have h: "holds c (writeLong [] x @ writeVInt [] l @ rest)" by simp
  show ?thesis
    by (simp add: Some t, rule holds_bind [OF h], erule receive_yields, simp,
        rule svint.rd_bind, assumption, rule TrueI, rule yields_ret, assumption, simp)
qed

interpretation smeta: stream_primitive receiveMetadata encodeMetadata valid_metadata
proof unfold_locales
  fix m c rest
  assume ok: "valid_metadata m" and h0: "holds c (encodeMetadata m @ rest)"
  from ok obtain ver where ver: "md_version m = Some ver" by (auto simp: valid_metadata_def)
  let ?x1 = "encodeExpiration (md_created m) (md_lifespan m)"
  let ?x2 = "encodeExpiration (md_lastUsed m) (md_maxIdle m)"
  from h0 ver have h: "holds c ([metadataFlag m] @ ?x1 @ ?x2 @ writeLong [] ver @ rest)"
    by (simp add: encodeMetadata_def)
  note e = receiveExpiration
  show "yields c receiveMetadata m rest"
    unfolding receiveMetadata_def
    by (rule sbyte.rd_bind [OF h], simp, unfold Let_def nth_Cons_0 metadata_flag_bits,
        rule holds_bind, assumption, rule e, assumption, use ok in \<open>simp add: valid_metadata_def\<close>,
        unfold prod.case,
        rule holds_bind, assumption, rule e, assumption, use ok in \<open>simp add: valid_metadata_def\<close>,
        unfold prod.case,
        rule holds_bind, assumption, erule receive_yields, simp, rule yields_ret, assumption, simp add: ver)
qed


lemmas stream_reads = svint.rd_bind svlong.rd_bind sbytes.rd_bind sstring.rd_bind smeta.rd_bind

section \<open>Sending and connecting\<close>

lemma sendLoop_prefix:
  "sendLoop script acc data = (r, acc', script') \<Longrightarrow>
    \<exists>rest. acc @ data = acc' @ rest \<and> (r = Ok () \<longleftrightarrow> rest = [])"
proof (induction script acc data rule: sendLoop.induct)
  case (4 n script acc x xs)
  then have "sendLoop script (acc @ take n (x # xs)) (drop n (x # xs)) = (r, acc', script')" by simp
  from "4.IH" [OF this] show ?case by (simp only: append_assoc append_take_drop_id)
qed auto

lemma tryAddresses_connected:
  "cn_connected (tryAddresses as c) \<longleftrightarrow> cn_connected c \<or> (\<exists>a \<in> set as. attemptSucceeds a)"
  by (induction as c rule: tryAddresses.induct) (auto simp: attemptSucceeds_def)

lemma tryAddresses_frame:
  "cn_host (tryAddresses as c) = cn_host c \<and> cn_port (tryAddresses as c) = cn_port c \<and>
   incoming (tryAddresses as c) = incoming c \<and> sent (tryAddresses as c) = sent c"
  by (induction as c rule: tryAddresses.induct) auto

lemma tryAddresses_socket:
  "\<not> cn_connected c \<Longrightarrow> cn_socket c = cn_connected c \<Longrightarrow>
    cn_socket (tryAddresses as c) = cn_connected (tryAddresses as c)"
  by (induction as c rule: tryAddresses.induct) auto

section \<open>Properties\<close>

text \<open>
  receive hides how the system cuts the stream: on an open connection it returns exactly the next
  n bytes and leaves the rest, whenever n bytes arrive, and otherwise ends the way the stream does,
  blocking on an open stream and throwing on a failed or closed one. Nothing else of the connection
  changes.
\<close>

theorem receive_exact:
  assumes "cn_connected c"
  shows "if n \<le> length (avail c)
    then (\<exists>c'. receive n c = (Ok (take n (avail c)), c') \<and> same_conn c c' \<and> avail c' = drop n (avail c))
    else fst (receive n c) = endOutcome (ending (incoming c))"
proof (cases "n \<le> length (avail c)")
  case True
  with assms receive_yields [of c "take n (avail c)" "drop n (avail c)" n] show ?thesis
    by (simp add: holds_def yields_def)
next
  case False
  with assms show ?thesis by (simp add: receive_short)
qed

theorem receive_exact_witness:
  "\<exists>c'. receive 3 ((newConnection ''h'' 1 [RecvData [1, 2], RecvData [3, 4], RecvClosed] [])\<lparr>cn_connected := True\<rparr>) =
     (Ok [1, 2, 3], c') \<and> avail c' = [4]"
proof -
  let ?c = "(newConnection ''h'' 1 [RecvData [1, 2], RecvData [3, 4], RecvClosed] [])\<lparr>cn_connected := True\<rparr>"
  have a: "avail ?c = [1, 2, 3, 4]" and c: "cn_connected ?c" by (simp_all add: newConnection_def avail_def)
  from receive_exact [OF c, of 3] show ?thesis by (auto simp: a)
qed

text \<open>
  C31: The typed reads of the connection consume exactly one encoded value and deliver it: variable-length
  integers, byte arrays and strings below 2^32 bytes, and entry metadata with any combination of
  lifespan and idle time.
\<close>

theorem typed_reads_deliver:
  "(holds c (writeVInt [] i @ rest) \<longrightarrow> yields c receiveVInt i rest) \<and>
   (holds c (writeVLong [] l @ rest) \<longrightarrow> yields c receiveVLong l rest) \<and>
   (fits32 bs \<and> holds c (writeByteArray [] bs @ rest) \<longrightarrow> yields c receiveByteArray bs rest) \<and>
   (fits32 s \<and> holds c (writeString [] s @ rest) \<longrightarrow> yields c receiveString s rest) \<and>
   (valid_metadata m \<and> holds c (encodeMetadata m @ rest) \<longrightarrow> yields c receiveMetadata m rest)"
  using svint.rd_enc svlong.rd_enc sbytes.rd_enc sstring.rd_enc smeta.rd_enc by blast

theorem typed_reads_deliver_witness:
  "let c = (newConnection ''h'' 1 [RecvData [0x02, 0, 0, 0], RecvData [0, 0, 0, 1, 0, 5, 0, 0, 0, 0],
       RecvData [0, 0, 0, 9, 7]] [])\<lparr>cn_connected := True\<rparr>
   in yields c receiveMetadata \<lparr>md_created = Some 256, md_lastUsed = None, md_lifespan = Some 5,
        md_maxIdle = None, md_version = Some 9\<rparr> [7]"
proof -
  let ?c = "(newConnection ''h'' 1 [RecvData [0x02, 0, 0, 0], RecvData [0, 0, 0, 1, 0, 5, 0, 0, 0, 0],
       RecvData [0, 0, 0, 9, 7]] [])\<lparr>cn_connected := True\<rparr>"
  let ?m = "\<lparr>md_created = Some 256, md_lastUsed = None, md_lifespan = Some 5,
        md_maxIdle = None, md_version = Some 9\<rparr>"
  have "encodeMetadata ?m = [0x02, 0, 0, 0, 0, 0, 0, 1, 0, 5, 0, 0, 0, 0, 0, 0, 0, 9]" by code_simp
  then have "valid_metadata ?m \<and> holds ?c (encodeMetadata ?m @ [7])"
    by (simp add: valid_metadata_def holds_def newConnection_def avail_def)
  with typed_reads_deliver [of ?c 0 "[7]" 0 "[]" "[]" ?m] show ?thesis by (simp add: Let_def)
qed

text \<open>
  \<open>agrees off dec rd\<close>: what \<open>dec\<close> makes of a buffer, \<open>rd\<close> makes of a stream with the bytes of the buffer: the same value and
  the same rest, undefined behaviour on the same bytes, and where the codec finds the buffer too short, the way the stream ends.
\<close>

definition agrees :: "byteArray \<Rightarrow> Connection \<Rightarrow> (exn, 'a \<times> nat) outcome \<Rightarrow> 'a conn \<Rightarrow> bool" where
  "agrees buf c dec rd \<longleftrightarrow> (case dec of
      Ok (v, off') \<Rightarrow> yields c rd v (drop off' buf)
    | Throw e \<Rightarrow> fst (rd c) = endOutcome (ending (incoming c))
    | Block \<Rightarrow> False
    | UB \<Rightarrow> fst (rd c) = UB)"

lemma endOutcome_simps [simp]: "endOutcome es \<noteq> Ok v" "endOutcome es \<noteq> UB"
  by (induction es rule: endOutcome.induct) auto

lemma bind_ended: "fst (m c) = endOutcome es \<Longrightarrow> fst (bindM m f c) = endOutcome es"
  by (cases "m c", induction es rule: endOutcome.induct) (simp_all add: bindM_def)

lemma agrees_receive_1:
  assumes "off \<le> length buf" and "holds c (drop off buf)"
    and "off < length buf \<Longrightarrow> (\<And>d. same_conn c d \<Longrightarrow> holds d (drop (Suc off) buf) \<Longrightarrow> agrees buf d dec (f [buf ! off]))"
    and "off = length buf \<Longrightarrow> \<exists>e. dec = Throw e"
  shows "agrees buf c dec (bindM (receive 1) f)"
proof (cases "off < length buf")
  case True
  with assms(2) have h: "holds c ([buf ! off] @ drop (Suc off) buf)" by (simp add: Cons_nth_drop_Suc)
  from receive_yields [OF this, of 1] obtain d where d: "receive 1 c = (Ok [buf ! off], d)" "same_conn c d" "avail d = drop (Suc off) buf"
    by (auto simp: yields_def)
  with h have "holds d (drop (Suc off) buf)" by (simp add: holds_def same_conn_connected)
  with assms(3) [OF True d(2)] have a: "agrees buf d dec (f [buf ! off])" by blast
  have "ending (incoming d) = ending (incoming c)" using d(2) by (auto simp: same_conn_def)
  with a d(1,2) show ?thesis
    by (auto simp: agrees_def yields_def bindM_def split: outcome.splits intro: same_conn_trans)
next
  case False
  with assms(1) have o: "off = length buf" by simp
  with assms(4) obtain e where e: "dec = Throw e" by blast
  have "fst (receive 1 c) = endOutcome (ending (incoming c))" using receive_short [of c 1] assms(2) o by (simp add: holds_def)
  then have "fst (bindM (receive 1) f c) = endOutcome (ending (incoming c))" by (rule bind_ended)
  with e show ?thesis by (simp add: agrees_def)
qed

lemma readVarLoop_end: "b AND 0x80 \<noteq> 0 \<Longrightarrow> \<exists>e. readVarLoop nm buf (length buf) b sh r = Throw e"
  by (subst readVarLoop.simps) simp

lemma readVarLoop_agrees:
  "off \<le> length buf \<Longrightarrow> holds c (drop off buf) \<Longrightarrow> agrees buf c (readVarLoop nm buf off b sh (r :: 'a::len word)) (receiveVarLoop b sh r)"
proof (induction nm buf off b sh r arbitrary: c rule: readVarLoop.induct)
  case (1 nm buf off b sh r)
  show ?case
  proof (cases "b AND 0x80 = 0")
    case True
    with "1.prems" show ?thesis by (auto simp: readVarLoop_stop receiveVarLoop_stop agrees_def intro: yields_ret)
  next
    case b: False
    show ?thesis
    proof (cases "sh < LENGTH('a)")
      case True
      show ?thesis unfolding receiveVarLoop_step [OF b True]
      proof (rule agrees_receive_1 [OF "1.prems"])
        fix d assume off: "off < length buf" and d: "holds d (drop (Suc off) buf)"
        with "1.IH" [OF b _ _ _ d] True show "agrees buf d (readVarLoop nm buf off b sh r)
            (receiveVarLoop ([buf ! off] ! 0) (sh + 7) (r OR push_bit sh (ucast ([buf ! off] ! 0 AND 0x7F))))"
          by (simp add: readVarLoop_step [OF b off True])
      qed (simp add: readVarLoop_end b)
    next
      case False
      then have l: "receiveVarLoop b sh r = bindM (receive 1) (\<lambda>nb. ub)"
        using b by (intro ext) (simp add: receiveVarLoop.simps [of b] cong: if_cong)
      show ?thesis unfolding l
        by (rule agrees_receive_1 [OF "1.prems"])
          (use b False in \<open>simp_all add: readVarLoop_end readVarLoop.simps [of nm buf off] agrees_def ub_def\<close>)
    qed
  qed
qed

lemma readVar_agrees:
  assumes "off \<le> length buf" and "holds c (drop off buf)"
  shows "agrees buf c (readVar nm buf off :: (exn, 'a::len word \<times> nat) outcome)
    (bindM (receive 1) (\<lambda>fb. receiveVarLoop (fb ! 0) 7 (ucast (fb ! 0 AND 0x7F))))"
  by (rule agrees_receive_1 [OF assms]) (simp_all add: readVar_def readVarLoop_agrees)

text \<open>
  C32: The connection's readers and the codec's readers are the same function of the bytes. On a stream with the bytes of a
  buffer, receiveVInt and receiveVLong return exactly what Codec::readVInt and readVLong decode, and leave the bytes behind the
  offset the codec stopped at; they are undefined on exactly the bytes on which the codec is; and where the codec finds the buffer
  too short they end as the stream does (waiting for more, closed, or failed), never with a value.
\<close>

theorem stream_and_buffer_readers_agree:
  assumes "holds c (drop off buf)" and "off \<le> length buf"
  shows "(case readVInt buf off of
      Ok (i, off') \<Rightarrow> yields c receiveVInt i (drop off' buf)
    | Throw e \<Rightarrow> fst (receiveVInt c) = endOutcome (ending (incoming c))
    | Block \<Rightarrow> False
    | UB \<Rightarrow> fst (receiveVInt c) = UB) \<and>
   (case readVLong buf off of
      Ok (l, off') \<Rightarrow> yields c receiveVLong l (drop off' buf)
    | Throw e \<Rightarrow> fst (receiveVLong c) = endOutcome (ending (incoming c))
    | Block \<Rightarrow> False
    | UB \<Rightarrow> fst (receiveVLong c) = UB)"
  using readVar_agrees [OF assms(2,1), where 'a = 32, of "''readVInt''"] readVar_agrees [OF assms(2,1), where 'a = 64, of "''readVLong''"]
  unfolding agrees_def readVInt_def readVLong_def receiveVInt_def receiveVLong_def by (rule conjI)

theorem stream_and_buffer_readers_agree_witness:
  "yields ((newConnection ''h'' 1 [RecvData [0xAC], RecvData [0x02, 9]] [])\<lparr>cn_connected := True\<rparr>) receiveVInt 300 [9] \<and>
   fst (receiveVInt ((newConnection ''h'' 1 [RecvData [0xAC], RecvClosed] [])\<lparr>cn_connected := True\<rparr>)) =
     Throw (RuntimeError ''Connection closed by peer'')"
proof
  let ?c = "(newConnection ''h'' 1 [RecvData [0xAC], RecvData [0x02, 9]] [])\<lparr>cn_connected := True\<rparr>"
  have "holds ?c (drop 0 [0xAC, 0x02, 9])" by (simp add: holds_def newConnection_def avail_def)
  moreover have "readVInt [0xAC, 0x02, 9] 0 = Ok (300, 2)" by code_simp
  ultimately show "yields ?c receiveVInt 300 [9]"
    using stream_and_buffer_readers_agree [of ?c 0 "[0xAC, 0x02, 9]"] by simp
  let ?d = "(newConnection ''h'' 1 [RecvData [0xAC], RecvClosed] [])\<lparr>cn_connected := True\<rparr>"
  have "holds ?d (drop 0 [0xAC])" by (simp add: holds_def newConnection_def avail_def)
  moreover have "readVInt [0xAC] 0 = Throw (RuntimeError ''readVInt: incomplete varint'')" by code_simp
  ultimately show "fst (receiveVInt ?d) = Throw (RuntimeError ''Connection closed by peer'')"
    using stream_and_buffer_readers_agree [of ?d 0 "[0xAC]"] by (simp add: newConnection_def)
qed

text \<open>
  send hands the system a prefix of the data, in order and without gaps however the system splits
  it: all of it exactly when it returns normally, a proper prefix when it throws or blocks. connect
  succeeds exactly when some resolved address accepts the connection, and holds a socket exactly when
  it is connected.
\<close>

theorem send_and_connect:
  "(cn_connected c \<longrightarrow> (\<exists>part rest. data = part @ rest \<and> sent (snd (send data c)) = sent c @ part \<and>
       (fst (send data c) = Ok () \<longleftrightarrow> rest = []))) \<and>
   (\<not> cn_connected c \<longrightarrow> (fst (connect (Inr as) c) = Ok () \<longleftrightarrow> (\<exists>a \<in> set as. attemptSucceeds a)) \<and>
       cn_connected (snd (connect (Inr as) c)) = (\<exists>a \<in> set as. attemptSucceeds a) \<and>
       (\<not> cn_socket c \<longrightarrow> cn_socket (snd (connect (Inr as) c)) = cn_connected (snd (connect (Inr as) c))))"
proof (intro conjI impI)
  assume c: "cn_connected c"
  obtain r part script where s: "sendLoop (sendScript c) [] data = (r, part, script)"
    by (cases "sendLoop (sendScript c) [] data") auto
  from sendLoop_prefix [OF s] obtain rest where "data = part @ rest" "r = Ok () \<longleftrightarrow> rest = []" by auto
  with c s show "\<exists>part rest. data = part @ rest \<and> sent (snd (send data c)) = sent c @ part \<and>
       (fst (send data c) = Ok () \<longleftrightarrow> rest = [])"
    by (auto simp: send_def)
qed (auto simp: connect_def Let_def comp_simps tryAddresses_connected tryAddresses_socket)

theorem send_and_connect_witness:
  "\<exists>part rest. [1, 2, 3] = part @ rest \<and>
     sent (snd (send [1, 2, 3] ((newConnection ''h'' 1 [] [SendAccepts 2])\<lparr>cn_connected := True\<rparr>))) = part"
proof -
  let ?c = "(newConnection ''h'' 1 [] [SendAccepts 2])\<lparr>cn_connected := True\<rparr>"
  have "cn_connected ?c" and "sent ?c = []" by (simp_all add: newConnection_def)
  with send_and_connect [of ?c "[1, 2, 3]" "[]"] show ?thesis by auto
qed

end
