(* ===== verification/ServerSelection.thy ===== *)
theory ServerSelection
  imports Errors
begin

text \<open>
  include/hotrod/ServerSelection.h (candidate order and union of node lists), RetryContext.h,
  and the selectors of include/hotrod/ServerSelector.h and src/selector/ServerSelector.cpp.
  A selector returns the selected address (\<open>None\<close> for nullptr); indexing the server vector out of
  range is \<open>UB\<close>. The value std::rand returns is an argument.
\<close>

section \<open>Candidate order\<close>

record RetryContext =
  excludeNodes :: "ServerAddress list"

definition pushUnique :: "ServerAddress list \<Rightarrow> ServerAddress list \<Rightarrow> ServerAddress \<Rightarrow> ServerAddress list" where
  "pushUnique excl out s =
     (if s \<in> set excl then out
      else if s \<in> set out then out
      else out @ [s])"

definition orderKeyCandidates ::
  "ServerAddress list \<Rightarrow> ServerAddress list \<Rightarrow> ServerAddress list \<Rightarrow> bool \<Rightarrow> ServerAddress list" where
  "orderKeyCandidates owners allServers excl proxyToNonOwner =
     (let out = foldl (pushUnique excl) [] owners
      in if proxyToNonOwner then foldl (pushUnique excl) out allServers else out)"

fun unionNodes :: "ServerAddress list \<Rightarrow> ServerAddress list \<Rightarrow> ServerAddress list" where
  "unionNodes a [] = a"
| "unionNodes a (n # b) = unionNodes (if n \<in> set a then a else a @ [n]) b"

section \<open>Selectors\<close>

record RoundRobinSelector =
  currentIndex :: nat

definition newRoundRobinSelector :: RoundRobinSelector where
  "newRoundRobinSelector = \<lparr>currentIndex = 0\<rparr>"

definition resetRoundRobin :: "RoundRobinSelector \<Rightarrow> RoundRobinSelector" where
  "resetRoundRobin s = s\<lparr>currentIndex := 0\<rparr>"

text \<open>The search loop: the least index at which the current server stands.\<close>

fun findServer :: "ServerAddress list \<Rightarrow> nat \<Rightarrow> ServerAddress \<Rightarrow> nat option" where
  "findServer [] i c = None"
| "findServer (s # ss) i c = (if s = c then Some i else findServer ss (Suc i) c)"

definition selectRoundRobin ::
  "RoundRobinSelector \<Rightarrow> ServerAddress list \<Rightarrow> ServerAddress option \<Rightarrow>
    (exn, ServerAddress option \<times> RoundRobinSelector) outcome" where
  "selectRoundRobin s servers currentServer =
     (if servers = [] then Ok (None, s)
      else case Option.bind currentServer (findServer servers 0) of
        Some i \<Rightarrow> (let j = (i + 1) mod length servers in Ok (Some (servers ! j), s\<lparr>currentIndex := j\<rparr>))
      | None \<Rightarrow>
          if currentIndex s \<ge> length servers then UB
          else Ok (Some (servers ! currentIndex s),
                   s\<lparr>currentIndex := (currentIndex s + 1) mod length servers\<rparr>))"

definition selectRandom :: "nat \<Rightarrow> ServerAddress list \<Rightarrow> ServerAddress option \<Rightarrow> ServerAddress option" where
  "selectRandom rand servers currentServer =
     (if servers = [] then None
      else if length servers = 1 then Some (servers ! 0)
      else let i = rand mod length servers in
        if currentServer = Some (servers ! i) \<and> length servers > 1
        then Some (servers ! ((i + 1) mod length servers))
        else Some (servers ! i))"

section \<open>Reference definitions\<close>

text \<open>The first occurrences of a list, in order.\<close>

fun firsts :: "'a list \<Rightarrow> 'a list" where
  "firsts [] = []"
| "firsts (x # xs) = x # filter (\<lambda>y. y \<noteq> x) (firsts xs)"

text \<open>Calling a stateful selector n times.\<close>

fun selectTimes :: "('s \<Rightarrow> (exn, 'a option \<times> 's) outcome) \<Rightarrow> nat \<Rightarrow> 's \<Rightarrow> (exn, 'a option list \<times> 's) outcome" where
  "selectTimes sel 0 s = Ok ([], s)"
| "selectTimes sel (Suc n) s =
     bindO (sel s) (\<lambda>(x, s). bindO (selectTimes sel n s) (\<lambda>(xs, s). Ok (x # xs, s)))"

text \<open>Without a current server, RoundRobinSelector on a fixed server list is such a cursor.\<close>

definition rrStep :: "ServerAddress list \<times> RoundRobinSelector \<Rightarrow>
    (exn, ServerAddress option \<times> ServerAddress list \<times> RoundRobinSelector) outcome" where
  "rrStep p = bindO (selectRoundRobin (snd p) (fst p) None) (\<lambda>(x, s). Ok (x, fst p, s))"

section \<open>Lemmas\<close>

lemma set_firsts [simp]: "set (firsts xs) = set xs"
  by (induction xs) auto

lemma distinct_firsts [simp]: "distinct (firsts xs)"
  by (induction xs) auto

lemma firsts_distinct: "distinct xs \<Longrightarrow> firsts xs = xs"
proof (induction xs)
  case (Cons x xs)
  then show ?case by (simp add: filter_id_conv) (metis filter_True)
qed simp

lemma firsts_append: "firsts (xs @ ys) = firsts xs @ filter (\<lambda>y. y \<notin> set xs) (firsts ys)"
  by (induction xs) (auto intro: filter_cong)

lemma foldl_pushUnique:
  "foldl (pushUnique excl) out xs =
     out @ filter (\<lambda>y. y \<notin> set out \<and> y \<notin> set excl) (firsts xs)"
proof (induction xs arbitrary: out)
  case (Cons x xs)
  then show ?case by (auto simp: pushUnique_def intro!: filter_cong)
qed simp

lemma unionNodes_eq: "unionNodes a b = a @ filter (\<lambda>y. y \<notin> set a) (firsts b)"
proof (induction b arbitrary: a)
  case (Cons n b)
  then show ?case by (auto intro!: filter_cong)
qed simp

lemma set_unionNodes [simp]: "set (unionNodes a b) = set a \<union> set b"
  by (auto simp: unionNodes_eq)

lemma distinct_unionNodes: "distinct (unionNodes a b) \<longleftrightarrow> distinct a"
  by (auto simp: unionNodes_eq)

lemma unionNodes_absorb: "set b \<subseteq> set a \<Longrightarrow> unionNodes a b = a"
  by (auto simp: unionNodes_eq filter_empty_conv)

lemma orderKeyCandidates_eq:
  "orderKeyCandidates owners allServers excl proxy =
     filter (\<lambda>s. s \<notin> set excl) (firsts (owners @ (if proxy then allServers else [])))"
  by (auto simp: orderKeyCandidates_def foldl_pushUnique firsts_append intro!: filter_cong)

lemma set_orderKeyCandidates [simp]:
  "set (orderKeyCandidates owners allServers excl proxy) =
     (set owners \<union> (if proxy then set allServers else {})) - set excl"
  by (auto simp: orderKeyCandidates_eq)

section \<open>The contract of a round-robin cursor\<close>

text \<open>
  Two components walk a server vector with an index: RoundRobinSelector and TopologyInfo. Their
  common contract is one step; that a full round visits every server once follows here.
\<close>

locale round_robin =
  fixes sel :: "'s \<Rightarrow> (exn, 'a option \<times> 's) outcome"
    and idx :: "'s \<Rightarrow> nat"
    and items :: "'s \<Rightarrow> 'a list"
  assumes sel_step: "idx s < length (items s) \<Longrightarrow>
    \<exists>s'. sel s = Ok (Some (items s ! idx s), s') \<and> items s' = items s \<and>
      idx s' = (idx s + 1) mod length (items s)"
begin

lemma idx_stays_in_range: "idx s < length (items s) \<Longrightarrow> sel s = Ok (x, s') \<Longrightarrow> idx s' < length (items s')"
  using sel_step [of s] by (auto intro: mod_length_less)

lemma selectTimes_eq:
  "idx s < length (items s) \<Longrightarrow> \<exists>s'. selectTimes sel n s =
      Ok (map (\<lambda>j. Some (items s ! ((idx s + j) mod length (items s)))) [0..<n], s') \<and>
    items s' = items s \<and> idx s' = (idx s + n) mod length (items s)"
proof (induction n arbitrary: s)
  case 0
  then show ?case by simp
next
  case (Suc n)
  from sel_step [OF Suc.prems] obtain t where t: "sel s = Ok (Some (items s ! idx s), t)"
    "items t = items s" "idx t = (idx s + 1) mod length (items s)" by blast
  with Suc.prems have "idx t < length (items t)" by (simp add: mod_length_less)
  from Suc.IH [OF this] obtain u where u: "selectTimes sel n t =
      Ok (map (\<lambda>j. Some (items t ! ((idx t + j) mod length (items t)))) [0..<n], u)"
    "items u = items t" "idx u = (idx t + n) mod length (items t)" by blast
  have "map (\<lambda>j. Some (items s ! ((idx s + j) mod length (items s)))) [0..<Suc n] =
      Some (items s ! idx s) # map (\<lambda>j. Some (items t ! ((idx t + j) mod length (items t)))) [0..<n]"
    using Suc.prems by (subst map_upt_Suc) (simp add: t mod_simps)
  with t u show ?case by (simp add: mod_simps)
qed

text \<open>A full round delivers the items in ring order from the cursor on, and leaves the cursor as it was.\<close>

lemma full_round:
  assumes "idx s < length (items s)"
  shows "\<exists>s'. selectTimes sel (length (items s)) s = Ok (map Some (rotate (idx s) (items s)), s') \<and>
    items s' = items s \<and> idx s' = idx s"
proof -
  have "map (\<lambda>j. Some (items s ! ((idx s + j) mod length (items s)))) [0..<length (items s)] =
      map Some (rotate (idx s) (items s))"
    by (rule nth_equalityI) (simp_all add: nth_rotate add.commute)
  with selectTimes_eq [OF assms, of "length (items s)"] assms show ?thesis by simp
qed

end

interpretation rr: round_robin rrStep "\<lambda>p. currentIndex (snd p)" fst
  by unfold_locales (auto simp: rrStep_def selectRoundRobin_def split: prod.splits)

lemma findServer_SomeD: "findServer ss i c = Some j \<Longrightarrow> i \<le> j \<and> j < i + length ss \<and> ss ! (j - i) = c"
proof (induction ss arbitrary: i)
  case (Cons s ss)
  then show ?case
    by (cases "s = c") (fastforce simp: nth_Cons' Suc_le_eq split: if_splits)+
qed simp

lemma findServer_None_iff: "findServer ss i c = None \<longleftrightarrow> c \<notin> set ss"
  by (induction ss arbitrary: i) auto

lemma findServer_mem: "findServer ss i c = Some j \<Longrightarrow> c \<in> set ss"
  using findServer_None_iff [of ss i c] by auto

lemma nth_ring_next:
  assumes "distinct xs" and "1 < length xs" and "i < length xs"
  shows "xs ! ((i + 1) mod length xs) \<noteq> xs ! i"
proof -
  have "(i + 1) mod length xs \<noteq> i"
    using assms(2,3) by (cases "Suc i = length xs") auto
  moreover have "(i + 1) mod length xs < length xs" using assms(3) by (rule mod_length_less)
  ultimately show ?thesis using assms(1,3) by (simp add: nth_eq_iff_index_eq)
qed

lemma selectRandom_member:
  assumes "servers \<noteq> []"
  shows "\<exists>x \<in> set servers. selectRandom r servers cur = Some x \<and>
    (distinct servers \<and> 1 < length servers \<longrightarrow> cur \<noteq> Some x)"
proof -
  from assms have r: "r mod length servers < length servers" by (cases servers) auto
  then have "(r mod length servers + 1) mod length servers < length servers" by (rule mod_length_less)
  with assms r nth_ring_next [OF _ _ r] show ?thesis
    by (auto simp: selectRandom_def Let_def neq_Nil_conv intro: nth_mem)
qed

section \<open>Properties\<close>

text \<open>
  orderKeyCandidates returns the first occurrences of the owners followed, when proxying is
  allowed, by the remaining servers, minus the excluded nodes: no duplicates, no excluded node,
  every other owner, owners in owner order before any non-owner.
\<close>

theorem orderKeyCandidates_spec:
  "orderKeyCandidates owners allServers excl proxy =
     filter (\<lambda>s. s \<notin> set excl) (firsts owners) @
     (if proxy then filter (\<lambda>s. s \<notin> set excl \<and> s \<notin> set owners) (firsts allServers) else []) \<and>
   distinct (orderKeyCandidates owners allServers excl proxy) \<and>
   set (orderKeyCandidates owners allServers excl proxy) =
     (set owners \<union> (if proxy then set allServers else {})) - set excl"
  by (auto simp: orderKeyCandidates_eq firsts_append filter_empty_conv intro!: filter_cong)

text \<open>
  unionNodes keeps its first argument as a prefix, adds exactly the new nodes of the second, and
  adds each once; feeding the tried nodes of an attempt back as the exclusion list therefore grows
  the list monotonically, and a node that was in it is never a candidate again.
\<close>

theorem unionNodes_spec:
  "(\<exists>new. unionNodes a b = a @ new \<and> distinct new \<and> set new = set b - set a) \<and>
   set (unionNodes a b) = set a \<union> set b \<and>
   unionNodes (unionNodes a b) b = unionNodes a b \<and>
   set (orderKeyCandidates owners allServers (unionNodes a b) proxy) =
     set (orderKeyCandidates owners allServers a proxy) - set b"
proof (intro conjI)
  show "\<exists>new. unionNodes a b = a @ new \<and> distinct new \<and> set new = set b - set a"
    by (auto simp: unionNodes_eq)
qed (auto simp: unionNodes_absorb)

text \<open>
  RoundRobinSelector without a current server serves every server of a stable, non-empty list
  exactly once per round, in list order from its index on; with a current server that is in the list
  it moves on to the one after it, which differs from it when the servers are distinct. The only
  call that indexes out of range is one whose current server is absent or unknown while the index,
  kept from a longer list, is not below the length of the list.
\<close>

theorem round_robin_selection:
  "(currentIndex s < length servers \<longrightarrow>
      (\<exists>s'. selectTimes rrStep (length servers) (servers, s) =
          Ok (map Some (rotate (currentIndex s) servers), servers, s') \<and> currentIndex s' = currentIndex s)) \<and>
   (\<forall>c. c \<in> set servers \<and> distinct servers \<and> 1 < length servers \<longrightarrow>
      (\<exists>x s'. selectRoundRobin s servers (Some c) = Ok (Some x, s') \<and> x \<in> set servers \<and> x \<noteq> c \<and>
          currentIndex s' < length servers)) \<and>
   (selectRoundRobin s servers cur = UB \<longleftrightarrow>
      servers \<noteq> [] \<and> length servers \<le> currentIndex s \<and> (\<forall>c. cur = Some c \<longrightarrow> c \<notin> set servers))"
proof (intro conjI allI impI)
  assume "currentIndex s < length servers"
  with rr.full_round [of "(servers, s)"] show "\<exists>s'. selectTimes rrStep (length servers) (servers, s) =
          Ok (map Some (rotate (currentIndex s) servers), servers, s') \<and> currentIndex s' = currentIndex s"
    by auto
next
  fix c assume a: "c \<in> set servers \<and> distinct servers \<and> 1 < length servers"
  then obtain j where j: "findServer servers 0 c = Some j"
    using findServer_None_iff [of servers 0 c] by auto
  from findServer_SomeD [OF j] have "j < length servers" "servers ! j = c" by auto
  moreover from calculation a nth_ring_next [of servers j] have "servers ! ((j + 1) mod length servers) \<noteq> c" by auto
  moreover from calculation(1) have "(j + 1) mod length servers < length servers" by (rule mod_length_less)
  ultimately show "\<exists>x s'. selectRoundRobin s servers (Some c) = Ok (Some x, s') \<and> x \<in> set servers \<and> x \<noteq> c \<and>
      currentIndex s' < length servers"
    using a j by (auto simp: selectRoundRobin_def Let_def)
next
  show "selectRoundRobin s servers cur = UB \<longleftrightarrow>
      servers \<noteq> [] \<and> length servers \<le> currentIndex s \<and> (\<forall>c. cur = Some c \<longrightarrow> c \<notin> set servers)"
    by (cases cur) (auto simp: selectRoundRobin_def Let_def findServer_None_iff dest: findServer_mem split: option.splits)
qed

theorem round_robin_selection_witness:
  "\<exists>s'. selectTimes rrStep 2 ([\<lparr>sa_host = ''a'', sa_port = 1\<rparr>, \<lparr>sa_host = ''b'', sa_port = 1\<rparr>], \<lparr>currentIndex = 1\<rparr>) =
     Ok ([Some \<lparr>sa_host = ''b'', sa_port = 1\<rparr>, Some \<lparr>sa_host = ''a'', sa_port = 1\<rparr>],
         [\<lparr>sa_host = ''a'', sa_port = 1\<rparr>, \<lparr>sa_host = ''b'', sa_port = 1\<rparr>], s')"
proof -
  let ?a = "\<lparr>sa_host = ''a'', sa_port = 1\<rparr> :: ServerAddress"
  let ?b = "\<lparr>sa_host = ''b'', sa_port = 1\<rparr> :: ServerAddress"
  have "currentIndex \<lparr>currentIndex = 1\<rparr> < length [?a, ?b]" by simp
  with round_robin_selection [of "\<lparr>currentIndex = 1\<rparr>" "[?a, ?b]"]
  have "\<exists>s'. selectTimes rrStep (length [?a, ?b]) ([?a, ?b], \<lparr>currentIndex = 1\<rparr>) =
          Ok (map Some (rotate 1 [?a, ?b]), [?a, ?b], s')" by fastforce
  moreover have "length [?a, ?b] = 2" and "map Some (rotate 1 [?a, ?b]) = [Some ?b, Some ?a]" by simp_all
  ultimately show ?thesis by metis
qed

end
