(* ===== verification/Topology.thy ===== *)
theory Topology
  imports Connection ServerSelection
begin

text \<open>
  include/hotrod/TopologyInfo.h and src/topology/TopologyInfo.cpp: the servers of a cluster, the
  round-robin cursor over them, and the parser of a topology update. The parser works on the object
  it is a method of and on its three output parameters (\<open>ParseState\<close>), and on the connection, so
  an exception leaves exactly the assignments made before it. Memory exhaustion in reserve is
  not modelled.
\<close>

section \<open>Servers and topologies\<close>

record ServerInfo =
  si_host :: string
  si_port :: "16 word"
  si_hashId :: int32

text \<open>operator== ignores the hash id.\<close>

definition sameServer :: "ServerInfo \<Rightarrow> ServerInfo \<Rightarrow> bool" where
  "sameServer s other \<longleftrightarrow> si_host s = si_host other \<and> si_port s = si_port other"

record TopologyInfo =
  ti_topologyId :: int32
  ti_servers :: "ServerInfo list"
  ti_roundRobinIndex :: nat
  ti_hashFunctionVersion :: byte
  ti_numSegments :: VInt
  ti_segmentOwners :: "byte list list"

definition newTopologyInfo :: TopologyInfo where
  "newTopologyInfo = \<lparr>ti_topologyId = 0, ti_servers = [], ti_roundRobinIndex = 0,
     ti_hashFunctionVersion = 0, ti_numSegments = 0, ti_segmentOwners = []\<rparr>"

definition hasHashTopology :: "TopologyInfo \<Rightarrow> bool" where
  "hasHashTopology t \<longleftrightarrow> ti_numSegments t > 0"

definition selectServer :: "TopologyInfo \<Rightarrow> (exn, ServerInfo option \<times> TopologyInfo) outcome" where
  "selectServer t =
     (if ti_servers t = [] then Ok (None, t)
      else if ti_roundRobinIndex t \<ge> length (ti_servers t) then UB
      else Ok (Some (ti_servers t ! ti_roundRobinIndex t),
               t\<lparr>ti_roundRobinIndex := (ti_roundRobinIndex t + 1) mod length (ti_servers t)\<rparr>))"

definition pushServer :: "ServerInfo list \<Rightarrow> ServerInfo \<Rightarrow> ServerInfo list" where
  "pushServer servers s = (if \<exists>x \<in> set servers. sameServer x s then servers else servers @ [s])"

definition addServer :: "ServerInfo \<Rightarrow> TopologyInfo \<Rightarrow> TopologyInfo" where
  "addServer s t = t\<lparr>ti_servers := pushServer (ti_servers t) s\<rparr>"

definition removeServer :: "string \<Rightarrow> 16 word \<Rightarrow> TopologyInfo \<Rightarrow> TopologyInfo" where
  "removeServer host port t =
     t\<lparr>ti_servers := filter (\<lambda>s. \<not> (si_host s = host \<and> si_port s = port)) (ti_servers t)\<rparr>"

definition clearServers :: "TopologyInfo \<Rightarrow> TopologyInfo" where
  "clearServers t = t\<lparr>ti_servers := [], ti_roundRobinIndex := 0\<rparr>"

definition setTopologyId :: "int32 \<Rightarrow> TopologyInfo \<Rightarrow> TopologyInfo" where
  "setTopologyId tid t = t\<lparr>ti_topologyId := tid\<rparr>"

section \<open>Parsing a topology update\<close>

record ParseState =
  ps_topology :: TopologyInfo
  ps_hashFunctionVersion :: byte
  ps_numSegments :: VInt
  ps_segmentOwners :: "byte list list"

type_synonym 'a parse = "(ParseState \<times> Connection, exn, 'a) comp"

definition onConn :: "'a conn \<Rightarrow> 'a parse" where
  "onConn m = (\<lambda>(s, c). case m c of (r, c) \<Rightarrow> (r, s, c))"

definition modifyP :: "(ParseState \<Rightarrow> ParseState) \<Rightarrow> unit parse" where
  "modifyP f = (\<lambda>(s, c). (Ok (), f s, c))"

lemma receive_1_consumes:
  assumes "receive 1 c = (Ok bs, c')"
  shows "length (avail c') < length (avail c)"
proof (cases "cn_connected c \<and> avail c \<noteq> []")
  case True
  then have "holds c (take 1 (avail c) @ drop 1 (avail c))" by (simp add: holds_def)
  moreover have "length (take 1 (avail c)) = 1" using True by (cases "avail c") auto
  ultimately have "yields c (receive 1) (take 1 (avail c)) (drop 1 (avail c))" by (rule receive_yields)
  with assms True show ?thesis by (cases "avail c") (auto simp: yields_def)
next
  case False
  have "endOutcome es \<noteq> Ok bs" for es by (induction es rule: endOutcome.induct) auto
  with False assms receive_short [of c 1] show ?thesis
    by (cases "cn_connected c") (auto simp: receive_def throw_def)
qed

text \<open>The loop that collects the bytes of one variable-length integer.\<close>

function collectVInt :: "byteArray \<Rightarrow> Connection \<Rightarrow> (exn, byteArray) outcome \<times> Connection" where
  "collectVInt vintBytes c =
     bindM (receive 1) (\<lambda>byte c.
       if byte ! 0 AND 0x80 = 0 then ret (vintBytes @ [byte ! 0]) c
       else collectVInt (vintBytes @ [byte ! 0]) c) c"
  by pat_completeness auto

termination collectVInt
  by (relation "measure (\<lambda>(bs, c). length (avail c))") (auto dest: receive_1_consumes [unfolded One_nat_def])

declare collectVInt.simps [simp del]

definition topoReadVInt :: "VInt conn" where
  "topoReadVInt = bindM (collectVInt []) (\<lambda>vintBytes.
     liftO (bindO (readVInt vintBytes 0) (\<lambda>(v, offset). Ok v)))"

definition topoReadString :: "string conn" where
  "topoReadString = bindM topoReadVInt (\<lambda>len.
     if len = 0 then ret [] else bindM (receive (unat len)) (\<lambda>strBytes. ret (string_of_bytes strBytes)))"

definition topoReadPort :: "16 word conn" where
  "topoReadPort = bindM (receive 2) (\<lambda>portBytes.
     ret (push_bit 8 (ucast (portBytes ! 0)) OR ucast (portBytes ! 1)))"

text \<open>The loop over the servers, with \<open>n\<close> of them left and \<open>i\<close> the index of the next.\<close>

fun parseServers :: "nat \<Rightarrow> VInt \<Rightarrow> unit parse" where
  "parseServers 0 i = ret ()"
| "parseServers (Suc n) i =
     bindM (onConn topoReadString) (\<lambda>host.
     bindM (onConn topoReadPort) (\<lambda>port.
     bindM (modifyP (\<lambda>s. s\<lparr>ps_topology := (ps_topology s)\<lparr>ti_servers :=
                                pushServer (ti_servers (ps_topology s))
                                  \<lparr>si_host = host, si_port = port, si_hashId = i\<rparr>\<rparr>\<rparr>)) (\<lambda>_.
     parseServers n (i + 1))))"

fun parseSegments :: "nat \<Rightarrow> unit parse" where
  "parseSegments 0 = ret ()"
| "parseSegments (Suc n) =
     bindM (onConn (receive 1)) (\<lambda>numOwnersBytes.
     bindM (onConn (receive (unat (numOwnersBytes ! 0)))) (\<lambda>owners.
     bindM (modifyP (\<lambda>s. s\<lparr>ps_topology := (ps_topology s)\<lparr>ti_segmentOwners :=
                                ti_segmentOwners (ps_topology s) @ [owners]\<rparr>\<rparr>)) (\<lambda>_.
     parseSegments n)))"

definition parseTopologyInfo :: "ClientIntelligence \<Rightarrow> unit parse" where
  "parseTopologyInfo intelligence =
     bindM (onConn topoReadVInt) (\<lambda>tid.
     bindM (modifyP (\<lambda>s. s\<lparr>ps_topology := (ps_topology s)\<lparr>ti_topologyId := tid\<rparr>\<rparr>)) (\<lambda>_.
     bindM (onConn topoReadVInt) (\<lambda>numServers.
     bindM (modifyP (\<lambda>s. s\<lparr>ps_topology := (ps_topology s)\<lparr>ti_servers := []\<rparr>\<rparr>)) (\<lambda>_.
     bindM (parseServers (unat numServers) 0) (\<lambda>_.
     bindM (modifyP (\<lambda>s. s\<lparr>ps_topology := (ps_topology s)\<lparr>ti_roundRobinIndex := 0\<rparr>\<rparr>)) (\<lambda>_.
     if intelligence = HASH_DISTRIBUTION_AWARE
     then bindM (onConn (receive 1)) (\<lambda>hashVer.
          bindM (modifyP (\<lambda>s. s\<lparr>ps_topology := (ps_topology s)\<lparr>ti_hashFunctionVersion := hashVer ! 0\<rparr>,
                                ps_hashFunctionVersion := hashVer ! 0\<rparr>)) (\<lambda>_.
          bindM (onConn topoReadVInt) (\<lambda>numSegments.
          bindM (modifyP (\<lambda>s. s\<lparr>ps_topology := (ps_topology s)\<lparr>ti_numSegments := numSegments,
                                   ti_segmentOwners := []\<rparr>,
                                ps_numSegments := numSegments\<rparr>)) (\<lambda>_.
          bindM (parseSegments (unat numSegments)) (\<lambda>_.
          modifyP (\<lambda>s. s\<lparr>ps_segmentOwners := ti_segmentOwners (ps_topology s)\<rparr>))))))
     else ret ()))))))"

text \<open>
  The use both readers of response headers make of the parser: a fresh TopologyInfo and fresh output
  parameters.
\<close>

definition receiveTopology :: "ClientIntelligence \<Rightarrow> TopologyInfo conn" where
  "receiveTopology intelligence = (\<lambda>c.
     case parseTopologyInfo intelligence
            (\<lparr>ps_topology = newTopologyInfo, ps_hashFunctionVersion = 0, ps_numSegments = 0,
              ps_segmentOwners = []\<rparr>, c) of
       (r, s, c) \<Rightarrow> (bindO r (\<lambda>_. Ok (ps_topology s)), c))"

text \<open>
  A response header after its magic byte, with the topology update that may ride along; the marker
  is ignored by clients of intelligence BASIC.
\<close>

record ResponseStart =
  st_messageId :: VLong
  st_opcode :: byte
  st_status :: byte
  st_topology :: "TopologyInfo option"

definition receiveResponseStart :: "ClientIntelligence \<Rightarrow> ResponseStart conn" where
  "receiveResponseStart intelligence =
     bindM receiveVLong (\<lambda>messageId.
     bindM (receive 3) (\<lambda>headerTail.
     bindM (if headerTail ! 2 \<noteq> 0 \<and>
               (intelligence = TOPOLOGY_AWARE \<or> intelligence = HASH_DISTRIBUTION_AWARE)
            then bindM (receiveTopology intelligence) (\<lambda>t. ret (Some t)) else ret None) (\<lambda>topology.
     ret \<lparr>st_messageId = messageId, st_opcode = headerTail ! 0, st_status = headerTail ! 1,
          st_topology = topology\<rparr>)))"

section \<open>The server's encoding\<close>

record Update =
  up_topologyId :: VInt
  up_addresses :: "ServerAddress list"
  up_hashVersion :: byte
  up_owners :: "byte list list"

definition encodeAddress :: "ServerAddress \<Rightarrow> byteArray" where
  "encodeAddress a = writeString [] (sa_host a) @ [ucast (drop_bit 8 (sa_port a)), ucast (sa_port a)]"

definition encodeOwners :: "byte list \<Rightarrow> byteArray" where
  "encodeOwners os = [word_of_nat (length os)] @ os"

definition encodeUpdate :: "ClientIntelligence \<Rightarrow> Update \<Rightarrow> byteArray" where
  "encodeUpdate intelligence u =
     writeVInt [] (up_topologyId u) @ writeVInt [] (word_of_nat (length (up_addresses u))) @
     concat (map encodeAddress (up_addresses u)) @
     (if intelligence = HASH_DISTRIBUTION_AWARE
      then [up_hashVersion u] @ writeVInt [] (word_of_nat (length (up_owners u))) @
           concat (map encodeOwners (up_owners u))
      else [])"

definition valid_update :: "Update \<Rightarrow> bool" where
  "valid_update u \<longleftrightarrow> fits32 (up_addresses u) \<and> (\<forall>a \<in> set (up_addresses u). fits32 (sa_host a)) \<and>
     fits32 (up_owners u) \<and> (\<forall>os \<in> set (up_owners u). length os < 256)"

definition encodeResponseStart ::
  "ClientIntelligence \<Rightarrow> VLong \<Rightarrow> byte \<Rightarrow> byte \<Rightarrow> Update option \<Rightarrow> byteArray" where
  "encodeResponseStart intelligence mid opc st update =
     encodeResponseHeader mid opc st (if update = None then 0 else 1) @
     (case update of None \<Rightarrow> [] | Some u \<Rightarrow>
        if intelligence = BASIC then [] else encodeUpdate intelligence u)"

text \<open>
  What the update means: each address once, where it first occurs, with its position in the
  transmitted list as its hash id.
\<close>

definition serverAt :: "ServerAddress list \<Rightarrow> nat \<Rightarrow> ServerInfo" where
  "serverAt as i = \<lparr>si_host = sa_host (as ! i), si_port = sa_port (as ! i), si_hashId = word_of_nat i\<rparr>"

definition serversOf :: "ServerAddress list \<Rightarrow> ServerInfo list" where
  "serversOf as = map (serverAt as) (filter (\<lambda>i. as ! i \<notin> set (take i as)) [0..<length as])"

definition topologyOf :: "ClientIntelligence \<Rightarrow> Update \<Rightarrow> TopologyInfo \<Rightarrow> TopologyInfo" where
  "topologyOf intelligence u t =
     (let t = t\<lparr>ti_topologyId := up_topologyId u, ti_servers := serversOf (up_addresses u),
                ti_roundRobinIndex := 0\<rparr>
      in if intelligence = HASH_DISTRIBUTION_AWARE
         then t\<lparr>ti_hashFunctionVersion := up_hashVersion u,
                ti_numSegments := word_of_nat (length (up_owners u)), ti_segmentOwners := up_owners u\<rparr>
         else t)"

definition address :: "ServerInfo \<Rightarrow> ServerAddress" where
  "address s = \<lparr>sa_host = si_host s, sa_port = si_port s\<rparr>"

text \<open>No address twice, and a cursor inside the list (at 0 when it is empty).\<close>

definition wf_topology :: "TopologyInfo \<Rightarrow> bool" where
  "wf_topology t \<longleftrightarrow> distinct (map address (ti_servers t)) \<and>
     (ti_servers t = [] \<and> ti_roundRobinIndex t = 0 \<or> ti_roundRobinIndex t < length (ti_servers t))"

section \<open>Reading a topology update\<close>

lemma collectVInt_unfold:
  "collectVInt acc = bindM (receive 1) (\<lambda>byte.
     if byte ! 0 AND 0x80 = 0 then ret (acc @ [byte ! 0]) else collectVInt (acc @ [byte ! 0]))"
  by (rule ext) (auto simp: collectVInt.simps [of acc] bindM_def split: prod.splits outcome.splits)

lemma collectVInt_writeVar:
  fixes v :: "'a::len word"
  assumes "8 \<le> LENGTH('a)" and "holds c (writeVar [] v @ rest)"
  shows "yields c (collectVInt acc) (acc @ writeVar [] v) rest"
  using assms(2)
proof (induction v arbitrary: c acc rule: group_induct)
  case (small v)
  then have h: "holds c ([ucast v] @ rest)" by (simp add: writeVar_small)
  from small have b: "(ucast v :: byte) AND 0x80 = 0" by (simp add: last_byte)
  from small b show ?case unfolding collectVInt_unfold [of acc]
    by (intro sbyte.rd_bind [OF h]) (auto simp: writeVar_small intro: yields_ret)
next
  case (big v)
  then have h: "holds c ([ucast ((v AND 0x7F) OR 0x80)] @ writeVar [] (drop_bit 7 v) @ rest)"
    by (simp add: writeVar_Cons)
  from assms(1) have b: "(ucast ((v AND 0x7F) OR 0x80) :: byte) AND 0x80 \<noteq> 0" by (simp add: group_byte)
  show ?case unfolding collectVInt_unfold [of acc]
  proof (rule sbyte.rd_bind [OF h])
    fix d assume "holds d (writeVar [] (drop_bit 7 v) @ rest)"
    from big.IH [OF this, of "acc @ [ucast ((v AND 0x7F) OR 0x80)]"] b big.hyps
    show "yields d (if [ucast ((v AND 0x7F) OR 0x80) :: byte] ! 0 AND 0x80 = 0
        then ret (acc @ [[ucast ((v AND 0x7F) OR 0x80)] ! 0])
        else collectVInt (acc @ [[ucast ((v AND 0x7F) OR 0x80)] ! 0])) (acc @ writeVar [] v) rest"
      by (simp add: writeVar_Cons [of v])
  qed simp
qed

interpretation tvint: stream_primitive topoReadVInt "writeVInt []" "\<lambda>_. True"
proof unfold_locales
  fix v c rest assume h: "holds c (writeVInt [] v @ rest)"
  have r: "readVInt (writeVInt [] v) 0 = Ok (v, length (writeVInt [] v))"
    using readVInt_writeVInt [of "[]" v "[]"] by simp
  have y: "yields c (collectVInt []) (writeVInt [] v) rest"
    using collectVInt_writeVar [of c v rest "[]"] h by (simp add: writeVInt_def)
  have "liftO (bindO (readVInt (writeVInt [] v) 0) (\<lambda>(v, offset). Ok v)) = (ret v :: VInt conn)"
    by (simp add: r liftO_def ret_def)
  then show "yields c topoReadVInt v rest" unfolding topoReadVInt_def
    by (intro holds_bind [OF h y]) (simp add: yields_ret)
qed

interpretation tstring: stream_primitive topoReadString "writeString []" fits32
proof unfold_locales
  fix v :: string and c rest
  assume v: "fits32 v" and "holds c (writeString [] v @ rest)"
  then have h: "holds c (writeVInt [] (word_of_nat (length v)) @ bytes_of_string v @ rest)"
    by (cases "v = []") (auto simp: writeString_def bytes_of_string_def)
  have "yields d (if word_of_nat (length v) = (0 :: VInt) then ret []
      else bindM (receive (unat (word_of_nat (length v) :: VInt))) (\<lambda>bs. ret (string_of_bytes bs))) v rest"
    if "holds d (bytes_of_string v @ rest)" for d
    using that v
    by (auto simp: bytes_of_string_def [of "[]"] unat_length_word word_of_length_eq_0
        intro!: yields_ret holds_bind [OF that] receive_yields)
  then show "yields c topoReadString v rest"
    unfolding topoReadString_def by (rule tvint.rd_bind [OF h TrueI])
qed

abbreviation encodePort :: "16 word \<Rightarrow> byteArray" where
  "encodePort p \<equiv> [ucast (drop_bit 8 p), ucast p]"

lemma port_bytes: "push_bit 8 (ucast (ucast (drop_bit 8 p) :: byte)) OR ucast (ucast p :: byte) = (p :: 16 word)"
  by (rule bit_word_eqI) (auto simp: bit_simps dest: bit_imp_le_length)

interpretation tport: stream_primitive topoReadPort encodePort "\<lambda>_. True"
proof unfold_locales
  fix p c rest assume h: "holds c (encodePort p @ rest)"
  show "yields c topoReadPort p rest"
    unfolding topoReadPort_def
    by (rule holds_bind [OF h], erule receive_yields, simp, rule yields_ret, assumption) (simp add: port_bytes)
qed

text \<open>
  Sequencing on the parse state: the computation delivers a value and the state \<open>s'\<close>, and leaves
  \<open>rest\<close> unread on the connection.
\<close>

definition settles :: "ParseState \<Rightarrow> Connection \<Rightarrow> 'a parse \<Rightarrow> 'a \<Rightarrow> ParseState \<Rightarrow> byteArray \<Rightarrow> bool" where
  "settles s c m v s' rest \<longleftrightarrow> (\<exists>d. m (s, c) = (Ok v, s', d) \<and> same_conn c d \<and> avail d = rest)"

lemma settles_bind:
  assumes "settles s c m v s1 rest" and "cn_connected c"
    and "\<And>d. holds d rest \<Longrightarrow> settles s1 d (f v) w s2 rest'"
  shows "settles s c (bindM m f) w s2 rest'"
proof -
  from assms(1) obtain d where d: "m (s, c) = (Ok v, s1, d)" "same_conn c d" "avail d = rest"
    by (auto simp: settles_def)
  with assms(2) have "holds d rest" by (simp add: holds_def same_conn_connected)
  from assms(3) [OF this] obtain e where "f v (s1, d) = (Ok w, s2, e)"
    "same_conn d e" "avail e = rest'" by (auto simp: settles_def)
  with d show ?thesis by (auto simp: settles_def bindM_Ok intro: same_conn_trans)
qed

lemma settles_read:
  assumes "holds c xs" and "holds c xs \<Longrightarrow> yields c m v rest"
    and "\<And>d. holds d rest \<Longrightarrow> settles s d (f v) w s2 rest'"
  shows "settles s c (bindM (onConn m) f) w s2 rest'"
proof (rule settles_bind)
  from assms(1,2) show "settles s c (onConn m) v s rest"
    by (auto simp: settles_def yields_def onConn_def)
qed (use assms in \<open>auto simp: holds_def\<close>)

lemma settles_modify:
  "settles (g s) c (f ()) w s2 rest \<Longrightarrow> settles s c (bindM (modifyP g) f) w s2 rest"
  by (auto simp: settles_def modifyP_def bindM_def)

lemma settles_modify_last:
  "holds c rest \<Longrightarrow> s2 = g s \<Longrightarrow> settles s c (modifyP g) () s2 rest"
  by (auto simp: settles_def modifyP_def holds_def)

lemma settles_ret: "holds c rest \<Longrightarrow> v = w \<Longrightarrow> s = s' \<Longrightarrow> settles s c (ret v) w s' rest"
  by (simp add: settles_def ret_def holds_def)

lemma parseServers_settles:
  assumes "holds c (concat (map encodeAddress as) @ rest)" and "\<forall>a \<in> set as. fits32 (sa_host a)"
  shows "settles s c (parseServers (length as) i) ()
    (s\<lparr>ps_topology := (ps_topology s)\<lparr>ti_servers := foldl pushServer (ti_servers (ps_topology s))
        (map (\<lambda>j. \<lparr>si_host = sa_host (as ! j), si_port = sa_port (as ! j), si_hashId = i + word_of_nat j\<rparr>)
          [0..<length as])\<rparr>\<rparr>) rest"
  using assms
proof (induction as arbitrary: s c i)
  case Nil
  then show ?case by (auto intro: settles_ret)
next
  case (Cons a as)
  let ?s = "s\<lparr>ps_topology := (ps_topology s)\<lparr>ti_servers := pushServer (ti_servers (ps_topology s))
    \<lparr>si_host = sa_host a, si_port = sa_port a, si_hashId = i\<rparr>\<rparr>\<rparr>"
  let ?new = "map (\<lambda>j. \<lparr>si_host = sa_host (as ! j), si_port = sa_port (as ! j), si_hashId = i + 1 + word_of_nat j\<rparr>)
      [0..<length as]"
  let ?t = "?s\<lparr>ps_topology := (ps_topology ?s)\<lparr>ti_servers := foldl pushServer (ti_servers (ps_topology ?s)) ?new\<rparr>\<rparr>"
  from Cons.prems(1) have h: "holds c (writeString [] (sa_host a) @ encodePort (sa_port a) @
      concat (map encodeAddress as) @ rest)" by (simp add: encodeAddress_def [of a])
  have tail: "settles ?s d (parseServers (length as) (i + 1)) () ?t rest"
    if "holds d (concat (map encodeAddress as) @ rest)" for d
    using Cons.prems(2) by (intro Cons.IH [OF that]) simp
  have e: "map (\<lambda>j. \<lparr>si_host = sa_host ((a # as) ! j), si_port = sa_port ((a # as) ! j),
      si_hashId = i + word_of_nat j\<rparr>) [0..<length (a # as)] =
    \<lparr>si_host = sa_host a, si_port = sa_port a, si_hashId = i\<rparr> # ?new"
    by (simp only: length_Cons map_upt_Suc) (simp add: algebra_simps)
  have "settles s c (parseServers (length (a # as)) i) () ?t rest"
    using Cons.prems(2)
    by (simp only: length_Cons parseServers.simps)
      (rule settles_read [OF h], erule tstring.rd_enc [rotated], simp,
       rule settles_read, assumption, erule tport.rd_enc [OF TrueI],
       rule settles_modify, rule tail)
  then show ?case unfolding e by simp
qed

lemma parseSegments_settles:
  assumes "holds c (concat (map encodeOwners oss) @ rest)" and "\<forall>os \<in> set oss. length os < 256"
  shows "settles s c (parseSegments (length oss)) ()
    (s\<lparr>ps_topology := (ps_topology s)\<lparr>ti_segmentOwners := ti_segmentOwners (ps_topology s) @ oss\<rparr>\<rparr>) rest"
  using assms
proof (induction oss arbitrary: s c)
  case Nil
  then show ?case by (auto intro: settles_ret)
next
  case (Cons os oss)
  let ?s = "s\<lparr>ps_topology := (ps_topology s)\<lparr>ti_segmentOwners := ti_segmentOwners (ps_topology s) @ [os]\<rparr>\<rparr>"
  from Cons.prems(1) have h: "holds c ([word_of_nat (length os)] @ os @ concat (map encodeOwners oss) @ rest)"
    by (simp add: encodeOwners_def [of os])
  from Cons.prems(2) have n: "unat ([word_of_nat (length os) :: byte] ! 0) = length os"
    by (simp add: unsigned_of_nat take_bit_nat_eq_self)
  have tail: "settles ?s d (parseSegments (length oss)) () (?s\<lparr>ps_topology := (ps_topology ?s)\<lparr>ti_segmentOwners :=
      ti_segmentOwners (ps_topology ?s) @ oss\<rparr>\<rparr>) rest" if "holds d (concat (map encodeOwners oss) @ rest)" for d
    using Cons.prems(2) by (intro Cons.IH [OF that]) simp
  have "settles s c (parseSegments (length (os # oss))) () (?s\<lparr>ps_topology := (ps_topology ?s)\<lparr>ti_segmentOwners :=
      ti_segmentOwners (ps_topology ?s) @ oss\<rparr>\<rparr>) rest"
    by (simp only: length_Cons parseSegments.simps)
      (rule settles_read [OF h], erule receive_yields, simp,
       rule settles_read, assumption, erule receive_yields, simp only: n,
       rule settles_modify, rule tail)
  then show ?case by simp
qed

section \<open>Deduplication and hash ids\<close>

lemma address_serverAt [simp]: "address (serverAt as i) = as ! i"
  by (simp add: address_def serverAt_def)

lemma sameServer_iff: "sameServer x y \<longleftrightarrow> address x = address y"
  by (auto simp: sameServer_def address_def)

lemma pushServer_address: "pushServer ss s = (if address s \<in> address ` set ss then ss else ss @ [s])"
  by (auto simp: pushServer_def sameServer_iff intro: rev_image_eqI)

lemma foldl_pushServer:
  "k \<le> length as \<Longrightarrow> foldl pushServer [] (map (serverAt as) [0..<k]) =
      map (serverAt as) (filter (\<lambda>i. as ! i \<notin> set (take i as)) [0..<k]) \<and>
    address ` set (map (serverAt as) (filter (\<lambda>i. as ! i \<notin> set (take i as)) [0..<k])) = set (take k as)"
proof (induction k)
  case (Suc k)
  then have "k < length as" by simp
  then have "set (take (Suc k) as) = insert (as ! k) (set (take k as))" by (simp add: take_Suc_conv_app_nth)
  with Suc show ?case by (auto simp: pushServer_address)
qed simp

lemma serversOf_eq: "foldl pushServer [] (map (serverAt as) [0..<length as]) = serversOf as"
  using foldl_pushServer [of "length as" as] by (simp add: serversOf_def)

lemma address_serversOf: "address ` set (serversOf as) = set as"
  using foldl_pushServer [of "length as" as] by (simp add: serversOf_def)

lemma distinct_pushServer: "distinct (map address (pushServer ss s)) \<longleftrightarrow> distinct (map address ss)"
  by (auto simp: pushServer_address)

lemma distinct_foldl_pushServer:
  "distinct (map address (foldl pushServer ss xs)) \<longleftrightarrow> distinct (map address ss)"
  by (induction xs arbitrary: ss) (auto simp: distinct_pushServer)

lemma distinct_serversOf: "distinct (map address (serversOf as))"
  by (simp add: serversOf_eq [symmetric] distinct_foldl_pushServer)

lemma serversOf_distinct: "distinct as \<Longrightarrow> serversOf as = map (serverAt as) [0..<length as]"
  unfolding serversOf_def
  by (rule arg_cong [where f = "map (serverAt as)"], rule filter_True)
    (auto simp: in_set_conv_nth nth_eq_iff_index_eq)

lemma parseTopologyInfo_settles:
  assumes h: "holds c (encodeUpdate ci u @ rest)" and ok: "valid_update u"
  shows "\<exists>s'. settles s c (parseTopologyInfo ci) () s' rest \<and> ps_topology s' = topologyOf ci u (ps_topology s) \<and>
    (if ci = HASH_DISTRIBUTION_AWARE
     then ps_hashFunctionVersion s' = up_hashVersion u \<and> ps_segmentOwners s' = up_owners u \<and>
          ps_numSegments s' = word_of_nat (length (up_owners u))
     else ps_hashFunctionVersion s' = ps_hashFunctionVersion s \<and> ps_segmentOwners s' = ps_segmentOwners s \<and>
          ps_numSegments s' = ps_numSegments s)"
  (is "\<exists>s'. _ \<and> ?P s'")
proof -
  let ?as = "up_addresses u"
  let ?hash = "if ci = HASH_DISTRIBUTION_AWARE then [up_hashVersion u] @
      writeVInt [] (word_of_nat (length (up_owners u))) @ concat (map encodeOwners (up_owners u)) else []"
  have n: "unat (word_of_nat (length ?as) :: VInt) = length ?as"
    "unat (word_of_nat (length (up_owners u)) :: VInt) = length (up_owners u)"
    using ok by (simp_all add: valid_update_def unat_length_word)
  have hosts: "\<forall>a \<in> set ?as. fits32 (sa_host a)" and owners: "\<forall>os \<in> set (up_owners u). length os < 256"
    using ok by (simp_all add: valid_update_def)
  from h have h1: "holds c (writeVInt [] (up_topologyId u) @ writeVInt [] (word_of_nat (length ?as)) @
      concat (map encodeAddress ?as) @ ?hash @ rest)"
    by (simp add: encodeUpdate_def)
  let ?servers = "map (\<lambda>j. \<lparr>si_host = sa_host (?as ! j), si_port = sa_port (?as ! j),
      si_hashId = 0 + word_of_nat j\<rparr>) [0..<length ?as]"
  have "?servers = map (serverAt ?as) [0..<length ?as]" by (simp add: serverAt_def)
  then have servers: "foldl pushServer [] ?servers = serversOf ?as" by (simp only: serversOf_eq)
  show ?thesis
  proof (cases "ci = HASH_DISTRIBUTION_AWARE")
    case False
    show ?thesis
      unfolding parseTopologyInfo_def
      by (rule exI, rule conjI,
        rule settles_read [OF h1], erule tvint.rd_enc [OF TrueI], rule settles_modify,
        rule settles_read, assumption, erule tvint.rd_enc [OF TrueI], rule settles_modify,
        unfold n(1), rule settles_bind, erule parseServers_settles [OF _ hosts], simp add: holds_def,
        rule settles_modify, subst if_not_P [OF False], rule settles_ret, simp add: False, simp, rule refl)
       (use False servers in \<open>simp add: topologyOf_def\<close>)
  next
    case True
    then have hash: "?hash = [up_hashVersion u] @
      writeVInt [] (word_of_nat (length (up_owners u))) @ concat (map encodeOwners (up_owners u))" by simp
    note h2 = h1 [unfolded hash append_assoc]
    show ?thesis
      unfolding parseTopologyInfo_def
      by (rule exI, rule conjI,
        rule settles_read [OF h2], erule tvint.rd_enc [OF TrueI], rule settles_modify,
        rule settles_read, assumption, erule tvint.rd_enc [OF TrueI], rule settles_modify,
        unfold n(1), rule settles_bind, erule parseServers_settles [OF _ hosts], simp add: holds_def,
        rule settles_modify, subst if_P [OF True],
        rule settles_read, assumption, erule receive_yields, simp, rule settles_modify,
        rule settles_read, assumption, erule tvint.rd_enc [OF TrueI], rule settles_modify,
        unfold n(2), rule settles_bind, erule parseSegments_settles [OF _ owners], simp add: holds_def,
        rule settles_modify_last, assumption, rule refl)
       (use True servers in \<open>simp add: topologyOf_def\<close>)
  qed
qed


lemma receiveTopology_yields:
  assumes "holds c (encodeUpdate ci u @ rest)" and "valid_update u"
  shows "yields c (receiveTopology ci) (topologyOf ci u newTopologyInfo) rest"
  using parseTopologyInfo_settles [OF assms, of "\<lparr>ps_topology = newTopologyInfo, ps_hashFunctionVersion = 0,
      ps_numSegments = 0, ps_segmentOwners = []\<rparr>"]
  by (auto simp: settles_def yields_def receiveTopology_def)

definition announced :: "ClientIntelligence \<Rightarrow> Update option \<Rightarrow> TopologyInfo option" where
  "announced ci update = (if ci = BASIC then None else map_option (\<lambda>u. topologyOf ci u newTopologyInfo) update)"

lemma receiveResponseStart_yields:
  assumes "holds c (encodeResponseStart ci mid opc st update @ rest)" and "\<forall>u. update = Some u \<longrightarrow> valid_update u"
  shows "yields c (bindM (receive 1) (\<lambda>magic. if magic ! 0 = RESPONSE_MAGIC then receiveResponseStart ci else f magic))
    \<lparr>st_messageId = mid, st_opcode = opc, st_status = st, st_topology = announced ci update\<rparr> rest"
proof -
  let ?topo = "case update of None \<Rightarrow> [] | Some u \<Rightarrow> if ci = BASIC then [] else encodeUpdate ci u"
  let ?tail = "[opc, st, if update = None then 0 else 1]"
  from assms(1) have h: "holds c ([RESPONSE_MAGIC] @ writeVLong [] mid @ ?tail @ ?topo @ rest)"
    by (simp add: encodeResponseStart_def encodeResponseHeader_def)
  have topo: "yields d (if ?tail ! 2 \<noteq> 0 \<and> (ci = TOPOLOGY_AWARE \<or> ci = HASH_DISTRIBUTION_AWARE)
      then bindM (receiveTopology ci) (\<lambda>t. ret (Some t)) else ret None) (announced ci update) rest"
    if "holds d (?topo @ rest)" for d
    using that assms(2)
    by (cases ci; cases update) (auto simp: announced_def intro!: yields_ret holds_bind receiveTopology_yields)
  have start: "yields d (receiveResponseStart ci) \<lparr>st_messageId = mid, st_opcode = opc, st_status = st,
      st_topology = announced ci update\<rparr> rest" if "holds d (writeVLong [] mid @ ?tail @ ?topo @ rest)" for d
    unfolding receiveResponseStart_def
    by (rule svlong.rd_bind [OF that TrueI], rule holds_bind, assumption, erule receive_yields, simp,
        rule holds_bind, assumption, erule topo, erule yields_ret) simp
  show ?thesis by (rule sbyte.rd_bind [OF h]) (simp_all add: start)
qed

section \<open>The cursor\<close>

interpretation topo_rr: round_robin selectServer ti_roundRobinIndex ti_servers
  by unfold_locales (auto simp: selectServer_def)

lemma selectServer_UB_iff:
  "selectServer t = UB \<longleftrightarrow> ti_servers t \<noteq> [] \<and> length (ti_servers t) \<le> ti_roundRobinIndex t"
  by (auto simp: selectServer_def)

lemma wf_topologyOf: "wf_topology (topologyOf ci u t)"
  by (auto simp: wf_topology_def topologyOf_def Let_def distinct_serversOf)

lemma wf_addServer: "wf_topology t \<Longrightarrow> wf_topology (addServer s t)"
  by (auto simp: wf_topology_def addServer_def distinct_pushServer) (auto simp: pushServer_def split: if_splits)

lemma wf_selectServer:
  assumes "wf_topology t"
  shows "\<exists>x t'. selectServer t = Ok (x, t') \<and> wf_topology t' \<and> ti_servers t' = ti_servers t \<and>
    (x = None \<longleftrightarrow> ti_servers t = [])"
  using assms by (auto simp: wf_topology_def selectServer_def intro: mod_length_less)

lemma wf_newTopologyInfo: "wf_topology newTopologyInfo"
  by (simp add: wf_topology_def newTopologyInfo_def)

lemma wf_clearServers: "wf_topology (clearServers t)"
  by (simp add: wf_topology_def clearServers_def)

lemma set_removeServer: "set (ti_servers (removeServer host port t)) =
    {x \<in> set (ti_servers t). address x \<noteq> \<lparr>sa_host = host, sa_port = port\<rparr>}"
  by (auto simp: removeServer_def address_def)

text \<open>What a parser may do to the object it fills, however it ends.\<close>

definition cursorKept :: "ParseState \<times> Connection \<Rightarrow> ParseState \<times> Connection \<Rightarrow> bool" where
  "cursorKept p q \<longleftrightarrow>
     (distinct (map address (ti_servers (ps_topology (fst p)))) \<longrightarrow> distinct (map address (ti_servers (ps_topology (fst q))))) \<and>
     ti_roundRobinIndex (ps_topology (fst q)) \<in> {0, ti_roundRobinIndex (ps_topology (fst p))}"

lemma cursorKept_trans: "cursorKept p q \<Longrightarrow> cursorKept q r \<Longrightarrow> cursorKept p r"
  by (auto simp: cursorKept_def)

lemma cursorKept_basic:
  "keeps cursorKept (onConn f)" "keeps cursorKept (ret a)"
  "(\<And>s c. cursorKept (s, c) (h s, c)) \<Longrightarrow> keeps cursorKept (modifyP h)"
  by (auto simp: keeps_def onConn_def ret_def modifyP_def cursorKept_def split: prod.splits)

lemma cursorKept_changes:
  "cursorKept (s, c) (s\<lparr>ps_topology := (ps_topology s)\<lparr>ti_topologyId := tid\<rparr>\<rparr>, c)"
  "cursorKept (s, c) (s\<lparr>ps_topology := (ps_topology s)\<lparr>ti_servers := []\<rparr>\<rparr>, c)"
  "cursorKept (s, c) (s\<lparr>ps_topology := (ps_topology s)\<lparr>ti_servers := pushServer (ti_servers (ps_topology s)) x\<rparr>\<rparr>, c)"
  "cursorKept (s, c) (s\<lparr>ps_topology := (ps_topology s)\<lparr>ti_roundRobinIndex := 0\<rparr>\<rparr>, c)"
  "cursorKept (s, c) (s\<lparr>ps_topology := (ps_topology s)\<lparr>ti_hashFunctionVersion := v\<rparr>, ps_hashFunctionVersion := v\<rparr>, c)"
  "cursorKept (s, c) (s\<lparr>ps_topology := (ps_topology s)\<lparr>ti_numSegments := n, ti_segmentOwners := []\<rparr>, ps_numSegments := n\<rparr>, c)"
  "cursorKept (s, c) (s\<lparr>ps_topology := (ps_topology s)\<lparr>ti_segmentOwners := ti_segmentOwners (ps_topology s) @ [os]\<rparr>\<rparr>, c)"
  "cursorKept (s, c) (s\<lparr>ps_segmentOwners := ti_segmentOwners (ps_topology s)\<rparr>, c)"
  by (simp_all add: cursorKept_def distinct_pushServer)

lemmas cursorKept_intros = keeps_bind [OF cursorKept_trans] keeps_if cursorKept_basic cursorKept_changes

lemma parseServers_cursor: "keeps cursorKept (parseServers n i)"
  by (induction n arbitrary: i) (simp_all only: parseServers.simps, (intro cursorKept_intros; assumption)+)

lemma parseSegments_cursor: "keeps cursorKept (parseSegments n)"
  by (induction n) (simp_all only: parseSegments.simps, (intro cursorKept_intros; assumption)+)

lemma parseTopologyInfo_cursor: "keeps cursorKept (parseTopologyInfo ci)"
  unfolding parseTopologyInfo_def by (intro cursorKept_intros parseServers_cursor parseSegments_cursor)

definition resets :: "'a parse \<Rightarrow> bool" where
  "resets f \<longleftrightarrow> (\<forall>p a q. f p = (Ok a, q) \<longrightarrow> ti_roundRobinIndex (ps_topology (fst q)) = 0)"

lemma resets_bind: "(\<And>a. resets (g a)) \<Longrightarrow> resets (bindM f g)"
  unfolding resets_def bindM_eq_Ok_iff by blast

lemma resets_here:
  assumes "keeps cursorKept (k ())"
  shows "resets (bindM (modifyP (\<lambda>s. s\<lparr>ps_topology := (ps_topology s)\<lparr>ti_roundRobinIndex := 0\<rparr>\<rparr>)) k)"
  unfolding resets_def bindM_eq_Ok_iff
proof (intro allI impI, elim exE conjE)
  fix p a q u p' assume "modifyP (\<lambda>s. s\<lparr>ps_topology := (ps_topology s)\<lparr>ti_roundRobinIndex := 0\<rparr>\<rparr>) p = (Ok u, p')" "k u p' = (Ok a, q)"
  moreover from this(1) have "ti_roundRobinIndex (ps_topology (fst p')) = 0" by (cases p) (auto simp: modifyP_def)
  moreover have "cursorKept p' (snd (k u p'))" using assms unfolding keeps_def by (simp del: split_paired_All)
  ultimately show "ti_roundRobinIndex (ps_topology (fst q)) = 0" by (simp add: cursorKept_def)
qed

lemma parseTopologyInfo_resets: "resets (parseTopologyInfo ci)"
  unfolding parseTopologyInfo_def
  by (intro resets_here cursorKept_intros parseSegments_cursor | rule resets_bind)+

section \<open>Properties\<close>

text \<open>
  C29: Parsing a topology update a server encodes delivers exactly the update and consumes exactly its
  bytes: the topology id, the servers in wire order without repeated addresses, each with its
  position in the transmitted list as its hash id, the cursor at 0, and for a hash-distribution-aware
  client the hash version and the owners of every segment; for other clients the hash fields keep
  their values. With distinct addresses, server i is the i-th address with hash id i.
\<close>

theorem topology_update_parsed:
  assumes "holds c (encodeUpdate ci u @ rest)" and "valid_update u"
  shows "\<exists>s' c'. parseTopologyInfo ci (s, c) = (Ok (), s', c') \<and> same_conn c c' \<and> avail c' = rest \<and>
      ps_topology s' = topologyOf ci u (ps_topology s) \<and>
      (ci = HASH_DISTRIBUTION_AWARE \<longrightarrow> ps_hashFunctionVersion s' = up_hashVersion u \<and>
         ps_segmentOwners s' = up_owners u \<and> ps_numSegments s' = word_of_nat (length (up_owners u))) \<and>
      wf_topology (ps_topology s') \<and> address ` set (ti_servers (ps_topology s')) = set (up_addresses u) \<and>
      (distinct (up_addresses u) \<longrightarrow>
         ti_servers (ps_topology s') = map (serverAt (up_addresses u)) [0..<length (up_addresses u)])"
proof -
  from parseTopologyInfo_settles [OF assms, of s] obtain s' c' where
    "parseTopologyInfo ci (s, c) = (Ok (), s', c') \<and> same_conn c c' \<and> avail c' = rest"
    "ps_topology s' = topologyOf ci u (ps_topology s)"
    "ci = HASH_DISTRIBUTION_AWARE \<longrightarrow> ps_hashFunctionVersion s' = up_hashVersion u \<and>
         ps_segmentOwners s' = up_owners u \<and> ps_numSegments s' = word_of_nat (length (up_owners u))"
    by (auto simp: settles_def split: if_splits)
  moreover have "ti_servers (topologyOf ci u t) = serversOf (up_addresses u)" for t
    by (simp add: topologyOf_def Let_def)
  ultimately show ?thesis
    using serversOf_distinct [of "up_addresses u"] by (auto simp: wf_topologyOf address_serversOf)
qed

theorem topology_update_parsed_witness:
  "let u = \<lparr>up_topologyId = 7, up_addresses = [\<lparr>sa_host = ''a'', sa_port = 11222\<rparr>], up_hashVersion = 3,
        up_owners = [[0], []]\<rparr>;
       c = (newConnection ''h'' 1 [RecvData (encodeUpdate HASH_DISTRIBUTION_AWARE u @ [9])] [])\<lparr>cn_connected := True\<rparr>
   in \<exists>s' c'. parseTopologyInfo HASH_DISTRIBUTION_AWARE
        (\<lparr>ps_topology = newTopologyInfo, ps_hashFunctionVersion = 0, ps_numSegments = 0, ps_segmentOwners = []\<rparr>, c) =
        (Ok (), s', c') \<and> avail c' = [9] \<and>
      ps_topology s' = \<lparr>ti_topologyId = 7, ti_servers = [\<lparr>si_host = ''a'', si_port = 11222, si_hashId = 0\<rparr>],
        ti_roundRobinIndex = 0, ti_hashFunctionVersion = 3, ti_numSegments = 2, ti_segmentOwners = [[0], []]\<rparr>"
proof -
  let ?u = "\<lparr>up_topologyId = 7, up_addresses = [\<lparr>sa_host = ''a'', sa_port = 11222\<rparr>], up_hashVersion = 3,
        up_owners = [[0], []]\<rparr> :: Update"
  let ?c = "(newConnection ''h'' 1 [RecvData (encodeUpdate HASH_DISTRIBUTION_AWARE ?u @ [9])] [])\<lparr>cn_connected := True\<rparr>"
  let ?s = "\<lparr>ps_topology = newTopologyInfo, ps_hashFunctionVersion = 0, ps_numSegments = 0, ps_segmentOwners = []\<rparr>"
  have h: "holds ?c (encodeUpdate HASH_DISTRIBUTION_AWARE ?u @ [9])"
    by (simp add: holds_def avail_def newConnection_def)
  have v: "valid_update ?u" by (simp add: valid_update_def)
  have t: "topologyOf HASH_DISTRIBUTION_AWARE ?u newTopologyInfo =
     \<lparr>ti_topologyId = 7, ti_servers = [\<lparr>si_host = ''a'', si_port = 11222, si_hashId = 0\<rparr>],
        ti_roundRobinIndex = 0, ti_hashFunctionVersion = 3, ti_numSegments = 2, ti_segmentOwners = [[0], []]\<rparr>"
    by (simp add: topologyOf_def newTopologyInfo_def serversOf_def serverAt_def Let_def upt_rec)
  from topology_update_parsed [OF h v, of ?s] obtain s' c' where
    "parseTopologyInfo HASH_DISTRIBUTION_AWARE (?s, ?c) = (Ok (), s', c')" "avail c' = [9]"
    "ps_topology s' = topologyOf HASH_DISTRIBUTION_AWARE ?u newTopologyInfo" by auto
  then show ?thesis unfolding Let_def t by blast
qed

text \<open>
  C37: The server list of a topology and its cursor, under every operation. The list never holds an address twice. The
  constructor, addServer, clearServers, setTopologyId and selectServer keep the cursor inside the list; selectServer then returns
  nullptr exactly on an empty list and is never out of range, and n calls on n servers visit each of them once.
  removeServer leaves the cursor where it is, so the next selectServer is out of range exactly when the cursor points behind the
  shortened, non-empty list. parseTopologyInfo sets the cursor to 0 when it returns; when it throws between clearing the
  servers and that, the old cursor stays, and selectServer is out of range when it points behind the servers read so far. (The
  read loop parses into a fresh object, whose cursor is 0: there it stays inside however the parser ends.)
\<close>

theorem topology_cursor:
  "wf_topology newTopologyInfo \<and>
   (wf_topology t \<longrightarrow> wf_topology (addServer s t) \<and> wf_topology (clearServers t) \<and> wf_topology (setTopologyId tid t) \<and>
      (\<exists>x t'. selectServer t = Ok (x, t') \<and> wf_topology t' \<and> ti_servers t' = ti_servers t \<and>
         (x = None \<longleftrightarrow> ti_servers t = [])) \<and>
      (ti_servers t \<noteq> [] \<longrightarrow> (\<exists>t'. selectTimes selectServer (length (ti_servers t)) t =
         Ok (map Some (rotate (ti_roundRobinIndex t) (ti_servers t)), t'))) \<and>
      distinct (map address (ti_servers (removeServer host port t))) \<and>
      set (ti_servers (removeServer host port t)) =
        {x \<in> set (ti_servers t). address x \<noteq> \<lparr>sa_host = host, sa_port = port\<rparr>} \<and>
      (selectServer (removeServer host port t) = UB \<longleftrightarrow>
        ti_servers (removeServer host port t) \<noteq> [] \<and>
        length (ti_servers (removeServer host port t)) \<le> ti_roundRobinIndex t)) \<and>
   (wf_topology (ps_topology p) \<and> parseTopologyInfo ci (p, c) = (r, q, d) \<longrightarrow>
      distinct (map address (ti_servers (ps_topology q))) \<and>
      (r = Ok () \<or> ti_roundRobinIndex (ps_topology p) = 0 \<longrightarrow> wf_topology (ps_topology q) \<and> ti_roundRobinIndex (ps_topology q) = 0) \<and>
      (selectServer (ps_topology q) = UB \<longrightarrow> r \<noteq> Ok () \<and> ti_roundRobinIndex (ps_topology q) = ti_roundRobinIndex (ps_topology p) \<and>
        ti_servers (ps_topology q) \<noteq> [] \<and> length (ti_servers (ps_topology q)) \<le> ti_roundRobinIndex (ps_topology p)))"
proof (intro conjI impI)
  assume wf: "wf_topology t" and ne: "ti_servers t \<noteq> []"
  then show "\<exists>t'. selectTimes selectServer (length (ti_servers t)) t =
         Ok (map Some (rotate (ti_roundRobinIndex t) (ti_servers t)), t')"
    using topo_rr.full_round [of t] by (auto simp: wf_topology_def)
next
  assume "wf_topology t"
  then show "distinct (map address (ti_servers (removeServer host port t)))"
    by (simp add: removeServer_def wf_topology_def distinct_map_filter)
next
  show "selectServer (removeServer host port t) = UB \<longleftrightarrow>
      ti_servers (removeServer host port t) \<noteq> [] \<and>
      length (ti_servers (removeServer host port t)) \<le> ti_roundRobinIndex t"
    unfolding selectServer_UB_iff by (simp add: removeServer_def)
next
  assume "wf_topology t"
  then show "wf_topology (setTopologyId tid t)" by (simp add: wf_topology_def setTopologyId_def)
next
  assume a: "wf_topology (ps_topology p) \<and> parseTopologyInfo ci (p, c) = (r, q, d)"
  then have k: "cursorKept (p, c) (q, d)" using parseTopologyInfo_cursor [of ci] unfolding keeps_def by (metis snd_conv)
  with a show dist: "distinct (map address (ti_servers (ps_topology q)))" by (simp add: cursorKept_def wf_topology_def)
  have ok: "r = Ok () \<Longrightarrow> ti_roundRobinIndex (ps_topology q) = 0" using a parseTopologyInfo_resets [of ci] by (auto simp: resets_def)
  { assume "r = Ok () \<or> ti_roundRobinIndex (ps_topology p) = 0"
    with ok k show "ti_roundRobinIndex (ps_topology q) = 0" by (auto simp: cursorKept_def)
    with dist show "wf_topology (ps_topology q)" by (simp add: wf_topology_def) }
  { assume "selectServer (ps_topology q) = UB"
    then have u: "ti_servers (ps_topology q) \<noteq> []" "length (ti_servers (ps_topology q)) \<le> ti_roundRobinIndex (ps_topology q)"
      by (simp_all add: selectServer_UB_iff)
    then have "ti_roundRobinIndex (ps_topology q) \<noteq> 0" by (metis le_zero_eq length_0_conv)
    with k show i: "ti_roundRobinIndex (ps_topology q) = ti_roundRobinIndex (ps_topology p)" by (auto simp: cursorKept_def)
    with u ok \<open>ti_roundRobinIndex (ps_topology q) \<noteq> 0\<close> show "r \<noteq> Ok ()" "ti_servers (ps_topology q) \<noteq> []"
      "length (ti_servers (ps_topology q)) \<le> ti_roundRobinIndex (ps_topology p)" by auto }
qed (rule wf_newTopologyInfo wf_addServer wf_clearServers wf_selectServer set_removeServer, assumption?)+

text \<open>An object whose cursor stands on the second server, and an update that breaks off behind the first.\<close>

definition staleParse :: "ParseState \<times> Connection" where
  "staleParse = (\<lparr>ps_topology = \<lparr>ti_topologyId = 1, ti_servers = [\<lparr>si_host = ''a'', si_port = 1, si_hashId = 0\<rparr>,
        \<lparr>si_host = ''b'', si_port = 1, si_hashId = 1\<rparr>], ti_roundRobinIndex = 1,
        ti_hashFunctionVersion = 0, ti_numSegments = 0, ti_segmentOwners = []\<rparr>, ps_hashFunctionVersion = 0, ps_numSegments = 0,
      ps_segmentOwners = []\<rparr>, (newConnection ''h'' 1 [RecvData [2, 2, 1, 99, 0, 1], RecvClosed] [])\<lparr>cn_connected := True\<rparr>)"

lemma staleParse_throws:
  "fst (parseTopologyInfo TOPOLOGY_AWARE staleParse) = Throw (RuntimeError ''Connection closed by peer'') \<and>
   selectServer (ps_topology (fst (snd (parseTopologyInfo TOPOLOGY_AWARE staleParse)))) = UB"
  by code_simp

theorem topology_cursor_witness:
  "wf_topology (ps_topology (fst staleParse)) \<and>
   selectServer (removeServer ''b'' 1 (ps_topology (fst staleParse))) = UB \<and>
   (\<exists>q d. parseTopologyInfo TOPOLOGY_AWARE staleParse = (Throw (RuntimeError ''Connection closed by peer''), q, d) \<and>
     selectServer (ps_topology q) = UB \<and> distinct (map address (ti_servers (ps_topology q))) \<and>
     length (ti_servers (ps_topology q)) \<le> 1)"
proof -
  let ?t = "ps_topology (fst staleParse)"
  have wf: "wf_topology ?t" by (simp add: wf_topology_def address_def staleParse_def)
  moreover have "ti_servers (removeServer ''b'' 1 ?t) \<noteq> [] \<and>
      length (ti_servers (removeServer ''b'' 1 ?t)) \<le> ti_roundRobinIndex ?t" by (simp add: removeServer_def staleParse_def)
  moreover obtain q d where "parseTopologyInfo TOPOLOGY_AWARE (fst staleParse, snd staleParse) =
      (Throw (RuntimeError ''Connection closed by peer''), q, d)" "selectServer (ps_topology q) = UB"
    using staleParse_throws by (cases "parseTopologyInfo TOPOLOGY_AWARE staleParse") auto
  ultimately show ?thesis
    using topology_cursor [of ?t undefined undefined "''b''" 1 "fst staleParse" TOPOLOGY_AWARE "snd staleParse"]
    by (fastforce simp: staleParse_def)
qed

end
