(* ===== verification/Scram.thy ===== *)
theory Scram
  imports Errors
begin

text \<open>
  include/hotrod/SCRAM.h and src/auth/SCRAM.cpp: the messages of a SCRAM exchange (RFC 5802) and the
  computation and checking of its proofs. OpenSSL is not part of the repository: the functions the
  code calls are the fields of a \<open>Crypto\<close> record every definition takes, with \<open>None\<close> for the
  error return; what the code relies on is \<open>crypto_laws\<close>. std::getline and std::stoi are modelled.
\<close>

datatype Digest = SHA1 | SHA256 | SHA512

record Crypto =
  PKCS5_PBKDF2_HMAC :: "Digest \<Rightarrow> byteArray \<Rightarrow> byteArray \<Rightarrow> int \<Rightarrow> byteArray option"
  HMAC :: "Digest \<Rightarrow> byteArray \<Rightarrow> byteArray \<Rightarrow> byteArray option"
  EVP_Digest :: "Digest \<Rightarrow> byteArray \<Rightarrow> byteArray option"
  b64Encode :: "byteArray \<Rightarrow> string"
  b64Decode :: "string \<Rightarrow> byteArray option"
  RAND_bytes :: "nat \<Rightarrow> byteArray option"

definition EVP_MD_size :: "Digest \<Rightarrow> nat" where
  "EVP_MD_size d = (case d of SHA1 \<Rightarrow> 20 | SHA256 \<Rightarrow> 32 | SHA512 \<Rightarrow> 64)"

text \<open>An error return becomes the exception the code throws.\<close>

definition orThrow :: "string \<Rightarrow> 'a option \<Rightarrow> (exn, 'a) outcome" where
  "orThrow m r = (case r of Some x \<Rightarrow> Ok x | None \<Rightarrow> Throw (RuntimeError m))"

definition digestForMechanism :: "string \<Rightarrow> (exn, Digest) outcome" where
  "digestForMechanism mechanism =
     (if mechanism = ''SCRAM-SHA-1'' then Ok SHA1
      else if mechanism = ''SCRAM-SHA-256'' then Ok SHA256
      else if mechanism = ''SCRAM-SHA-512'' then Ok SHA512
      else Throw (RuntimeError (''Unsupported SASL mechanism: '' @ mechanism)))"

section \<open>Primitives\<close>

definition base64Encode :: "Crypto \<Rightarrow> byteArray \<Rightarrow> string" where
  "base64Encode cr data = b64Encode cr data"

definition base64Decode :: "Crypto \<Rightarrow> string \<Rightarrow> (exn, byteArray) outcome" where
  "base64Decode cr encoded = orThrow ''SCRAM::base64Decode: Decoding failed'' (b64Decode cr encoded)"

definition generateNonce :: "Crypto \<Rightarrow> nat \<Rightarrow> (exn, string) outcome" where
  "generateNonce cr len =
     bindO (orThrow ''SCRAM::generateNonce: Failed to generate random bytes'' (RAND_bytes cr len))
       (\<lambda>randomBytes. Ok (base64Encode cr randomBytes))"

definition pbkdf2 :: "Crypto \<Rightarrow> string \<Rightarrow> byteArray \<Rightarrow> int \<Rightarrow> Digest \<Rightarrow> (exn, byteArray) outcome" where
  "pbkdf2 cr password salt iterations d =
     orThrow ''SCRAM::pbkdf2: PBKDF2 derivation failed''
       (PKCS5_PBKDF2_HMAC cr d (bytes_of_string password) salt iterations)"

definition hmac :: "Crypto \<Rightarrow> byteArray \<Rightarrow> byteArray \<Rightarrow> Digest \<Rightarrow> (exn, byteArray) outcome" where
  "hmac cr key msg d = orThrow ''SCRAM::hmac: HMAC computation failed'' (HMAC cr d key msg)"

definition hmacString :: "Crypto \<Rightarrow> byteArray \<Rightarrow> string \<Rightarrow> Digest \<Rightarrow> (exn, byteArray) outcome" where
  "hmacString cr key msg d = hmac cr key (bytes_of_string msg) d"

definition hash :: "Crypto \<Rightarrow> byteArray \<Rightarrow> Digest \<Rightarrow> (exn, byteArray) outcome" where
  "hash cr data d = orThrow ''SCRAM::hash: digest computation failed'' (EVP_Digest cr d data)"

definition xorBytes :: "byteArray \<Rightarrow> byteArray \<Rightarrow> (exn, byteArray) outcome" where
  "xorBytes a b =
     (if length a \<noteq> length b then Throw (RuntimeError ''SCRAM::xorBytes: Arrays must be same size'')
      else Ok (map2 (XOR) a b))"

definition saslPrep :: "string \<Rightarrow> (exn, string) outcome" where
  "saslPrep input =
     (if CHR 0x00 \<in> set input then Throw (RuntimeError ''SCRAM::saslPrep: Null character not allowed'')
      else Ok input)"

section \<open>The standard library functions of the parser\<close>

text \<open>
  The tokens successive std::getline calls with delimiter ',' deliver: a delimiter at the very end
  is not followed by an empty token.
\<close>

function getlineTokens :: "string \<Rightarrow> string list" where
  "getlineTokens [] = []"
| "getlineTokens (c # cs) =
     takeWhile (\<lambda>x. x \<noteq> CHR '','') (c # cs) # getlineTokens (tl (dropWhile (\<lambda>x. x \<noteq> CHR '','') (c # cs)))"
  by pat_completeness auto

termination getlineTokens
proof (relation "measure length", goal_cases)
  case (2 c cs)
  have "length (dropWhile (\<lambda>x. x \<noteq> CHR '','') (c # cs)) \<le> length (c # cs)" by (rule length_dropWhile_le)
  then show ?case by simp
qed simp

definition isDigit :: "char \<Rightarrow> bool" where
  "isDigit c \<longleftrightarrow> 48 \<le> (of_char c :: nat) \<and> (of_char c :: nat) \<le> 57"

definition isSpace :: "char \<Rightarrow> bool" where
  "isSpace c \<longleftrightarrow> (of_char c :: nat) = 32 \<or> 9 \<le> (of_char c :: nat) \<and> (of_char c :: nat) \<le> 13"

definition digitsValue :: "string \<Rightarrow> int" where
  "digitsValue ds = int (foldl (\<lambda>a c. 10 * a + (of_char c - 48)) 0 ds)"

text \<open>std::stoi: leading white space, a sign, then the longest run of digits, which must not be empty.\<close>

definition stoi :: "string \<Rightarrow> (exn, int) outcome" where
  "stoi s =
     (let s = dropWhile isSpace s;
          (neg, s) = (case s of c # cs \<Rightarrow> if c = CHR ''-'' then (True, cs)
                                          else if c = CHR ''+'' then (False, cs) else (False, s)
                              | [] \<Rightarrow> (False, s));
          ds = takeWhile isDigit s;
          v = (if neg then - digitsValue ds else digitsValue ds)
      in if ds = [] then Throw InvalidArgument
         else if v < - (2 ^ 31) \<or> v \<ge> 2 ^ 31 then Throw OutOfRange
         else Ok v)"

section \<open>Messages\<close>

definition createClientFirstMessage :: "string \<Rightarrow> string \<Rightarrow> string" where
  "createClientFirstMessage username nonce = ''n,,n='' @ username @ '',r='' @ nonce"

record ServerFirst =
  sf_nonce :: string
  sf_salt :: string
  sf_iterations :: int

text \<open>One turn of the token loop: tokens without "=" in second place and unknown keys are skipped.\<close>

definition serverFirstToken :: "ServerFirst \<Rightarrow> string \<Rightarrow> (exn, ServerFirst) outcome" where
  "serverFirstToken out token =
     (if length token < 2 \<or> token ! 1 \<noteq> CHR ''='' then Ok out
      else
        let key = token ! 0; value = drop 2 token
        in if key = CHR ''r'' then Ok (out\<lparr>sf_nonce := value\<rparr>)
           else if key = CHR ''s'' then Ok (out\<lparr>sf_salt := value\<rparr>)
           else if key = CHR ''i'' then bindO (stoi value) (\<lambda>i. Ok (out\<lparr>sf_iterations := i\<rparr>))
           else Ok out)"

fun serverFirstTokens :: "ServerFirst \<Rightarrow> string list \<Rightarrow> (exn, ServerFirst) outcome" where
  "serverFirstTokens out [] = Ok out"
| "serverFirstTokens out (token # tokens) =
     bindO (serverFirstToken out token) (\<lambda>out. serverFirstTokens out tokens)"

definition parseServerFirstMessage :: "string \<Rightarrow> ServerFirst \<Rightarrow> (exn, ServerFirst) outcome" where
  "parseServerFirstMessage msg out =
     bindO (serverFirstTokens out (getlineTokens msg)) (\<lambda>out.
       if sf_nonce out = [] \<or> sf_salt out = [] \<or> sf_iterations out = 0
       then Throw (RuntimeError ''SCRAM::parseServerFirstMessage: Invalid server message'')
       else Ok out)"

definition createClientFinalMessage ::
  "Crypto \<Rightarrow> string \<Rightarrow> string \<Rightarrow> string \<Rightarrow> string \<Rightarrow> string \<Rightarrow> int \<Rightarrow> Digest \<Rightarrow> (exn, string) outcome" where
  "createClientFinalMessage cr password clientFirstMessageBare serverFirstMessage nonce salt iterations d =
     (let channelBinding = ''biws'';
          clientFinalWithoutProof = ''c='' @ channelBinding @ '',r='' @ nonce;
          authMessage = clientFirstMessageBare @ '','' @ serverFirstMessage @ '','' @ clientFinalWithoutProof
      in bindO (base64Decode cr salt) (\<lambda>saltBytes.
         bindO (pbkdf2 cr password saltBytes iterations d) (\<lambda>saltedPassword.
         bindO (hmacString cr saltedPassword ''Client Key'' d) (\<lambda>clientKey.
         bindO (hash cr clientKey d) (\<lambda>storedKey.
         bindO (hmacString cr storedKey authMessage d) (\<lambda>clientSignature.
         bindO (xorBytes clientKey clientSignature) (\<lambda>clientProof.
           Ok (clientFinalWithoutProof @ '',p='' @ base64Encode cr clientProof))))))))"

definition verifyServerFinalMessage ::
  "Crypto \<Rightarrow> string \<Rightarrow> string \<Rightarrow> string \<Rightarrow> string \<Rightarrow> int \<Rightarrow> Digest \<Rightarrow> (exn, bool) outcome" where
  "verifyServerFinalMessage cr msg password authMessage salt iterations d =
     (if length msg < 2 \<or> msg ! 0 \<noteq> CHR ''v'' \<or> msg ! 1 \<noteq> CHR ''='' then Ok False
      else
        let serverSignatureB64 = drop 2 msg
        in bindO (base64Decode cr salt) (\<lambda>saltBytes.
           bindO (pbkdf2 cr password saltBytes iterations d) (\<lambda>saltedPassword.
           bindO (hmacString cr saltedPassword ''Server Key'' d) (\<lambda>serverKey.
           bindO (hmacString cr serverKey authMessage d) (\<lambda>expectedSignature.
           bindO (base64Decode cr serverSignatureB64) (\<lambda>receivedSignature.
             Ok (expectedSignature = receivedSignature)))))))"

section \<open>What the code relies on, and the server's side\<close>

text \<open>
  Documented behaviour of OpenSSL: HMAC returns as many bytes as the digest has, base64 text has no
  comma, and decoding the encoding of one to 64 bytes gives them back.
\<close>

definition crypto_laws :: "Crypto \<Rightarrow> bool" where
  "crypto_laws cr \<longleftrightarrow>
     (\<forall>d key msg r. HMAC cr d key msg = Some r \<longrightarrow> length r = EVP_MD_size d) \<and>
     (\<forall>bs. CHR '','' \<notin> set (b64Encode cr bs)) \<and>
     (\<forall>bs. bs \<noteq> [] \<and> length bs \<le> 64 \<longrightarrow> b64Decode cr (b64Encode cr bs) = Some bs)"

text \<open>
  The server stores, per user, StoredKey and ServerKey (RFC 5802, section 3); it accepts a proof when
  the client key recovered from it hashes to StoredKey, and signs with ServerKey.
\<close>

definition credentials :: "Crypto \<Rightarrow> Digest \<Rightarrow> string \<Rightarrow> byteArray \<Rightarrow> int \<Rightarrow> (byteArray \<times> byteArray) option" where
  "credentials cr d password salt iterations =
     Option.bind (PKCS5_PBKDF2_HMAC cr d (bytes_of_string password) salt iterations) (\<lambda>sp.
     Option.bind (HMAC cr d sp (bytes_of_string ''Client Key'')) (\<lambda>ck.
     Option.bind (EVP_Digest cr d ck) (\<lambda>stored.
     Option.bind (HMAC cr d sp (bytes_of_string ''Server Key'')) (\<lambda>sk. Some (stored, sk)))))"

definition serverAccepts :: "Crypto \<Rightarrow> Digest \<Rightarrow> byteArray \<Rightarrow> string \<Rightarrow> string \<Rightarrow> bool" where
  "serverAccepts cr d storedKey authMessage proofB64 =
     (case (b64Decode cr proofB64, HMAC cr d storedKey (bytes_of_string authMessage)) of
        (Some proof, Some sig) \<Rightarrow> length proof = length sig \<and>
          EVP_Digest cr d (map2 (XOR) proof sig) = Some storedKey
      | _ \<Rightarrow> False)"

definition encodeServerFinal :: "Crypto \<Rightarrow> Digest \<Rightarrow> byteArray \<Rightarrow> string \<Rightarrow> string option" where
  "encodeServerFinal cr d serverKey authMessage =
     map_option (\<lambda>sig. ''v='' @ b64Encode cr sig) (HMAC cr d serverKey (bytes_of_string authMessage))"

definition encodeServerFirst :: "string \<Rightarrow> string \<Rightarrow> nat \<Rightarrow> string" where
  "encodeServerFirst nonce salt iterations =
     ''r='' @ nonce @ '',s='' @ salt @ '',i='' @ to_string iterations"

section \<open>Reading messages\<close>

lemma getlineTokens_Cons:
  assumes "CHR '','' \<notin> set t" and "t \<noteq> []"
  shows "getlineTokens (t @ CHR '','' # rest) = t # getlineTokens rest"
proof -
  from assms(2) obtain c cs where t: "t @ CHR '','' # rest = c # cs" by (cases t) auto
  have "takeWhile (\<lambda>x. x \<noteq> CHR '','') (t @ CHR '','' # rest) = t"
    using assms(1) by (subst takeWhile_append2) auto
  moreover have "tl (dropWhile (\<lambda>x. x \<noteq> CHR '','') (t @ CHR '','' # rest)) = rest"
    using assms(1) by (subst dropWhile_append2) auto
  ultimately show ?thesis unfolding t getlineTokens.simps by simp
qed

lemma getlineTokens_single:
  assumes "CHR '','' \<notin> set t" and "t \<noteq> []"
  shows "getlineTokens t = [t]"
proof -
  from assms(2) obtain c cs where t: "t = c # cs" by (cases t) auto
  have "takeWhile (\<lambda>x. x \<noteq> CHR '','') t = t" and "dropWhile (\<lambda>x. x \<noteq> CHR '','') t = []"
    using assms(1) by (auto simp: takeWhile_eq_all_conv dropWhile_eq_Nil_conv)
  then show ?thesis unfolding t getlineTokens.simps by simp
qed

lemma digit_char_props:
  "d < 10 \<Longrightarrow> isDigit (digit_char d) \<and> \<not> isSpace (digit_char d) \<and> digit_char d \<noteq> CHR ''-'' \<and>
     digit_char d \<noteq> CHR ''+'' \<and> digit_char d \<noteq> CHR '',''"
proof -
  assume d: "d < 10"
  have "of_char (CHR ''-'') = (45 :: nat)" "of_char (CHR ''+'') = (43 :: nat)" "of_char (CHR '','') = (44 :: nat)" by simp_all
  with of_char_digit_char [OF d] d show ?thesis
    by (auto simp: isDigit_def isSpace_def dest: arg_cong [where f = of_char])
qed

lemma to_string_chars:
  "c \<in> set (to_string n) \<Longrightarrow> isDigit c \<and> \<not> isSpace c \<and> c \<noteq> CHR ''-'' \<and> c \<noteq> CHR ''+'' \<and> c \<noteq> CHR '',''"
  by (drule to_string_digits) (auto dest: digit_char_props)

lemma to_string_not_Nil [simp]: "to_string n \<noteq> []"
  by (simp add: to_string.simps [of n])

lemma stoi_to_string:
  assumes "n < 2 ^ 31"
  shows "stoi (to_string n) = Ok (int n)"
proof -
  obtain c cs where s: "to_string n = c # cs" by (cases "to_string n") auto
  have c: "\<not> isSpace c" "c \<noteq> CHR ''-''" "c \<noteq> CHR ''+''" using to_string_chars [of c n] by (simp_all add: s)
  have "takeWhile isDigit (to_string n) = to_string n"
    by (simp add: takeWhile_eq_all_conv to_string_chars)
  moreover have "digitsValue (to_string n) = int n"
    using string_to_nat_to_string [of n] by (simp add: digitsValue_def)
  ultimately show ?thesis using assms c by (simp add: stoi_def s Let_def)
qed

lemma serverFirstToken_simps:
  "serverFirstToken out (CHR ''r'' # CHR ''='' # v) = Ok (out\<lparr>sf_nonce := v\<rparr>)"
  "serverFirstToken out (CHR ''s'' # CHR ''='' # v) = Ok (out\<lparr>sf_salt := v\<rparr>)"
  "serverFirstToken out (CHR ''i'' # CHR ''='' # v) = bindO (stoi v) (\<lambda>i. Ok (out\<lparr>sf_iterations := i\<rparr>))"
  by (simp_all add: serverFirstToken_def)

lemma getlineTokens_serverFirst:
  assumes "CHR '','' \<notin> set nonce" and "CHR '','' \<notin> set salt"
  shows "getlineTokens (encodeServerFirst nonce salt n) =
    [CHR ''r'' # CHR ''='' # nonce, CHR ''s'' # CHR ''='' # salt, CHR ''i'' # CHR ''='' # to_string n]"
proof -
  have r: "CHR '','' \<notin> set (CHR ''r'' # CHR ''='' # nonce)" and s: "CHR '','' \<notin> set (CHR ''s'' # CHR ''='' # salt)"
    and i: "CHR '','' \<notin> set (CHR ''i'' # CHR ''='' # to_string n)"
    using assms to_string_chars [of "CHR '',''" n] by auto
  have "encodeServerFirst nonce salt n = (CHR ''r'' # CHR ''='' # nonce) @ CHR '','' #
      (CHR ''s'' # CHR ''='' # salt) @ CHR '','' # (CHR ''i'' # CHR ''='' # to_string n)"
    by (simp add: encodeServerFirst_def)
  then show ?thesis
    by (simp only: getlineTokens_Cons [OF r list.distinct(2)] getlineTokens_Cons [OF s list.distinct(2)]
        getlineTokens_single [OF i list.distinct(2)])
qed

lemma parseServerFirstMessage_serverFirst:
  assumes "CHR '','' \<notin> set nonce" and "nonce \<noteq> []" and "CHR '','' \<notin> set salt" and "salt \<noteq> []"
    and "0 < n" and "n < 2 ^ 31"
  shows "parseServerFirstMessage (encodeServerFirst nonce salt n) out =
    Ok (out\<lparr>sf_nonce := nonce, sf_salt := salt, sf_iterations := int n\<rparr>)"
  using assms(2,4,5)
  by (simp add: parseServerFirstMessage_def getlineTokens_serverFirst [OF assms(1,3)] serverFirstToken_simps
      stoi_to_string [OF assms(6)])

section \<open>Proofs and signatures\<close>

lemma map2_xor_cancel: "length a = length b \<Longrightarrow> map2 (XOR) (map2 (XOR) a b) b = (a :: byteArray)"
  by (induction a b rule: list_induct2) (simp_all add: xor.assoc)

lemma orThrow_Ok_iff [simp]: "orThrow m r = Ok x \<longleftrightarrow> r = Some x"
  by (simp add: orThrow_def split: option.splits)

lemmas scram_primitives = base64Decode_def pbkdf2_def hmacString_def hmac_def hash_def

lemma credentials_Some:
  "credentials cr d pw salt i = Some (stored, sk) \<longleftrightarrow>
    (\<exists>sp ck. PKCS5_PBKDF2_HMAC cr d (bytes_of_string pw) salt i = Some sp \<and>
      HMAC cr d sp (bytes_of_string ''Client Key'') = Some ck \<and> EVP_Digest cr d ck = Some stored \<and>
      HMAC cr d sp (bytes_of_string ''Server Key'') = Some sk)"
  by (auto simp: credentials_def bind_eq_Some_conv)

lemma size_bounds: "0 < EVP_MD_size d \<and> EVP_MD_size d \<le> 64"
  by (simp add: EVP_MD_size_def split: Digest.splits)

lemma crypto_lawsD:
  assumes "crypto_laws cr"
  shows "HMAC cr d key msg = Some r \<Longrightarrow> length r = EVP_MD_size d"
    and "CHR '','' \<notin> set (b64Encode cr bs)"
    and "bs \<noteq> [] \<Longrightarrow> length bs \<le> 64 \<Longrightarrow> b64Decode cr (b64Encode cr bs) = Some bs"
  using assms by (simp_all add: crypto_laws_def)

lemma hmac_b64_round_trip:
  assumes "crypto_laws cr" and "HMAC cr d key msg = Some r"
  shows "b64Decode cr (b64Encode cr r) = Some r"
proof (rule crypto_lawsD(3) [OF assms(1)])
  from crypto_lawsD(1) [OF assms] size_bounds [of d] show "r \<noteq> []" and "length r \<le> 64" by auto
qed

lemma clientFinal_accepted:
  assumes "crypto_laws cr" and "b64Decode cr salt = Some saltBytes"
    and "credentials cr d password saltBytes iterations = Some (storedKey, serverKey)"
    and "authMessage = clientFirstBare @ '','' @ serverFirstMsg @ '',c=biws,r='' @ nonce"
    and "HMAC cr d storedKey (bytes_of_string authMessage) = Some sig"
  shows "\<exists>proof. createClientFinalMessage cr password clientFirstBare serverFirstMsg nonce salt iterations d =
      Ok (''c=biws,r='' @ nonce @ '',p='' @ proof) \<and> CHR '','' \<notin> set proof \<and>
    serverAccepts cr d storedKey authMessage proof"
proof -
  from assms(3) obtain sp ck where cred: "PKCS5_PBKDF2_HMAC cr d (bytes_of_string password) saltBytes iterations = Some sp"
    "HMAC cr d sp (bytes_of_string ''Client Key'') = Some ck" "EVP_Digest cr d ck = Some storedKey"
    by (auto simp: credentials_Some)
  have len: "length ck = EVP_MD_size d" "length sig = EVP_MD_size d"
    using crypto_lawsD(1) [OF assms(1)] cred(2) assms(5) by blast+
  let ?proof = "map2 (XOR) ck sig"
  have "?proof \<noteq> []" and "length ?proof \<le> 64" using len size_bounds [of d] by (auto simp flip: length_0_conv)
  then have dec: "b64Decode cr (b64Encode cr ?proof) = Some ?proof" by (rule crypto_lawsD(3) [OF assms(1)])
  have "createClientFinalMessage cr password clientFirstBare serverFirstMsg nonce salt iterations d =
      Ok (''c=biws,r='' @ nonce @ '',p='' @ b64Encode cr ?proof)"
    using assms(2,4,5) cred len
    by (simp add: createClientFinalMessage_def scram_primitives orThrow_def xorBytes_def base64Encode_def Let_def)
  moreover have "serverAccepts cr d storedKey authMessage (b64Encode cr ?proof)"
    using dec assms(5) cred(3) len by (simp add: serverAccepts_def map2_xor_cancel)
  ultimately show ?thesis using crypto_lawsD(2) [OF assms(1)] by blast
qed

lemma serverFinal_verified:
  assumes "crypto_laws cr" and "b64Decode cr salt = Some saltBytes"
    and "credentials cr d password saltBytes iterations = Some (storedKey, serverKey)"
    and "HMAC cr d serverKey (bytes_of_string authMessage) = Some sig"
  shows "(verifyServerFinalMessage cr msg password authMessage salt iterations d = Ok True \<longleftrightarrow>
      (\<exists>text. msg = ''v='' @ text \<and> b64Decode cr text = Some sig)) \<and>
    (\<exists>m. encodeServerFinal cr d serverKey authMessage = Some m \<and>
      verifyServerFinalMessage cr m password authMessage salt iterations d = Ok True)"
proof -
  from assms(3) obtain sp where cred: "PKCS5_PBKDF2_HMAC cr d (bytes_of_string password) saltBytes iterations = Some sp"
    "HMAC cr d sp (bytes_of_string ''Server Key'') = Some serverKey"
    by (auto simp: credentials_Some)
  have form: "length m < 2 \<or> m ! 0 \<noteq> CHR ''v'' \<or> m ! 1 \<noteq> CHR ''='' \<longleftrightarrow> (\<nexists>text. m = ''v='' @ text)" for m :: string
    by (cases m rule: remdups_adj.cases) auto
  have v: "verifyServerFinalMessage cr m password authMessage salt iterations d = Ok True \<longleftrightarrow>
      (\<exists>text. m = ''v='' @ text \<and> b64Decode cr text = Some sig)" for m
    unfolding verifyServerFinalMessage_def form using assms(2,4) cred
    by (auto simp: scram_primitives orThrow_def Let_def split: option.splits)
  moreover from hmac_b64_round_trip [OF assms(1,4)]
  have "verifyServerFinalMessage cr (''v='' @ b64Encode cr sig) password authMessage salt iterations d = Ok True"
    unfolding v by blast
  moreover have "encodeServerFinal cr d serverKey authMessage = Some (''v='' @ b64Encode cr sig)"
    using assms(4) by (simp add: encodeServerFinal_def)
  ultimately show ?thesis by blast
qed

lemma serverFinal_accepted:
  assumes "crypto_laws cr" and "b64Decode cr salt = Some saltBytes"
    and "credentials cr d password saltBytes iterations = Some (storedKey, serverKey)"
    and "encodeServerFinal cr d serverKey authMessage = Some m"
  shows "verifyServerFinalMessage cr m password authMessage salt iterations d = Ok True"
proof -
  from assms(4) obtain sig where "HMAC cr d serverKey (bytes_of_string authMessage) = Some sig"
    by (auto simp: encodeServerFinal_def)
  from serverFinal_verified [OF assms(1-3) this] assms(4) show ?thesis by auto
qed

section \<open>A concrete instance\<close>

text \<open>
  An instance of the OpenSSL functions with the documented shape: two letters per byte in place of
  base64, and a polynomial checksum spread over the length of the digest in place of the hashes.
\<close>

definition checksum :: "byteArray \<Rightarrow> byte" where
  "checksum bs = foldl (\<lambda>a b. a * 31 + b) 7 bs"

definition encodeLetters :: "byteArray \<Rightarrow> string" where
  "encodeLetters bs = concat (map (\<lambda>b. [char_of (65 + unat b div 16), char_of (65 + unat b mod 16)]) bs)"

fun decodeLetters :: "string \<Rightarrow> byteArray option" where
  "decodeLetters [] = Some []"
| "decodeLetters [x] = None"
| "decodeLetters (x # y # cs) =
     map_option ((#) (word_of_nat ((of_char x - 65) * 16 + (of_char y - 65)))) (decodeLetters cs)"

definition letterCrypto :: Crypto where
  "letterCrypto = \<lparr>
     PKCS5_PBKDF2_HMAC = (\<lambda>d pw salt i. Some (replicate (EVP_MD_size d) (checksum (pw @ salt) + word_of_int i))),
     HMAC = (\<lambda>d key msg. Some (replicate (EVP_MD_size d) (checksum (key @ msg)))),
     EVP_Digest = (\<lambda>d msg. Some (replicate (EVP_MD_size d) (checksum msg))),
     b64Encode = encodeLetters,
     b64Decode = decodeLetters,
     RAND_bytes = (\<lambda>n. Some (replicate n 42))\<rparr>"

lemma decode_encodeLetters: "decodeLetters (encodeLetters bs) = Some bs"
proof (induction bs)
  case (Cons b bs)
  have "unat b < 256" using unsigned_less [of b] by simp
  then have "of_char (char_of (65 + unat b div 16) :: char) = 65 + unat b div 16"
    and "of_char (char_of (65 + unat b mod 16) :: char) = 65 + unat b mod 16"
    by (simp_all add: take_bit_nat_eq_self)
  with Cons show ?case by (simp add: encodeLetters_def)
qed (simp add: encodeLetters_def)

lemma comma_notin_encodeLetters: "CHR '','' \<notin> set (encodeLetters bs)"
proof -
  have "char_of (65 + n) \<noteq> CHR '',''" if "n < 16" for n :: nat
  proof
    assume "char_of (65 + n) = CHR '',''"
    then have "of_char (char_of (65 + n) :: char) = (of_char (CHR '','') :: nat)" by simp
    with that show False by (simp add: take_bit_nat_eq_self)
  qed
  moreover have "unat b div 16 < 16" for b :: byte using unat_less_exp [of b] by simp
  ultimately show ?thesis by (auto simp: encodeLetters_def dest: sym)
qed

lemma letterCrypto_laws: "crypto_laws letterCrypto"
  by (simp add: crypto_laws_def letterCrypto_def decode_encodeLetters comma_notin_encodeLetters)

section \<open>Properties\<close>

text \<open>
  C33: The client's proof convinces the server. If the server holds the credentials derived from the
  same password, salt and iteration count, the client-final message is "c=biws,r=" and the nonce,
  ",p=" and a proof from which the server, over the same authentication message, recovers a client
  key that hashes to its stored key.
\<close>

theorem client_proof_accepted:
  assumes "crypto_laws cr" and "b64Decode cr salt = Some saltBytes"
    and "credentials cr d password saltBytes iterations = Some (storedKey, serverKey)"
    and "authMessage = clientFirstBare @ '','' @ serverFirstMsg @ '',c=biws,r='' @ nonce"
    and "HMAC cr d storedKey (bytes_of_string authMessage) = Some sig"
  shows "\<exists>proof. createClientFinalMessage cr password clientFirstBare serverFirstMsg nonce salt iterations d =
      Ok (''c=biws,r='' @ nonce @ '',p='' @ proof) \<and> CHR '','' \<notin> set proof \<and>
    serverAccepts cr d storedKey authMessage proof"
  using clientFinal_accepted [OF assms] .

theorem client_proof_accepted_witness:
  "\<exists>proof. createClientFinalMessage letterCrypto ''pw'' ''n=u,r=a'' ''r=ab,s=BB,i=1'' ''ab'' ''BB'' 1 SHA256 =
      Ok (''c=biws,r='' @ ''ab'' @ '',p='' @ proof) \<and>
    serverAccepts letterCrypto SHA256 (replicate 32 (checksum (replicate 32 (checksum (replicate 32
       (checksum (bytes_of_string ''pw'' @ [0x11]) + 1) @ bytes_of_string ''Client Key'')))))
      (''n=u,r=a'' @ '','' @ ''r=ab,s=BB,i=1'' @ '',c=biws,r='' @ ''ab'') proof"
proof -
  have cred: "credentials letterCrypto SHA256 ''pw'' [0x11] 1 = Some (replicate 32 (checksum (replicate 32
       (checksum (replicate 32 (checksum (bytes_of_string ''pw'' @ [0x11]) + 1) @ bytes_of_string ''Client Key'')))),
     replicate 32 (checksum (replicate 32 (checksum (bytes_of_string ''pw'' @ [0x11]) + 1) @ bytes_of_string ''Server Key'')))"
    by (simp add: credentials_def letterCrypto_def EVP_MD_size_def)
  have salt: "b64Decode letterCrypto ''BB'' = Some [0x11]" by (simp add: letterCrypto_def)
  have sig: "HMAC letterCrypto SHA256 k m = Some (replicate 32 (checksum (k @ m)))" for k m
    by (simp add: letterCrypto_def EVP_MD_size_def)
  from client_proof_accepted [OF letterCrypto_laws salt cred refl sig, of "''n=u,r=a''" "''r=ab,s=BB,i=1''" "''ab''"]
  show ?thesis by blast
qed

text \<open>
  C34: Server authentication. verifyServerFinalMessage answers true exactly for messages "v=" followed
  by an encoding of the HMAC of the authentication message under the server key that belongs to the
  password: the message of a server that holds the credentials is accepted, and a message carrying
  anything else is refused.
\<close>

theorem server_signature_verified:
  assumes "crypto_laws cr" and "b64Decode cr salt = Some saltBytes"
    and "credentials cr d password saltBytes iterations = Some (storedKey, serverKey)"
    and "HMAC cr d serverKey (bytes_of_string authMessage) = Some sig"
  shows "(verifyServerFinalMessage cr msg password authMessage salt iterations d = Ok True \<longleftrightarrow>
      (\<exists>text. msg = ''v='' @ text \<and> b64Decode cr text = Some sig)) \<and>
    (\<exists>m. encodeServerFinal cr d serverKey authMessage = Some m \<and>
      verifyServerFinalMessage cr m password authMessage salt iterations d = Ok True)"
  using serverFinal_verified [OF assms] .

theorem server_signature_verified_witness:
  "\<exists>m. encodeServerFinal letterCrypto SHA1 (replicate 20 (checksum (replicate 20 (checksum (bytes_of_string ''pw'' @ [0x11]) + 1) @
        bytes_of_string ''Server Key''))) ''auth'' = Some m \<and>
      verifyServerFinalMessage letterCrypto m ''pw'' ''auth'' ''BB'' 1 SHA1 = Ok True"
proof -
  have cred: "credentials letterCrypto SHA1 ''pw'' [0x11] 1 = Some (replicate 20 (checksum (replicate 20
       (checksum (replicate 20 (checksum (bytes_of_string ''pw'' @ [0x11]) + 1) @ bytes_of_string ''Client Key'')))),
     replicate 20 (checksum (replicate 20 (checksum (bytes_of_string ''pw'' @ [0x11]) + 1) @ bytes_of_string ''Server Key'')))"
    by (simp add: credentials_def letterCrypto_def EVP_MD_size_def)
  have salt: "b64Decode letterCrypto ''BB'' = Some [0x11]" by (simp add: letterCrypto_def)
  have sig: "HMAC letterCrypto SHA1 k m = Some (replicate 20 (checksum (k @ m)))" for k m
    by (simp add: letterCrypto_def EVP_MD_size_def)
  from server_signature_verified [OF letterCrypto_laws salt cred sig, of "[]" "''auth''"] show ?thesis by blast
qed

text \<open>
  parseServerFirstMessage reads back nonce, salt and iteration count of a server-first message
  whose nonce and salt are non-empty and free of commas and whose count is positive and below 2^31;
  an empty nonce or salt or a count of 0 is refused, and so is a count that is not a number.
\<close>

theorem server_first_parsed:
  assumes "CHR '','' \<notin> set nonce" and "CHR '','' \<notin> set salt" and "n < 2 ^ 31"
  shows "parseServerFirstMessage (encodeServerFirst nonce salt n) out =
    (if nonce = [] \<or> salt = [] \<or> n = 0
     then Throw (RuntimeError ''SCRAM::parseServerFirstMessage: Invalid server message'')
     else Ok (out\<lparr>sf_nonce := nonce, sf_salt := salt, sf_iterations := int n\<rparr>)) \<and>
   parseServerFirstMessage ''r=a,s=b,i=x'' out = Throw InvalidArgument"
proof -
  have "parseServerFirstMessage ''r=a,s=b,i=x'' out = Throw InvalidArgument"
    by (simp add: parseServerFirstMessage_def serverFirstToken_simps stoi_def isSpace_def isDigit_def)
  with assms show ?thesis
    by (auto simp: parseServerFirstMessage_def getlineTokens_serverFirst serverFirstToken_simps stoi_to_string)
qed

theorem server_first_parsed_witness:
  "parseServerFirstMessage (encodeServerFirst ''ab'' ''BB'' 4096) \<lparr>sf_nonce = [], sf_salt = [], sf_iterations = 0\<rparr> =
     Ok \<lparr>sf_nonce = ''ab'', sf_salt = ''BB'', sf_iterations = 4096\<rparr>"
  using server_first_parsed [of "''ab''" "''BB''" 4096 "\<lparr>sf_nonce = [], sf_salt = [], sf_iterations = 0\<rparr>"] by simp

end
