(* ===== verification/Sasl.thy ===== *)
theory Sasl
  imports AuthCodec Topology Scram
begin

text \<open>
  include/hotrod/Authentication.h, include/hotrod/SaslAuthenticator.h and
  src/auth/SaslAuthenticator.cpp: the SASL handshake. The virtual class SaslTransport is a record of
  its operations on a state; SaslAuthenticator::authenticate works on any such transport.
  ConnectionSaslTransport, the production transport, is one over a connection. What a transport
  promises is the locale \<open>sasl_transport\<close>, in which the handshake with an honest server is proved to
  complete; the production transport interprets it.
\<close>

record Authentication =
  au_enabled :: bool
  au_username :: string
  au_password :: string
  au_realm :: string
  au_serverName :: string
  au_mechanism :: string

definition defaultAuthentication :: Authentication where
  "defaultAuthentication = \<lparr>au_enabled = False, au_username = [], au_password = [],
     au_realm = ''default'', au_serverName = ''infinispan'', au_mechanism = ''SCRAM-SHA-256''\<rparr>"

section \<open>Transports\<close>

record 's SaslTransport =
  tr_sendRequest :: "byte \<Rightarrow> byteArray \<Rightarrow> ('s, exn, unit) comp"
  tr_readResponseHeader :: "('s, exn, byte) comp"
  tr_readByte :: "('s, exn, byte) comp"
  tr_readVInt :: "('s, exn, VInt) comp"
  tr_readString :: "('s, exn, string) comp"
  tr_readByteArray :: "('s, exn, byteArray) comp"

record ConnectionSaslTransport =
  sc_conn :: Connection
  sc_protocolVersion :: byte
  sc_intelligence :: ClientIntelligence
  sc_host :: string
  sc_port :: "16 word"
  sc_nextMessageId :: VLong

type_synonym 'a sasl = "(ConnectionSaslTransport, exn, 'a) comp"

definition newConnectionSaslTransport ::
  "Connection \<Rightarrow> byte \<Rightarrow> ClientIntelligence \<Rightarrow> string \<Rightarrow> 16 word \<Rightarrow> ConnectionSaslTransport" where
  "newConnectionSaslTransport c version intelligence host port =
     \<lparr>sc_conn = c, sc_protocolVersion = version, sc_intelligence = intelligence, sc_host = host,
      sc_port = port, sc_nextMessageId = 0\<rparr>"

definition onSasl :: "'a conn \<Rightarrow> 'a sasl" where
  "onSasl m = (\<lambda>s. case m (sc_conn s) of (r, c) \<Rightarrow> (r, s\<lparr>sc_conn := c\<rparr>))"

definition saslNode :: "ConnectionSaslTransport \<Rightarrow> ServerAddress list" where
  "saslNode s = [\<lparr>sa_host = sc_host s, sa_port = sc_port s\<rparr>]"

definition saslFrame :: "ConnectionSaslTransport \<Rightarrow> VLong \<Rightarrow> byte \<Rightarrow> byteArray \<Rightarrow> byteArray" where
  "saslFrame s mid opcode body =
     writeRequestHeader [] (defaultRequestHeader\<lparr>rq_messageId := mid,
       rq_version := sc_protocolVersion s, rq_opcode := opcode, rq_cacheName := [], rq_flags := 0,
       rq_clientIntelligence := sc_intelligence s, rq_topologyId := 0, rq_keyMediaType := 0,
       rq_valueMediaType := 0\<rparr>) @ body"

definition sendRequest :: "byte \<Rightarrow> byteArray \<Rightarrow> unit sasl" where
  "sendRequest opcode body = (\<lambda>s.
     let frame = saslFrame s (sc_nextMessageId s) opcode body;
         s = s\<lparr>sc_nextMessageId := sc_nextMessageId s + 1\<rparr>
     in catchM (onSasl (send frame)) (\<lambda>e s.
          throw (hotrod_exn (''Auth send failed: '' @ what e) AfterSend None (saslNode s) False) s) s)"

definition saslReadResponseHeader :: "byte sasl" where
  "saslReadResponseHeader =
     bindM (onSasl (receive 1)) (\<lambda>magicByte s.
       if magicByte ! 0 \<noteq> RESPONSE_MAGIC
       then throw (hotrod_exn (''Auth: invalid magic byte in response: '' @ to_string (unat (magicByte ! 0)))
              AfterSend None (saslNode s) False) s
       else bindM (onSasl (receiveResponseStart (sc_intelligence s))) (\<lambda>start.
         if st_opcode start = ERROR_RESPONSE
         then bindM (onSasl receiveString) (\<lambda>errorMessage s.
                throw (hotrod_exn (''Authentication failed (status '' @ to_string (unat (st_status start)) @ ''): '' @
                    errorMessage) ServerError (Some (st_status start)) (saslNode s) False) s)
         else (\<lambda>s. if st_status start \<noteq> NO_ERROR
              then throw (hotrod_exn (''Authentication failed with status '' @ to_string (unat (st_status start)))
                     ServerError (Some (st_status start)) (saslNode s) False) s
              else ret (st_opcode start) s)) s)"

definition connectionSaslTransport :: "ConnectionSaslTransport SaslTransport" where
  "connectionSaslTransport = \<lparr>tr_sendRequest = sendRequest,
     tr_readResponseHeader = saslReadResponseHeader,
     tr_readByte = bindM (onSasl (receive 1)) (\<lambda>b. ret (b ! 0)),
     tr_readVInt = onSasl receiveVInt,
     tr_readString = onSasl receiveString,
     tr_readByteArray = onSasl receiveByteArray\<rparr>"

section \<open>The authenticator\<close>

text \<open>The loop over the offered mechanisms reads them all.\<close>

fun readMechs :: "'s SaslTransport \<Rightarrow> string \<Rightarrow> nat \<Rightarrow> bool \<Rightarrow> ('s, exn, bool) comp" where
  "readMechs T mechanism 0 offered = ret offered"
| "readMechs T mechanism (Suc n) offered =
     bindM (tr_readString T) (\<lambda>m. readMechs T mechanism n (if m = mechanism then True else offered))"

definition readAuth :: "'s SaslTransport \<Rightarrow> ServerAddress list \<Rightarrow> ('s, exn, bool \<times> string) comp" where
  "readAuth T node =
     bindM (tr_readResponseHeader T) (\<lambda>opcode.
     if opcode \<noteq> AUTH_RESPONSE
     then throw (hotrod_exn ''Auth: expected AUTH_RESPONSE'' AfterSend None node False)
     else bindM (tr_readByte T) (\<lambda>b.
          bindM (tr_readByteArray T) (\<lambda>ch. ret (b \<noteq> 0, string_of_bytes ch))))"

definition sendAuth :: "'s SaslTransport \<Rightarrow> string \<Rightarrow> string \<Rightarrow> ('s, exn, unit) comp" where
  "sendAuth T mechanism token =
     tr_sendRequest T AUTH_REQUEST (encodeAuthRequestBody mechanism (bytes_of_string token))"

text \<open>substr(0, find(",p=")): the part before the first occurrence, all of it when there is none.\<close>

fun beforeProof :: "string \<Rightarrow> string" where
  "beforeProof [] = []"
| "beforeProof (c # cs) = (if take 3 (c # cs) = '',p='' then [] else c # beforeProof cs)"

definition finishScram ::
  "Crypto \<Rightarrow> Authentication \<Rightarrow> ServerAddress list \<Rightarrow> Digest \<Rightarrow> 's SaslTransport \<Rightarrow>
    string \<Rightarrow> string \<Rightarrow> ServerFirst \<Rightarrow> ('s, exn, unit) comp" where
  "finishScram cr auth node d T clientFirstBare serverFirst sf =
     bindM (liftO (createClientFinalMessage cr (au_password auth) clientFirstBare serverFirst (sf_nonce sf)
              (sf_salt sf) (sf_iterations sf) d)) (\<lambda>clientFinal.
     let clientFinalWithoutProof = beforeProof clientFinal;
         authMessage = clientFirstBare @ '','' @ serverFirst @ '','' @ clientFinalWithoutProof
     in bindM (sendAuth T (au_mechanism auth) clientFinal) (\<lambda>_.
        bindM (readAuth T node) (\<lambda>(done, serverFinal).
        if serverFinal = []
        then throw (hotrod_exn ''Auth: server did not send a server-final signature'' ServerError None node False)
        else bindM (liftO (verifyServerFinalMessage cr serverFinal (au_password auth) authMessage
                     (sf_salt sf) (sf_iterations sf) d)) (\<lambda>valid.
          if \<not> valid
          then throw (hotrod_exn ''Auth: server signature verification failed'' ServerError None node False)
          else ret ()))))"

definition authenticate ::
  "Crypto \<Rightarrow> Authentication \<Rightarrow> string \<Rightarrow> 16 word \<Rightarrow> 's SaslTransport \<Rightarrow> ('s, exn, unit) comp" where
  "authenticate cr auth host port T =
     (let node = [\<lparr>sa_host = host, sa_port = port\<rparr>]
      in bindM (catchM (liftO (digestForMechanism (au_mechanism auth))) (\<lambda>_.
                  throw (hotrod_exn (''Unsupported SASL mechanism: '' @ au_mechanism auth @
                      '' (supported: SCRAM-SHA-1, SCRAM-SHA-256, SCRAM-SHA-512)'') BeforeSend None node False)))
         (\<lambda>d.
         bindM (tr_sendRequest T AUTH_MECH_LIST_REQUEST encodeAuthMechListRequestBody) (\<lambda>_.
         bindM (tr_readResponseHeader T) (\<lambda>opcode.
         if opcode \<noteq> AUTH_MECH_LIST_RESPONSE
         then throw (hotrod_exn ''Auth: expected AUTH_MECH_LIST_RESPONSE'' AfterSend None node False)
         else bindM (tr_readVInt T) (\<lambda>mechCount.
         bindM (readMechs T (au_mechanism auth) (unat mechCount) False) (\<lambda>offered.
         if \<not> offered
         then throw (hotrod_exn (''SASL mechanism '' @ au_mechanism auth @ '' is not offered by the server'')
                AfterSend None node False)
         else bindM (liftO (generateNonce cr 24)) (\<lambda>nonce.
         let clientFirst = createClientFirstMessage (au_username auth) nonce;
             clientFirstBare = drop 3 clientFirst
         in bindM (sendAuth T (au_mechanism auth) clientFirst) (\<lambda>_.
            bindM (readAuth T node) (\<lambda>(done, serverFirst).
            if done
            then throw (hotrod_exn ''Auth: server completed the exchange before the client-final message''
                   ServerError None node False)
            else bindM (catchM (liftO (parseServerFirstMessage serverFirst
                         \<lparr>sf_nonce = [], sf_salt = [], sf_iterations = 0\<rparr>)) (\<lambda>e.
                         throw (hotrod_exn (''Auth: bad server-first message: '' @ what e) ServerError None node False)))
                 (\<lambda>sf.
                 if take (length nonce) (sf_nonce sf) \<noteq> nonce
                 then throw (hotrod_exn ''Auth: server nonce does not match client nonce'' ServerError None node False)
                 else finishScram cr auth node d T clientFirstBare serverFirst sf))))))))))"

section \<open>What a successful handshake means\<close>

lemma verify_true:
  assumes "verifyServerFinalMessage cr msg pw am salt i d = Ok True"
  shows "\<exists>sb sp sk sig. b64Decode cr salt = Some sb \<and> PKCS5_PBKDF2_HMAC cr d (bytes_of_string pw) sb i = Some sp \<and>
    HMAC cr d sp (bytes_of_string ''Server Key'') = Some sk \<and> HMAC cr d sk (bytes_of_string am) = Some sig \<and>
    b64Decode cr (drop 2 msg) = Some sig"
  using assms by (auto simp: verifyServerFinalMessage_def scram_primitives Let_def split: if_splits)

lemma catchM_throw_Ok:
  "catchM m (\<lambda>e. throw (f e)) s = (Ok b, t) \<longleftrightarrow> m s = (Ok b, t)"
  by (auto simp: catchM_eq_Ok_iff throw_def)

lemma throw_not_Ok [simp]: "throw e s \<noteq> (Ok a, t)"
  by (simp add: throw_def)

lemma liftO_Ok_iff: "liftO r s = (Ok a, t) \<longleftrightarrow> r = Ok a \<and> t = s"
  by (auto simp: liftO_def)

lemmas run_Ok = bindM_eq_Ok_iff catchM_throw_Ok liftO_Ok_iff

lemma createClientFinalMessage_Ok:
  "createClientFinalMessage cr pw bare sf nonce salt i d = Ok msg \<Longrightarrow>
    \<exists>proof. msg = ''c=biws,r='' @ nonce @ '',p='' @ b64Encode cr proof"
  by (auto simp: createClientFinalMessage_def base64Encode_def Let_def)

lemma beforeProof_append:
  "CHR '','' \<notin> set xs \<Longrightarrow> beforeProof (xs @ '',p='' @ ys) = xs"
proof (induction xs)
  case (Cons x xs)
  then have "take 3 (x # xs @ '',p='' @ ys) \<noteq> '',p=''" by auto
  with Cons show ?case by simp
qed simp
lemma beforeProof_clientFinal:
  assumes "CHR '','' \<notin> set nonce"
  shows "beforeProof (''c=biws,r='' @ nonce @ '',p='' @ ys) = ''c=biws,r='' @ nonce"
  using beforeProof_append [of "CHR ''r'' # CHR ''='' # nonce" ys] assms by simp

lemma getlineTokens_no_comma: "t \<in> set (getlineTokens s) \<Longrightarrow> CHR '','' \<notin> set t"
proof (induction s rule: getlineTokens.induct)
  case (2 c cs)
  then show ?case by (auto dest: set_takeWhileD)
qed simp

lemma serverFirstTokens_nonce:
  "serverFirstTokens out ts = Ok sf \<Longrightarrow> \<forall>t \<in> set ts. CHR '','' \<notin> set t \<Longrightarrow> CHR '','' \<notin> set (sf_nonce out) \<Longrightarrow>
    CHR '','' \<notin> set (sf_nonce sf)"
proof (induction out ts rule: serverFirstTokens.induct)
  case (2 out t ts)
  from 2 obtain out' where o: "serverFirstToken out t = Ok out'" and ts: "serverFirstTokens out' ts = Ok sf" by auto
  from 2 o have "CHR '','' \<notin> set (sf_nonce out')"
    by (auto simp: serverFirstToken_def Let_def dest: in_set_dropD split: if_splits)
  with "2.IH" [OF ts] "2.prems" show ?case by simp
qed simp

lemma parsed_nonce_no_comma:
  "parseServerFirstMessage msg \<lparr>sf_nonce = [], sf_salt = [], sf_iterations = 0\<rparr> = Ok sf \<Longrightarrow> CHR '','' \<notin> set (sf_nonce sf)"
  by (auto simp: parseServerFirstMessage_def dest: getlineTokens_no_comma dest!: serverFirstTokens_nonce split: if_splits)

lemma take_append_length: "take (length xs) (xs @ ys) = xs"
  by simp

text \<open>The authentication message both sides compute over.\<close>

definition authMessageOf :: "string \<Rightarrow> string \<Rightarrow> string \<Rightarrow> string \<Rightarrow> string" where
  "authMessageOf username nonce serverFirst combinedNonce =
     ''n='' @ username @ '',r='' @ nonce @ '','' @ serverFirst @ '',c=biws,r='' @ combinedNonce"

lemma bare_client_first: "drop 3 (createClientFirstMessage u n) = ''n='' @ u @ '',r='' @ n"
  by (simp add: createClientFirstMessage_def)

section \<open>What passes over a transport\<close>

text \<open>
  A transport that keeps a log of the requests sent and of the byte arrays received (the SASL messages), and otherwise is the
  transport \<open>T\<close>.
\<close>

datatype passage = Sent byte byteArray | Received byteArray

definition noting :: "('s, exn, 'a) comp \<Rightarrow> ('a \<Rightarrow> passage list) \<Rightarrow> ('s \<times> passage list, exn, 'a) comp" where
  "noting m note = (\<lambda>(s, log). case m s of
      (Ok a, s) \<Rightarrow> (Ok a, s, log @ note a)
    | (r, s) \<Rightarrow> (r, s, log))"

definition logged :: "'s SaslTransport \<Rightarrow> ('s \<times> passage list) SaslTransport" where
  "logged T = \<lparr>tr_sendRequest = (\<lambda>opc body. noting (tr_sendRequest T opc body) (\<lambda>_. [Sent opc body])),
     tr_readResponseHeader = noting (tr_readResponseHeader T) (\<lambda>_. []), tr_readByte = noting (tr_readByte T) (\<lambda>_. []),
     tr_readVInt = noting (tr_readVInt T) (\<lambda>_. []), tr_readString = noting (tr_readString T) (\<lambda>_. []),
     tr_readByteArray = noting (tr_readByteArray T) (\<lambda>bs. [Received bs])\<rparr>"

lemma logged_fields:
  "tr_sendRequest (logged T) opc body = noting (tr_sendRequest T opc body) (\<lambda>_. [Sent opc body])"
  "tr_readResponseHeader (logged T) = noting (tr_readResponseHeader T) (\<lambda>_. [])"
  "tr_readByte (logged T) = noting (tr_readByte T) (\<lambda>_. [])" "tr_readVInt (logged T) = noting (tr_readVInt T) (\<lambda>_. [])"
  "tr_readString (logged T) = noting (tr_readString T) (\<lambda>_. [])"
  "tr_readByteArray (logged T) = noting (tr_readByteArray T) (\<lambda>bs. [Received bs])"
  by (simp_all add: logged_def)

text \<open>The log changes nothing else.\<close>

definition tracks :: "('s \<times> passage list, exn, 'a) comp \<Rightarrow> ('s, exn, 'a) comp \<Rightarrow> bool" where
  "tracks f m \<longleftrightarrow> (\<forall>s log. fst (f (s, log)) = fst (m s) \<and> fst (snd (f (s, log))) = snd (m s))"

lemma tracks_noting: "tracks (noting m note) m"
  by (auto simp: tracks_def noting_def split: prod.splits outcome.splits)

lemma tracks_basic: "tracks (ret a) (ret a)" "tracks (throw e) (throw e)" "tracks (liftO r) (liftO r)"
  by (simp_all add: tracks_def ret_def throw_def liftO_def)

lemma tracks_bind:
  assumes "tracks f m" and "\<And>a. tracks (g a) (k a)"
  shows "tracks (bindM f g) (bindM m k)"
  unfolding tracks_def
proof (intro allI)
  fix s log
  obtain r t l where f: "f (s, log) = (r, t, l)" by (cases "f (s, log)") auto
  with assms(1) have m: "m s = (r, t)" by (metis fst_conv prod.collapse snd_conv tracks_def)
  show "fst (bindM f g (s, log)) = fst (bindM m k s) \<and> fst (snd (bindM f g (s, log))) = snd (bindM m k s)"
    using assms(2) by (cases r) (simp_all add: bindM_def f m tracks_def)
qed

lemma tracks_catch:
  assumes "tracks f m" and "\<And>e. tracks (g e) (k e)"
  shows "tracks (catchM f g) (catchM m k)"
  unfolding tracks_def
proof (intro allI)
  fix s log
  obtain r t l where f: "f (s, log) = (r, t, l)" by (cases "f (s, log)") auto
  with assms(1) have m: "m s = (r, t)" by (metis fst_conv prod.collapse snd_conv tracks_def)
  show "fst (catchM f g (s, log)) = fst (catchM m k s) \<and> fst (snd (catchM f g (s, log))) = snd (catchM m k s)"
    using assms(2) by (cases r) (simp_all add: catchM_def f m tracks_def)
qed

lemma tracks_if: "(b \<Longrightarrow> tracks f m) \<Longrightarrow> (\<not> b \<Longrightarrow> tracks g k) \<Longrightarrow> tracks (if b then f else g) (if b then m else k)"
  by simp

lemma tracks_prod: "(\<And>x y. tracks (f x y) (m x y)) \<Longrightarrow> tracks (case p of (x, y) \<Rightarrow> f x y) (case p of (x, y) \<Rightarrow> m x y)"
  by (cases p) simp

lemmas tracks_intros = tracks_bind tracks_catch tracks_if tracks_prod tracks_basic tracks_noting

lemma tracks_readMechs: "tracks (readMechs (logged T) mech n off) (readMechs T mech n off)"
  by (induction n arbitrary: off) (simp_all only: readMechs.simps logged_fields, (intro tracks_intros; assumption?)+)

lemma tracks_authenticate: "tracks (authenticate cr auth host port (logged T)) (authenticate cr auth host port T)"
proof -
  have a: "tracks (readAuth (logged T) node) (readAuth T node)" for node
    unfolding readAuth_def logged_fields by (intro tracks_intros)
  have s: "tracks (sendAuth (logged T) mech tok) (sendAuth T mech tok)" for mech tok
    unfolding sendAuth_def logged_fields by (intro tracks_intros)
  have f: "tracks (finishScram cr auth node d (logged T) x y z) (finishScram cr auth node d T x y z)" for node d x y z
    unfolding finishScram_def Let_def by (intro tracks_intros a s)
  show ?thesis unfolding authenticate_def Let_def logged_fields by (intro tracks_intros a s f tracks_readMechs)
qed

lemma noting_Ok: "noting m note (s, log) = (Ok a, t, log') \<longleftrightarrow> m s = (Ok a, t) \<and> log' = log @ note a"
  by (auto simp: noting_def split: prod.splits outcome.splits)

lemma readMechs_log: "readMechs (logged T) mech n off (s, log) = (Ok a, t, log') \<Longrightarrow> log' = log"
  by (induction n arbitrary: off s) (auto simp: ret_def run_Ok logged_fields noting_Ok)

lemma readAuth_log:
  "readAuth (logged T) node (s, log) = (Ok (done, token), t, log') \<Longrightarrow> \<exists>bs. log' = log @ [Received bs] \<and> token = string_of_bytes bs"
  by (auto simp: readAuth_def ret_def run_Ok logged_fields noting_Ok split: if_splits)

lemma sendAuth_log:
  "sendAuth (logged T) mech token (s, log) = (Ok u, t, log') \<Longrightarrow>
    log' = log @ [Sent AUTH_REQUEST (encodeAuthRequestBody mech (bytes_of_string token))]"
  by (auto simp: sendAuth_def logged_fields noting_Ok)

lemma finishScram_log:
  assumes "finishScram cr auth node d (logged T) (''n='' @ u @ '',r='' @ nonce) serverFirst sf (s, log) = (Ok (), s', log')"
    and "CHR '','' \<notin> set (sf_nonce sf)"
  shows "\<exists>clientFinal final. createClientFinalMessage cr (au_password auth) (''n='' @ u @ '',r='' @ nonce) serverFirst (sf_nonce sf)
        (sf_salt sf) (sf_iterations sf) d = Ok clientFinal \<and>
      log' = log @ [Sent AUTH_REQUEST (encodeAuthRequestBody (au_mechanism auth) (bytes_of_string clientFinal)), Received final] \<and>
      verifyServerFinalMessage cr (string_of_bytes final) (au_password auth)
        (authMessageOf u nonce serverFirst (sf_nonce sf)) (sf_salt sf) (sf_iterations sf) d = Ok True"
proof -
  from assms(1) obtain clientFinal don serverFinal s1 l1 s2 l2 where
    c: "createClientFinalMessage cr (au_password auth) (''n='' @ u @ '',r='' @ nonce) serverFirst (sf_nonce sf)
          (sf_salt sf) (sf_iterations sf) d = Ok clientFinal"
    and s: "sendAuth (logged T) (au_mechanism auth) clientFinal (s, log) = (Ok (), s1, l1)"
    and r: "readAuth (logged T) node (s1, l1) = (Ok (don, serverFinal), s2, l2)" and l: "log' = l2"
    and v: "verifyServerFinalMessage cr serverFinal (au_password auth)
          ((''n='' @ u @ '',r='' @ nonce) @ '','' @ serverFirst @ '','' @ beforeProof clientFinal)
          (sf_salt sf) (sf_iterations sf) d = Ok True"
    by (auto simp: finishScram_def run_Ok Let_def ret_def split: if_splits)
  from createClientFinalMessage_Ok [OF c] beforeProof_clientFinal [OF assms(2)]
  have "beforeProof clientFinal = ''c=biws,r='' @ sf_nonce sf" by auto
  with v c sendAuth_log [OF s] readAuth_log [OF r] l show ?thesis by (auto simp: authMessageOf_def)
qed

lemma authenticate_log:
  assumes "authenticate cr auth host port (logged T) (s, []) = (Ok (), s', log)"
  shows "\<exists>d nonce first sf clientFinal final. digestForMechanism (au_mechanism auth) = Ok d \<and> generateNonce cr 24 = Ok nonce \<and>
    log = [Sent AUTH_MECH_LIST_REQUEST encodeAuthMechListRequestBody,
      Sent AUTH_REQUEST (encodeAuthRequestBody (au_mechanism auth) (bytes_of_string (createClientFirstMessage (au_username auth) nonce))),
      Received first,
      Sent AUTH_REQUEST (encodeAuthRequestBody (au_mechanism auth) (bytes_of_string clientFinal)),
      Received final] \<and>
    parseServerFirstMessage (string_of_bytes first) \<lparr>sf_nonce = [], sf_salt = [], sf_iterations = 0\<rparr> = Ok sf \<and>
    take (length nonce) (sf_nonce sf) = nonce \<and>
    createClientFinalMessage cr (au_password auth) (''n='' @ au_username auth @ '',r='' @ nonce) (string_of_bytes first) (sf_nonce sf)
      (sf_salt sf) (sf_iterations sf) d = Ok clientFinal \<and>
    verifyServerFinalMessage cr (string_of_bytes final) (au_password auth)
      (authMessageOf (au_username auth) nonce (string_of_bytes first) (sf_nonce sf)) (sf_salt sf) (sf_iterations sf) d = Ok True"
proof -
  from assms obtain d nonce serverFirst sf opc n off s1 l1 s2 s3 s4 l4 s5 l5 s6 l6 l2 l3 where d: "digestForMechanism (au_mechanism auth) = Ok d"
    "generateNonce cr 24 = Ok nonce"
    "parseServerFirstMessage serverFirst \<lparr>sf_nonce = [], sf_salt = [], sf_iterations = 0\<rparr> = Ok sf"
    "take (length nonce) (sf_nonce sf) = nonce"
    and l: "tr_sendRequest (logged T) AUTH_MECH_LIST_REQUEST encodeAuthMechListRequestBody (s, []) = (Ok (), s1, l1)"
      "tr_readResponseHeader (logged T) (s1, l1) = (Ok opc, s2, l2)" "tr_readVInt (logged T) (s2, l2) = (Ok n, s3, l3)"
      "readMechs (logged T) (au_mechanism auth) (unat n) False (s3, l3) = (Ok off, s4, l4)"
      "sendAuth (logged T) (au_mechanism auth) (createClientFirstMessage (au_username auth) nonce) (s4, l4) = (Ok (), s5, l5)"
      "readAuth (logged T) [\<lparr>sa_host = host, sa_port = port\<rparr>] (s5, l5) = (Ok (False, serverFirst), s6, l6)"
    and f: "finishScram cr auth [\<lparr>sa_host = host, sa_port = port\<rparr>] d (logged T)
       (drop 3 (createClientFirstMessage (au_username auth) nonce)) serverFirst sf (s6, l6) = (Ok (), s', log)"
    unfolding authenticate_def Let_def run_Ok
    by (auto simp: run_Ok split: if_splits)
  have "l4 = [Sent AUTH_MECH_LIST_REQUEST encodeAuthMechListRequestBody]"
    using l(1-3) readMechs_log [OF l(4)] by (simp add: logged_fields noting_Ok)
  with sendAuth_log [OF l(5)] readAuth_log [OF l(6)] d finishScram_log [OF f [unfolded bare_client_first] parsed_nonce_no_comma [OF d(3)]]
  show ?thesis by fastforce
qed

section \<open>An honest server\<close>

record Exchange =
  ex_digest :: Digest
  ex_mechs :: "string list"
  ex_nonce :: string
  ex_suffix :: string
  ex_salt :: string
  ex_saltBytes :: byteArray
  ex_iterations :: nat
  ex_storedKey :: byteArray
  ex_serverKey :: byteArray
  ex_final :: string

definition ex_serverFirst :: "Exchange \<Rightarrow> string" where
  "ex_serverFirst x = encodeServerFirst (ex_nonce x @ ex_suffix x) (ex_salt x) (ex_iterations x)"

definition ex_authMessage :: "Authentication \<Rightarrow> Exchange \<Rightarrow> string" where
  "ex_authMessage auth x = authMessageOf (au_username auth) (ex_nonce x) (ex_serverFirst x) (ex_nonce x @ ex_suffix x)"

text \<open>
  A server that offers the configured mechanism, knows the user's credentials, extends the client's
  nonce, and signs the authentication message.
\<close>

definition honest :: "Crypto \<Rightarrow> Authentication \<Rightarrow> Exchange \<Rightarrow> bool" where
  "honest cr auth x \<longleftrightarrow> crypto_laws cr \<and> digestForMechanism (au_mechanism auth) = Ok (ex_digest x) \<and>
     au_mechanism auth \<in> set (ex_mechs x) \<and> fits32 (ex_mechs x) \<and>
     generateNonce cr 24 = Ok (ex_nonce x) \<and> ex_nonce x \<noteq> [] \<and> CHR '','' \<notin> set (ex_suffix x) \<and>
     ex_salt x \<noteq> [] \<and> CHR '','' \<notin> set (ex_salt x) \<and> b64Decode cr (ex_salt x) = Some (ex_saltBytes x) \<and>
     0 < ex_iterations x \<and> ex_iterations x < 2 ^ 31 \<and>
     credentials cr (ex_digest x) (au_password auth) (ex_saltBytes x) (int (ex_iterations x)) =
       Some (ex_storedKey x, ex_serverKey x) \<and>
     HMAC cr (ex_digest x) (ex_storedKey x) (bytes_of_string (ex_authMessage auth x)) \<noteq> None \<and>
     encodeServerFinal cr (ex_digest x) (ex_serverKey x) (ex_authMessage auth x) = Some (ex_final x)"

definition clientFinalOf :: "Exchange \<Rightarrow> string \<Rightarrow> string" where
  "clientFinalOf x proof = ''c=biws,r='' @ (ex_nonce x @ ex_suffix x) @ '',p='' @ proof"

text \<open>\<open>sentProof cr auth x pf\<close>: the client answers this exchange with the proof \<open>pf\<close>.\<close>

definition sentProof :: "Crypto \<Rightarrow> Authentication \<Rightarrow> Exchange \<Rightarrow> string \<Rightarrow> bool" where
  "sentProof cr auth x pf \<longleftrightarrow>
     createClientFinalMessage cr (au_password auth) (''n='' @ au_username auth @ '',r='' @ ex_nonce x)
       (ex_serverFirst x) (ex_nonce x @ ex_suffix x) (ex_salt x) (int (ex_iterations x)) (ex_digest x) =
     Ok (clientFinalOf x pf)"

definition requestsOf :: "Authentication \<Rightarrow> Exchange \<Rightarrow> string \<Rightarrow> (byte \<times> byteArray) list" where
  "requestsOf auth x proof =
     [(AUTH_MECH_LIST_REQUEST, []),
      (AUTH_REQUEST, encodeAuthRequestBody (au_mechanism auth)
         (bytes_of_string (createClientFirstMessage (au_username auth) (ex_nonce x)))),
      (AUTH_REQUEST, encodeAuthRequestBody (au_mechanism auth) (bytes_of_string (clientFinalOf x proof)))]"

lemma honest_nonce: "honest cr auth x \<Longrightarrow> CHR '','' \<notin> set (ex_nonce x @ ex_suffix x)"
  by (auto simp: honest_def generateNonce_def base64Encode_def) (metis crypto_lawsD(2))

lemma honest_serverFirst:
  assumes "honest cr auth x"
  shows "parseServerFirstMessage (ex_serverFirst x) out =
    Ok (out\<lparr>sf_nonce := ex_nonce x @ ex_suffix x, sf_salt := ex_salt x, sf_iterations := int (ex_iterations x)\<rparr>)"
  using assms honest_nonce [OF assms] unfolding ex_serverFirst_def
  by (intro parseServerFirstMessage_serverFirst) (simp_all add: honest_def)

lemma honest_clientFinal:
  assumes "honest cr auth x"
  shows "\<exists>pf. sentProof cr auth x pf \<and>
    serverAccepts cr (ex_digest x) (ex_storedKey x) (ex_authMessage auth x) pf"
  using assms clientFinal_accepted [of cr "ex_salt x" "ex_saltBytes x" "ex_digest x" "au_password auth" "int (ex_iterations x)"
      "ex_storedKey x" "ex_serverKey x" "ex_authMessage auth x" "''n='' @ au_username auth @ '',r='' @ ex_nonce x"
      "ex_serverFirst x" "ex_nonce x @ ex_suffix x"]
  by (auto simp: honest_def ex_authMessage_def authMessageOf_def clientFinalOf_def sentProof_def)

lemma honest_serverFinal:
  assumes "honest cr auth x"
  shows "verifyServerFinalMessage cr (ex_final x) (au_password auth) (ex_authMessage auth x) (ex_salt x)
    (int (ex_iterations x)) (ex_digest x) = Ok True \<and> ex_final x \<noteq> []"
  using assms serverFinal_accepted [of cr "ex_salt x" "ex_saltBytes x" "ex_digest x" "au_password auth"
    "int (ex_iterations x)" "ex_storedKey x" "ex_serverKey x" "ex_authMessage auth x" "ex_final x"]
  by (auto simp: honest_def encodeServerFinal_def)

section \<open>The contract of a transport\<close>

text \<open>
  What a transport has to offer and has been handed: the values still to be read, in order, and the
  requests sent so far. Relation \<open>at\<close> ties a state of the transport to them; \<open>budget\<close> counts the
  sends that will still succeed.
\<close>

datatype item = Header byte | Byte byte | Count VInt | Text string | Bytes byteArray

locale sasl_transport =
  fixes T :: "'s SaslTransport"
    and at :: "'s \<Rightarrow> (byte \<times> byteArray) list \<Rightarrow> item list \<Rightarrow> nat \<Rightarrow> bool"
    and small :: "byteArray \<Rightarrow> bool"
  assumes send_law: "at s log is (Suc k) \<Longrightarrow> small body \<Longrightarrow>
      \<exists>s'. tr_sendRequest T opc body s = (Ok (), s') \<and> at s' (log @ [(opc, body)]) is k"
    and header_law: "at s log (Header opc # is) k \<Longrightarrow> \<exists>s'. tr_readResponseHeader T s = (Ok opc, s') \<and> at s' log is k"
    and byte_law: "at s log (Byte b # is) k \<Longrightarrow> \<exists>s'. tr_readByte T s = (Ok b, s') \<and> at s' log is k"
    and vint_law: "at s log (Count n # is) k \<Longrightarrow> \<exists>s'. tr_readVInt T s = (Ok n, s') \<and> at s' log is k"
    and string_law: "at s log (Text t # is) k \<Longrightarrow> \<exists>s'. tr_readString T s = (Ok t, s') \<and> at s' log is k"
    and bytes_law: "at s log (Bytes bs # is) k \<Longrightarrow> \<exists>s'. tr_readByteArray T s = (Ok bs, s') \<and> at s' log is k"
begin

definition reaches :: "'s \<Rightarrow> ('s, exn, 'a) comp \<Rightarrow> 'a \<Rightarrow> (byte \<times> byteArray) list \<Rightarrow> item list \<Rightarrow> nat \<Rightarrow> bool" where
  "reaches s m v log is k \<longleftrightarrow> (\<exists>s'. m s = (Ok v, s') \<and> at s' log is k)"

lemma reaches_bind:
  "reaches s m v log is k \<Longrightarrow> (\<And>s'. at s' log is k \<Longrightarrow> reaches s' (f v) w log' is' k') \<Longrightarrow>
    reaches s (bindM m f) w log' is' k'"
  by (auto simp: reaches_def bindM_Ok)

lemma reaches_ret: "at s log is k \<Longrightarrow> reaches s (ret v) v log is k"
  by (simp add: reaches_def ret_def)

lemma reaches_lift: "at s log is k \<Longrightarrow> r = Ok v \<Longrightarrow> reaches s (liftO r) v log is k"
  by (simp add: reaches_def liftO_def)

lemma reaches_catch: "reaches s m v log is k \<Longrightarrow> reaches s (catchM m h) v log is k"
  by (auto simp: reaches_def catchM_def)

lemmas transport_laws = send_law [folded reaches_def] header_law [folded reaches_def] byte_law [folded reaches_def]
  vint_law [folded reaches_def] string_law [folded reaches_def] bytes_law [folded reaches_def]

lemma readMechs_reaches:
  "at s log (map Text ms @ is) k \<Longrightarrow>
    reaches s (readMechs T mech (length ms) offered) (offered \<or> mech \<in> set ms) log is k"
proof (induction ms arbitrary: s offered)
  case Nil
  then show ?case by (simp add: reaches_ret)
next
  case (Cons m ms)
  then have "at s log (Text m # map Text ms @ is) k" by simp
  from transport_laws(5) [OF this] show ?case
  proof (simp only: length_Cons readMechs.simps, elim reaches_bind)
    fix s' assume "at s' log (map Text ms @ is) k"
    from Cons.IH [OF this, of "if m = mech then True else offered"]
    show "reaches s' (readMechs T mech (length ms) (if m = mech then True else offered))
       (offered \<or> mech \<in> set (m # ms)) log is k"
      by (auto split: if_splits)
  qed
qed

lemma readAuth_reaches:
  assumes "at s log (Header AUTH_RESPONSE # Byte b # Bytes ch # is) k"
  shows "reaches s (readAuth T node) (b \<noteq> 0, string_of_bytes ch) log is k"
  unfolding readAuth_def
  by (rule reaches_bind [OF transport_laws(2) [OF assms]], simp, rule reaches_bind, erule transport_laws(3),
      rule reaches_bind, erule transport_laws(6), erule reaches_ret)

lemma sendAuth_reaches:
  "at s log is (Suc k) \<Longrightarrow> small (encodeAuthRequestBody mech (bytes_of_string token)) \<Longrightarrow>
    reaches s (sendAuth T mech token) () (log @ [(AUTH_REQUEST, encodeAuthRequestBody mech (bytes_of_string token))]) is k"
  unfolding sendAuth_def by (rule transport_laws(1))

lemma finishScram_reaches:
  assumes "honest cr auth x"
    and "at s log ([Header AUTH_RESPONSE, Byte b, Bytes (bytes_of_string (ex_final x))] @ is) (Suc k)"
    and c: "sentProof cr auth x pf"
    and "small (encodeAuthRequestBody (au_mechanism auth) (bytes_of_string (clientFinalOf x pf)))"
  shows "reaches s (finishScram cr auth node (ex_digest x) T
      (''n='' @ au_username auth @ '',r='' @ ex_nonce x) (ex_serverFirst x)
      \<lparr>sf_nonce = ex_nonce x @ ex_suffix x, sf_salt = ex_salt x, sf_iterations = int (ex_iterations x)\<rparr>) ()
      (log @ [(AUTH_REQUEST, encodeAuthRequestBody (au_mechanism auth) (bytes_of_string (clientFinalOf x pf)))]) is k"
proof -
  have b: "beforeProof (clientFinalOf x pf) = ''c=biws,r='' @ ex_nonce x @ ex_suffix x"
    unfolding clientFinalOf_def by (rule beforeProof_clientFinal [OF honest_nonce [OF assms(1)]])
  have am: "(''n='' @ au_username auth @ '',r='' @ ex_nonce x) @ '','' @ ex_serverFirst x @ '','' @
      beforeProof (clientFinalOf x pf) = ex_authMessage auth x"
    unfolding b by (simp add: ex_authMessage_def authMessageOf_def)
  note fin = honest_serverFinal [OF assms(1)]
  have h: "at s log (Header AUTH_RESPONSE # Byte b # Bytes (bytes_of_string (ex_final x)) # is) (Suc k)"
    using assms(2) by simp
  show ?thesis
    unfolding finishScram_def ServerFirst.simps c [unfolded sentProof_def] bindM_liftO_Ok Let_def am
    by (rule reaches_bind, rule sendAuth_reaches [OF h], rule assms(4),
        rule reaches_bind, erule readAuth_reaches, unfold prod.case string_of_bytes_of_string,
        simp add: fin bindM_liftO_Ok reaches_ret)
qed

lemma handshake_completes:
  assumes "honest cr auth x"
    and "at s log ([Header AUTH_MECH_LIST_RESPONSE, Count (word_of_nat (length (ex_mechs x)))] @ map Text (ex_mechs x) @
        [Header AUTH_RESPONSE, Byte 0, Bytes (bytes_of_string (ex_serverFirst x)),
         Header AUTH_RESPONSE, Byte b, Bytes (bytes_of_string (ex_final x))] @ is) (Suc (Suc (Suc k)))"
    and sm: "\<And>pf opc body. sentProof cr auth x pf \<Longrightarrow> (opc, body) \<in> set (requestsOf auth x pf) \<Longrightarrow> small body"
  shows "\<exists>pf. reaches s (authenticate cr auth host port T) () (log @ requestsOf auth x pf) is k \<and>
    serverAccepts cr (ex_digest x) (ex_storedKey x) (ex_authMessage auth x) pf"
proof -
  from honest_clientFinal [OF assms(1)] obtain pf where
    c: "sentProof cr auth x pf"
    and acc: "serverAccepts cr (ex_digest x) (ex_storedKey x) (ex_authMessage auth x) pf" by blast
  let ?fin = "[Header AUTH_RESPONSE, Byte b, Bytes (bytes_of_string (ex_final x))] @ is"
  have d: "digestForMechanism (au_mechanism auth) = Ok (ex_digest x)" and g: "generateNonce cr 24 = Ok (ex_nonce x)"
    and off: "au_mechanism auth \<in> set (ex_mechs x)" and n: "unat (word_of_nat (length (ex_mechs x)) :: VInt) = length (ex_mechs x)"
    using assms(1) by (simp_all add: honest_def unat_length_word)
  have small: "small []" "small (encodeAuthRequestBody (au_mechanism auth)
         (bytes_of_string (createClientFirstMessage (au_username auth) (ex_nonce x))))"
    "small (encodeAuthRequestBody (au_mechanism auth) (bytes_of_string (clientFinalOf x pf)))"
    using sm [OF c] by (auto simp: requestsOf_def)
  from assms(2) have h: "at s log (Header AUTH_MECH_LIST_RESPONSE # Count (word_of_nat (length (ex_mechs x))) #
      map Text (ex_mechs x) @ (Header AUTH_RESPONSE # Byte 0 # Bytes (bytes_of_string (ex_serverFirst x)) # ?fin))
      (Suc (Suc (Suc k)))" by simp
  have log: "log @ requestsOf auth x pf = ((log @ [(AUTH_MECH_LIST_REQUEST, encodeAuthMechListRequestBody)]) @
      [(AUTH_REQUEST, encodeAuthRequestBody (au_mechanism auth)
         (bytes_of_string (createClientFirstMessage (au_username auth) (ex_nonce x))))]) @
      [(AUTH_REQUEST, encodeAuthRequestBody (au_mechanism auth) (bytes_of_string (clientFinalOf x pf)))]"
    by (simp add: requestsOf_def encodeAuthMechListRequestBody_def)
  have "reaches s (authenticate cr auth host port T) () (log @ requestsOf auth x pf) is k"
    unfolding log authenticate_def Let_def d g catchM_liftO_Ok bindM_liftO_Ok
    by (rule reaches_bind, rule transport_laws(1) [OF h], simp add: encodeAuthMechListRequestBody_def small,
        rule reaches_bind, erule transport_laws(2), simp only: simp_thms if_False,
        rule reaches_bind, erule transport_laws(4),
        unfold n, rule reaches_bind, erule readMechs_reaches, simp only: off simp_thms if_False,
        rule reaches_bind, erule sendAuth_reaches, rule small(2), rule reaches_bind, erule readAuth_reaches,
        simp only: prod.case string_of_bytes_of_string honest_serverFirst [OF assms(1)] catchM_liftO_Ok
          bindM_liftO_Ok simp_thms if_False ServerFirst.simps  bare_client_first take_append_length,
        rule finishScram_reaches [OF assms(1) _ c small(3)], assumption)
  with acc show ?thesis by blast
qed
end

section \<open>The production transport\<close>

text \<open>The bytes that carry a sequence of values; a header may come with a topology update.\<close>

inductive carries :: "ClientIntelligence \<Rightarrow> item list \<Rightarrow> byteArray \<Rightarrow> bool" for ci where
  c_none: "carries ci [] []"
| c_header: "carries ci is bs \<Longrightarrow> opc \<noteq> ERROR_RESPONSE \<Longrightarrow> (\<forall>u. update = Some u \<longrightarrow> valid_update u) \<Longrightarrow>
    carries ci (Header opc # is) (encodeResponseStart ci mid opc NO_ERROR update @ bs)"
| c_byte: "carries ci is bs \<Longrightarrow> carries ci (Byte b # is) ([b] @ bs)"
| c_count: "carries ci is bs \<Longrightarrow> carries ci (Count n # is) (writeVInt [] n @ bs)"
| c_text: "carries ci is bs \<Longrightarrow> fits32 t \<Longrightarrow> carries ci (Text t # is) (writeString [] t @ bs)"
| c_bytes: "carries ci is bs \<Longrightarrow> fits32 d \<Longrightarrow> carries ci (Bytes d # is) (writeByteArray [] d @ bs)"

inductive_cases carries_HeaderE: "carries ci (Header opc # is) bs"
inductive_cases carries_ByteE: "carries ci (Byte b # is) bs"
inductive_cases carries_CountE: "carries ci (Count n # is) bs"
inductive_cases carries_TextE: "carries ci (Text t # is) bs"
inductive_cases carries_BytesE: "carries ci (Bytes d # is) bs"

text \<open>The next k sends are accepted whole, up to B bytes each.\<close>

definition roomy :: "nat \<Rightarrow> nat \<Rightarrow> send_event list \<Rightarrow> bool" where
  "roomy B k script \<longleftrightarrow> k \<le> length script \<and> (\<forall>ev \<in> set (take k script). \<exists>n \<ge> B. ev = SendAccepts n)"

definition framesOf :: "ConnectionSaslTransport \<Rightarrow> (byte \<times> byteArray) list \<Rightarrow> byteArray" where
  "framesOf s0 log = concat (map (\<lambda>i. saslFrame s0 (sc_nextMessageId s0 + word_of_nat i) (fst (log ! i)) (snd (log ! i)))
     [0..<length log])"

definition sasl_at :: "ConnectionSaslTransport \<Rightarrow> byteArray \<Rightarrow> nat \<Rightarrow> ConnectionSaslTransport \<Rightarrow>
    (byte \<times> byteArray) list \<Rightarrow> item list \<Rightarrow> nat \<Rightarrow> bool" where
  "sasl_at s0 rest B s log is k \<longleftrightarrow> (\<exists>bs c. s = s0\<lparr>sc_conn := c, sc_nextMessageId := sc_nextMessageId s0 + word_of_nat (length log)\<rparr> \<and>
     carries (sc_intelligence s0) is bs \<and> holds c (bs @ rest) \<and> roomy B k (sendScript c) \<and>
     sent c = sent (sc_conn s0) @ framesOf s0 log)"

definition sasl_small :: "ConnectionSaslTransport \<Rightarrow> nat \<Rightarrow> byteArray \<Rightarrow> bool" where
  "sasl_small s0 B body \<longleftrightarrow> (\<forall>mid opc. length (saslFrame s0 mid opc body) \<le> B)"

lemma framesOf_snoc:
  "framesOf s0 (log @ [(opc, body)]) = framesOf s0 log @ saslFrame s0 (sc_nextMessageId s0 + word_of_nat (length log)) opc body"
proof -
  have m: "map (\<lambda>i. saslFrame s0 (sc_nextMessageId s0 + word_of_nat i) (fst ((log @ [(opc, body)]) ! i)) (snd ((log @ [(opc, body)]) ! i))) [0..<length log] =
     map (\<lambda>i. saslFrame s0 (sc_nextMessageId s0 + word_of_nat i) (fst (log ! i)) (snd (log ! i))) [0..<length log]"
    by (simp add: nth_append)
  from arg_cong [OF m, of concat] show ?thesis by (simp add: framesOf_def del: map_eq_conv)
qed

lemma saslFrame_cong: "sc_protocolVersion s = sc_protocolVersion t \<Longrightarrow> sc_intelligence s = sc_intelligence t \<Longrightarrow>
    saslFrame s = saslFrame t"
  by (intro ext) (simp add: saslFrame_def)

lemma saslFrame_not_Nil: "saslFrame s mid opc body \<noteq> []"
  by (simp add: saslFrame_def writeRequestHeader_eq)

lemma onSasl_yields:
  "yields (sc_conn s) m v rest \<Longrightarrow> \<exists>c. onSasl m s = (Ok v, s\<lparr>sc_conn := c\<rparr>) \<and> same_conn (sc_conn s) c \<and> avail c = rest"
  by (auto simp: yields_def onSasl_def)

lemma same_conn_frame: "same_conn c d \<Longrightarrow> sent d = sent c \<and> sendScript d = sendScript c \<and> cn_connected d = cn_connected c"
  by (auto simp: same_conn_def)

text \<open>A read that consumes what carries the first value keeps the transport in step with the rest.\<close>

lemma sasl_at_consume:
  assumes "sasl_at s0 rest B s log is0 k"
    and "\<And>bs c. carries (sc_intelligence s0) is0 bs \<Longrightarrow> holds c (bs @ rest) \<Longrightarrow>
      \<exists>bs' v. carries (sc_intelligence s0) is bs' \<and> yields c m v (bs' @ rest) \<and> P v"
  shows "\<exists>v s'. onSasl m s = (Ok v, s') \<and> P v \<and> sasl_at s0 rest B s' log is k"
proof -
  from assms(1) obtain bs c where s: "s = s0\<lparr>sc_conn := c, sc_nextMessageId := sc_nextMessageId s0 + word_of_nat (length log)\<rparr>"
    "carries (sc_intelligence s0) is0 bs" "holds c (bs @ rest)" "roomy B k (sendScript c)"
    "sent c = sent (sc_conn s0) @ framesOf s0 log" by (auto simp: sasl_at_def)
  from assms(2) [OF s(2,3)] obtain bs' v where b: "carries (sc_intelligence s0) is bs'" "yields c m v (bs' @ rest)" "P v" by blast
  from onSasl_yields [of s m v "bs' @ rest"] b(2) s(1) obtain d where
    d: "onSasl m s = (Ok v, s\<lparr>sc_conn := d\<rparr>)" "same_conn c d" "avail d = bs' @ rest" by auto
  from d(2,3) s b(1) have "sasl_at s0 rest B (s\<lparr>sc_conn := d\<rparr>) log is k"
    unfolding sasl_at_def
    by (intro exI [of _ bs'] exI [of _ d]) (auto simp: holds_def dest: same_conn_frame)
  with d(1) b(3) show ?thesis by blast
qed

lemma sasl_at_read:
  assumes "sasl_at s0 rest B s log is0 k"
    and "\<And>bs c. carries (sc_intelligence s0) is0 bs \<Longrightarrow> holds c (bs @ rest) \<Longrightarrow>
      \<exists>bs'. carries (sc_intelligence s0) is bs' \<and> yields c m v (bs' @ rest)"
  shows "\<exists>s'. onSasl m s = (Ok v, s') \<and> sasl_at s0 rest B s' log is k"
  using sasl_at_consume [OF assms(1), of "is" m "\<lambda>w. w = v"] assms(2) by blast

lemma sendRequest_at:
  assumes "sasl_at s0 rest B s log is (Suc k)" and "sasl_small s0 B body"
  shows "\<exists>s'. sendRequest opc body s = (Ok (), s') \<and> sasl_at s0 rest B s' (log @ [(opc, body)]) is k"
proof -
  from assms(1) obtain bs c where s: "s = s0\<lparr>sc_conn := c, sc_nextMessageId := sc_nextMessageId s0 + word_of_nat (length log)\<rparr>"
    "carries (sc_intelligence s0) is bs" "holds c (bs @ rest)" "roomy B (Suc k) (sendScript c)"
    "sent c = sent (sc_conn s0) @ framesOf s0 log" by (auto simp: sasl_at_def)
  let ?f = "saslFrame s0 (sc_nextMessageId s0 + word_of_nat (length log)) opc body"
  from s(4) obtain n script where script: "sendScript c = SendAccepts n # script" "B \<le> n" "roomy B k script"
    by (cases "sendScript c") (auto simp: roomy_def)
  from assms(2) script(2) have n: "length ?f \<le> n" by (auto simp: sasl_small_def intro: order_trans)
  obtain x xs where f: "?f = x # xs" using saslFrame_not_Nil by (cases ?f) auto
  have loop: "sendLoop (sendScript c) [] ?f = (Ok (), ?f, script)"
    using n by (simp add: script(1) f)
  let ?d = "c\<lparr>sent := sent c @ ?f, sendScript := script\<rparr>"
  have "saslFrame s = saslFrame s0" by (rule saslFrame_cong) (simp_all add: s(1))
  then have "sendRequest opc body s = (Ok (), s0\<lparr>sc_conn := ?d,
      sc_nextMessageId := sc_nextMessageId s0 + word_of_nat (length log) + 1\<rparr>)"
    using s(3) loop by (simp add: sendRequest_def Let_def s(1) catchM_def onSasl_def send_def holds_def)
  moreover have "sasl_at s0 rest B (s0\<lparr>sc_conn := ?d,
      sc_nextMessageId := sc_nextMessageId s0 + word_of_nat (length log) + 1\<rparr>) (log @ [(opc, body)]) is k"
    unfolding sasl_at_def using s(2,3,5) script(3)
    by (intro exI [of _ bs] exI [of _ ?d]) (auto simp: holds_def avail_def framesOf_snoc algebra_simps)
  ultimately show ?thesis by blast
qed

lemma saslReadResponseHeader_Ok:
  assumes "onSasl (bindM (receive 1) (\<lambda>magic. if magic ! 0 = RESPONSE_MAGIC
      then receiveResponseStart (sc_intelligence s) else throw OutOfRange)) s = (Ok st, s')"
    and "st_opcode st \<noteq> ERROR_RESPONSE" and "st_status st = NO_ERROR"
  shows "saslReadResponseHeader s = (Ok (st_opcode st), s')"
proof -
  from assms(1) obtain m c d where m: "receive 1 (sc_conn s) = (Ok m, c)" "m ! 0 = RESPONSE_MAGIC"
    "receiveResponseStart (sc_intelligence s) c = (Ok st, d)" "s' = s\<lparr>sc_conn := d\<rparr>"
    by (auto simp: onSasl_def bindM_def throw_def split: prod.splits outcome.splits if_splits)
  then show ?thesis using assms(2,3)
    by (simp add: saslReadResponseHeader_def onSasl_def bindM_def ret_def)
qed

lemma header_at:
  assumes "sasl_at s0 rest B s log (Header opc # is) k"
  shows "\<exists>s'. saslReadResponseHeader s = (Ok opc, s') \<and> sasl_at s0 rest B s' log is k"
proof -
  from assms have ci: "sc_intelligence s = sc_intelligence s0" by (auto simp: sasl_at_def)
  let ?m = "bindM (receive 1) (\<lambda>magic. if magic ! 0 = RESPONSE_MAGIC
      then receiveResponseStart (sc_intelligence s) else throw OutOfRange)"
  have "\<exists>st s'. onSasl ?m s = (Ok st, s') \<and> (st_opcode st = opc \<and> opc \<noteq> ERROR_RESPONSE \<and> st_status st = NO_ERROR) \<and>
      sasl_at s0 rest B s' log is k"
  proof (rule sasl_at_consume [OF assms], erule carries_HeaderE)
    fix bs c bs' update mid
    assume h: "holds c (bs @ rest)" and b: "bs = encodeResponseStart (sc_intelligence s0) mid opc NO_ERROR update @ bs'"
      "carries (sc_intelligence s0) is bs'" "opc \<noteq> ERROR_RESPONSE" "\<forall>u. update = Some u \<longrightarrow> valid_update u"
    from h b(1) have "holds c (encodeResponseStart (sc_intelligence s) mid opc NO_ERROR update @ bs' @ rest)" by (simp add: ci)
    from receiveResponseStart_yields [OF this b(4)] b(2,3)
    show "\<exists>bs' st. carries (sc_intelligence s0) is bs' \<and> yields c ?m st (bs' @ rest) \<and>
        st_opcode st = opc \<and> opc \<noteq> ERROR_RESPONSE \<and> st_status st = NO_ERROR"
      by (intro exI conjI) (assumption | simp)+
  qed
  then obtain st s' where "onSasl ?m s = (Ok st, s')" "st_opcode st = opc" "opc \<noteq> ERROR_RESPONSE" "st_status st = NO_ERROR"
    "sasl_at s0 rest B s' log is k" by blast
  with saslReadResponseHeader_Ok [of s st s'] show ?thesis by auto
qed

interpretation conn_transport: sasl_transport connectionSaslTransport "sasl_at s0 rest B" "sasl_small s0 B"
  for s0 rest B
proof unfold_locales
  fix s log "is" k body opc
  assume "sasl_at s0 rest B s log is (Suc k)" and "sasl_small s0 B body"
  then show "\<exists>s'. tr_sendRequest connectionSaslTransport opc body s = (Ok (), s') \<and>
      sasl_at s0 rest B s' (log @ [(opc, body)]) is k"
    unfolding connectionSaslTransport_def SaslTransport.simps by (rule sendRequest_at)
next
  fix s log opc "is" k
  assume "sasl_at s0 rest B s log (Header opc # is) k"
  then show "\<exists>s'. tr_readResponseHeader connectionSaslTransport s = (Ok opc, s') \<and> sasl_at s0 rest B s' log is k"
    unfolding connectionSaslTransport_def SaslTransport.simps by (rule header_at)
next
  fix s log b "is" k
  assume a: "sasl_at s0 rest B s log (Byte b # is) k"
  have "\<exists>s'. onSasl (receive 1) s = (Ok [b], s') \<and> sasl_at s0 rest B s' log is k"
    by (rule sasl_at_read [OF a]) (auto elim!: carries_ByteE intro!: receive_yields)
  then show "\<exists>s'. tr_readByte connectionSaslTransport s = (Ok b, s') \<and> sasl_at s0 rest B s' log is k"
    by (auto simp: connectionSaslTransport_def bindM_Ok ret_def)
next
  fix s log n "is" k
  assume a: "sasl_at s0 rest B s log (Count n # is) k"
  show "\<exists>s'. tr_readVInt connectionSaslTransport s = (Ok n, s') \<and> sasl_at s0 rest B s' log is k"
    unfolding connectionSaslTransport_def SaslTransport.simps
    by (rule sasl_at_read [OF a]) (auto elim!: carries_CountE intro!: svint.rd_enc)
next
  fix s log t "is" k
  assume a: "sasl_at s0 rest B s log (Text t # is) k"
  show "\<exists>s'. tr_readString connectionSaslTransport s = (Ok t, s') \<and> sasl_at s0 rest B s' log is k"
    unfolding connectionSaslTransport_def SaslTransport.simps
    by (rule sasl_at_read [OF a]) (auto elim!: carries_TextE intro!: sstring.rd_enc)
next
  fix s log bs "is" k
  assume a: "sasl_at s0 rest B s log (Bytes bs # is) k"
  show "\<exists>s'. tr_readByteArray connectionSaslTransport s = (Ok bs, s') \<and> sasl_at s0 rest B s' log is k"
    unfolding connectionSaslTransport_def SaslTransport.simps
    by (rule sasl_at_read [OF a]) (auto elim!: carries_BytesE intro!: sbytes.rd_enc)
qed

text \<open>The bytes of an honest server's three responses, with whatever topology updates ride along.\<close>

definition responsesOf :: "Exchange \<Rightarrow> byte \<Rightarrow> item list" where
  "responsesOf x b = [Header AUTH_MECH_LIST_RESPONSE, Count (word_of_nat (length (ex_mechs x)))] @ map Text (ex_mechs x) @
     [Header AUTH_RESPONSE, Byte 0, Bytes (bytes_of_string (ex_serverFirst x)),
      Header AUTH_RESPONSE, Byte b, Bytes (bytes_of_string (ex_final x))]"

lemma honest_handshake:
  assumes "honest cr auth x" and "carries (sc_intelligence s0) (responsesOf x b) bs"
    and "holds (sc_conn s0) (bs @ rest)" and "roomy B 3 (sendScript (sc_conn s0))"
    and "\<forall>pf. sentProof cr auth x pf \<longrightarrow> (\<forall>(opc, body) \<in> set (requestsOf auth x pf). sasl_small s0 B body)"
  shows "\<exists>pf s'. authenticate cr auth host port connectionSaslTransport s0 = (Ok (), s') \<and>
    avail (sc_conn s') = rest \<and> sent (sc_conn s') = sent (sc_conn s0) @ framesOf s0 (requestsOf auth x pf) \<and>
    serverAccepts cr (ex_digest x) (ex_storedKey x) (ex_authMessage auth x) pf"
proof -
  have "sasl_at s0 rest B s0 [] (responsesOf x b @ []) (Suc (Suc (Suc 0)))"
    unfolding sasl_at_def using assms(2-4)
    by (intro exI [of _ bs] exI [of _ "sc_conn s0"]) (simp add: framesOf_def numeral_3_eq_3)
  note start = this [unfolded responsesOf_def append_assoc]
  have "\<exists>pf. conn_transport.reaches s0 rest B s0 (authenticate cr auth host port connectionSaslTransport) ()
      ([] @ requestsOf auth x pf) [] 0 \<and> serverAccepts cr (ex_digest x) (ex_storedKey x) (ex_authMessage auth x) pf"
    by (rule conn_transport.handshake_completes [OF assms(1) start]) (use assms(5) in blast)
  then obtain pf s' where "authenticate cr auth host port connectionSaslTransport s0 = (Ok (), s')"
    "sasl_at s0 rest B s' (requestsOf auth x pf) [] 0"
    "serverAccepts cr (ex_digest x) (ex_storedKey x) (ex_authMessage auth x) pf"
    by (auto simp: conn_transport.reaches_def)
  moreover from this(2) have "avail (sc_conn s') = rest" "sent (sc_conn s') = sent (sc_conn s0) @ framesOf s0 (requestsOf auth x pf)"
    by (auto simp: sasl_at_def holds_def elim: carries.cases)
  ultimately show ?thesis by blast
qed

section \<open>A concrete handshake\<close>

definition sampleAuth :: Authentication where
  "sampleAuth = defaultAuthentication\<lparr>au_enabled := True, au_username := ''u'', au_password := ''pw''\<rparr>"

definition sampleSalted :: byteArray where
  "sampleSalted = replicate 32 (checksum (bytes_of_string ''pw'' @ [0x11]) + 5)"

definition sampleServerKey :: byteArray where
  "sampleServerKey = replicate 32 (checksum (sampleSalted @ bytes_of_string ''Server Key''))"

definition sampleNonce :: string where
  "sampleNonce = encodeLetters (replicate 24 42)"

definition sampleExchange :: Exchange where
  "sampleExchange = \<lparr>ex_digest = SHA256, ex_mechs = [''PLAIN'', ''SCRAM-SHA-256''], ex_nonce = sampleNonce,
     ex_suffix = ''xyz'', ex_salt = ''BB'', ex_saltBytes = [0x11], ex_iterations = 5,
     ex_storedKey = replicate 32 (checksum (replicate 32 (checksum (sampleSalted @ bytes_of_string ''Client Key'')))),
     ex_serverKey = sampleServerKey,
     ex_final = ''v='' @ encodeLetters (replicate 32 (checksum (sampleServerKey @ bytes_of_string
       (authMessageOf ''u'' sampleNonce (encodeServerFirst (sampleNonce @ ''xyz'') ''BB'' 5) (sampleNonce @ ''xyz'')))))\<rparr>"

lemma sampleExchange_honest: "honest letterCrypto sampleAuth sampleExchange"
proof -
  have cred: "credentials letterCrypto SHA256 ''pw'' [0x11] 5 =
      Some (ex_storedKey sampleExchange, sampleServerKey)"
    by (simp add: credentials_def letterCrypto_def EVP_MD_size_def sampleSalted_def sampleServerKey_def sampleExchange_def)
  have nonce: "generateNonce letterCrypto 24 = Ok sampleNonce" "sampleNonce \<noteq> []"
    by (simp_all add: generateNonce_def orThrow_def letterCrypto_def base64Encode_def sampleNonce_def encodeLetters_def)
  have salt: "b64Decode letterCrypto ''BB'' = Some [0x11]" by (simp add: letterCrypto_def)
  have mac: "HMAC letterCrypto SHA256 k m = Some (replicate 32 (checksum (k @ m)))" for k m
    by (simp add: letterCrypto_def EVP_MD_size_def)
  have fin: "encodeServerFinal letterCrypto SHA256 sampleServerKey (ex_authMessage sampleAuth sampleExchange) =
      Some (ex_final sampleExchange)"
    by (simp add: encodeServerFinal_def mac ex_authMessage_def ex_serverFirst_def sampleExchange_def sampleAuth_def
        defaultAuthentication_def) (simp add: letterCrypto_def)
  have fields: "ex_digest sampleExchange = SHA256" "ex_mechs sampleExchange = [''PLAIN'', ''SCRAM-SHA-256'']"
    "ex_nonce sampleExchange = sampleNonce" "ex_suffix sampleExchange = ''xyz''" "ex_salt sampleExchange = ''BB''"
    "ex_saltBytes sampleExchange = [0x11]" "ex_iterations sampleExchange = 5" "ex_serverKey sampleExchange = sampleServerKey"
    "au_password sampleAuth = ''pw''" "au_mechanism sampleAuth = ''SCRAM-SHA-256''"
    by (simp_all add: sampleExchange_def sampleAuth_def defaultAuthentication_def)
  show ?thesis
    unfolding honest_def fields using letterCrypto_laws cred nonce salt fin
    by (simp add: digestForMechanism_def mac)
qed

definition sampleTransport :: ConnectionSaslTransport where
  "sampleTransport = newConnectionSaslTransport
     ((newConnection ''h'' 11222 [RecvData (encodeResponseStart BASIC 0 AUTH_MECH_LIST_RESPONSE NO_ERROR None @
          writeVInt [] 2 @ writeString [] ''PLAIN'' @ writeString [] ''SCRAM-SHA-256''),
        RecvData (encodeResponseStart BASIC 1 AUTH_RESPONSE NO_ERROR None @ [0] @
          writeByteArray [] (bytes_of_string (ex_serverFirst sampleExchange))),
        RecvData (encodeResponseStart BASIC 2 AUTH_RESPONSE NO_ERROR None @ [1] @
          writeByteArray [] (bytes_of_string (ex_final sampleExchange)))]
        (replicate 3 (SendAccepts 1000)))\<lparr>cn_connected := True\<rparr>) 0x29 BASIC ''h'' 11222"

lemma length_encodeLetters [simp]: "length (encodeLetters bs) = 2 * length bs"
  by (induction bs) (simp_all add: encodeLetters_def)

lemma sample_carries: "carries BASIC (responsesOf sampleExchange 1) (avail (sc_conn sampleTransport))"
proof -
  have items: "responsesOf sampleExchange 1 = [Header AUTH_MECH_LIST_RESPONSE, Count 2, Text ''PLAIN'', Text ''SCRAM-SHA-256'',
      Header AUTH_RESPONSE, Byte 0, Bytes (bytes_of_string (ex_serverFirst sampleExchange)),
      Header AUTH_RESPONSE, Byte 1, Bytes (bytes_of_string (ex_final sampleExchange))]"
    by (simp add: responsesOf_def) (simp add: sampleExchange_def)
  have lens: "fits32 (ex_serverFirst sampleExchange)" "fits32 (ex_final sampleExchange)"
    by (simp_all add: ex_serverFirst_def encodeServerFirst_def sampleExchange_def sampleNonce_def to_string.simps)
  have "carries BASIC (responsesOf sampleExchange 1)
     (encodeResponseStart BASIC 0 AUTH_MECH_LIST_RESPONSE NO_ERROR None @ writeVInt [] 2 @
      writeString [] ''PLAIN'' @ writeString [] ''SCRAM-SHA-256'' @
      encodeResponseStart BASIC 1 AUTH_RESPONSE NO_ERROR None @ [0] @
      writeByteArray [] (bytes_of_string (ex_serverFirst sampleExchange)) @
      encodeResponseStart BASIC 2 AUTH_RESPONSE NO_ERROR None @ [1] @
      writeByteArray [] (bytes_of_string (ex_final sampleExchange)) @ [])"
    unfolding items by (intro carries.intros) (insert lens, simp_all add: auth_opcode_defs)
  then show ?thesis
    by (simp add: sampleTransport_def newConnectionSaslTransport_def newConnection_def avail_def)
qed

lemma length_saslFrame: "length (saslFrame s mid opc body) \<le> length body + 32"
proof -
  have "unat mid < 2 ^ (7 * Suc 9)" using unat_less_exp [of mid] by simp
  then have "length (writeVLong [] mid) \<le> 10"
    unfolding writeVLong_def length_writeVar_le_iff [symmetric] by simp
  moreover have "writeVInt [] 0 = [0]" by (simp add: writeVInt_def writeVar_small)
  ultimately show ?thesis
    by (simp add: saslFrame_def writeRequestHeader_eq defaultRequestHeader_def encodeTail40_def writeString_def)
qed

lemma length_encodeAuthRequestBody:
  "length (encodeAuthRequestBody mech token) \<le> length mech + length token + 10"
proof -
  have "length (writeVInt [] v) \<le> 5" for v
    using unat_less_exp [of v] length_writeVar_le_iff [of v 4] by (simp add: writeVInt_def)
  from this [of "word_of_nat (length mech)"] this [of "word_of_nat (length token)"] this [of 0] show ?thesis
    unfolding encodeAuthRequestBody_def
    by (subst writeByteArray_append) (auto simp: writeByteArray_def writeString_def)
qed

lemma sample_small:
  assumes "sentProof letterCrypto sampleAuth sampleExchange pf"
    and "(opc, body) \<in> set (requestsOf sampleAuth sampleExchange pf)"
  shows "sasl_small sampleTransport 1000 body"
proof -
  have "length pf = 64"
    using assms(1)
    by (auto simp: sentProof_def clientFinalOf_def createClientFinalMessage_def scram_primitives orThrow_def letterCrypto_def
        xorBytes_def base64Encode_def EVP_MD_size_def sampleExchange_def Let_def split: if_splits option.splits)
  then have "length body \<le> 900"
    using assms(2)
    by (auto simp: requestsOf_def sampleAuth_def defaultAuthentication_def sampleExchange_def clientFinalOf_def
        createClientFirstMessage_def sampleNonce_def intro!: order_trans [OF length_encodeAuthRequestBody])
  then have "length (saslFrame sampleTransport mid opc body) \<le> 1000" for mid opc
    using length_saslFrame [of sampleTransport mid opc body] by linarith
  then show ?thesis by (simp add: sasl_small_def)
qed

lemma sample_setup:
  "carries (sc_intelligence sampleTransport) (responsesOf sampleExchange 1) (avail (sc_conn sampleTransport))"
  "holds (sc_conn sampleTransport) (avail (sc_conn sampleTransport) @ [])"
  "roomy 1000 3 (sendScript (sc_conn sampleTransport))"
  using sample_carries
  by (simp_all add: sampleTransport_def newConnectionSaslTransport_def newConnection_def holds_def roomy_def)

lemma sample_requests_small:
  "\<forall>pf. sentProof letterCrypto sampleAuth sampleExchange pf \<longrightarrow>
     (\<forall>(opc, body) \<in> set (requestsOf sampleAuth sampleExchange pf). sasl_small sampleTransport 1000 body)"
  using sample_small by blast

lemmas sample_handshake = honest_handshake [OF sampleExchange_honest sample_setup sample_requests_small]

section \<open>Properties\<close>

text \<open>
  C6: authenticate returns normally only after the server has proved that it knows the password. Over any transport, a
  run that returns normally sent the mechanism list request, then client-first, received a message, sent client-final
  and received a second message, and no other SASL message passed (the run over the logged transport is the same run). The first
  message received carries a nonce that extends the one the client generated; the second, behind its first two characters, decodes to the
  HMAC, under the server key derived from the password with the salt and iteration count of the first, of the authentication message
  that contains both nonces.
\<close>

theorem authenticated_server_knows_password:
  assumes "authenticate cr auth host port T s = (Ok (), s')"
  shows "\<exists>d nonce first sf clientFinal final saltBytes salted serverKey sig.
    digestForMechanism (au_mechanism auth) = Ok d \<and> generateNonce cr 24 = Ok nonce \<and>
    authenticate cr auth host port (logged T) (s, []) = (Ok (), s',
      [Sent AUTH_MECH_LIST_REQUEST encodeAuthMechListRequestBody,
       Sent AUTH_REQUEST (encodeAuthRequestBody (au_mechanism auth) (bytes_of_string (createClientFirstMessage (au_username auth) nonce))),
       Received first,
       Sent AUTH_REQUEST (encodeAuthRequestBody (au_mechanism auth) (bytes_of_string clientFinal)),
       Received final]) \<and>
    parseServerFirstMessage (string_of_bytes first) \<lparr>sf_nonce = [], sf_salt = [], sf_iterations = 0\<rparr> = Ok sf \<and>
    (\<exists>suffix. sf_nonce sf = nonce @ suffix) \<and>
    b64Decode cr (sf_salt sf) = Some saltBytes \<and>
    PKCS5_PBKDF2_HMAC cr d (bytes_of_string (au_password auth)) saltBytes (sf_iterations sf) = Some salted \<and>
    HMAC cr d salted (bytes_of_string ''Server Key'') = Some serverKey \<and>
    HMAC cr d serverKey (bytes_of_string
      (authMessageOf (au_username auth) nonce (string_of_bytes first) (sf_nonce sf))) = Some sig \<and>
    b64Decode cr (drop 2 (string_of_bytes final)) = Some sig"
proof -
  obtain log where log: "authenticate cr auth host port (logged T) (s, []) = (Ok (), s', log)"
    using assms tracks_authenticate [of cr auth host port T] unfolding tracks_def by (metis fst_conv snd_conv prod.collapse)
  from authenticate_log [OF log] obtain d nonce first sf clientFinal final where
    a: "digestForMechanism (au_mechanism auth) = Ok d" "generateNonce cr 24 = Ok nonce"
    "log = [Sent AUTH_MECH_LIST_REQUEST encodeAuthMechListRequestBody,
      Sent AUTH_REQUEST (encodeAuthRequestBody (au_mechanism auth) (bytes_of_string (createClientFirstMessage (au_username auth) nonce))),
      Received first,
      Sent AUTH_REQUEST (encodeAuthRequestBody (au_mechanism auth) (bytes_of_string clientFinal)),
      Received final]"
    "parseServerFirstMessage (string_of_bytes first) \<lparr>sf_nonce = [], sf_salt = [], sf_iterations = 0\<rparr> = Ok sf"
    and n: "take (length nonce) (sf_nonce sf) = nonce"
    and v: "verifyServerFinalMessage cr (string_of_bytes final) (au_password auth)
      (authMessageOf (au_username auth) nonce (string_of_bytes first) (sf_nonce sf)) (sf_salt sf) (sf_iterations sf) d = Ok True"
    by blast
  from n have "\<exists>suffix. sf_nonce sf = nonce @ suffix" by (metis append_take_drop_id)
  with a log verify_true [OF v] show ?thesis by blast
qed

theorem authenticated_server_knows_password_witness:
  "\<exists>nonce s' log first final. generateNonce letterCrypto 24 = Ok nonce \<and>
    authenticate letterCrypto sampleAuth ''h'' 11222 connectionSaslTransport sampleTransport = (Ok (), s') \<and>
    authenticate letterCrypto sampleAuth ''h'' 11222 (logged connectionSaslTransport) (sampleTransport, []) = (Ok (), s', log) \<and>
    length log = 5 \<and> log ! 2 = Received first \<and> log ! 4 = Received final"
proof -
  from sample_handshake obtain s' where
    a: "authenticate letterCrypto sampleAuth ''h'' 11222 connectionSaslTransport sampleTransport = (Ok (), s')" by blast
  from authenticated_server_knows_password [OF a] obtain nonce first final clientFinal where
    "generateNonce letterCrypto 24 = Ok nonce"
    "authenticate letterCrypto sampleAuth ''h'' 11222 (logged connectionSaslTransport) (sampleTransport, []) = (Ok (), s',
      [Sent AUTH_MECH_LIST_REQUEST encodeAuthMechListRequestBody,
       Sent AUTH_REQUEST (encodeAuthRequestBody (au_mechanism sampleAuth) (bytes_of_string (createClientFirstMessage (au_username sampleAuth) nonce))),
       Received first,
       Sent AUTH_REQUEST (encodeAuthRequestBody (au_mechanism sampleAuth) (bytes_of_string clientFinal)),
       Received final])" by blast
  with a show ?thesis by (intro exI conjI) (assumption, assumption, assumption, simp_all)
qed

text \<open>
  C30: Against an honest server the handshake completes: whatever the segmentation of the stream and
  whatever topology updates the responses carry, authenticate consumes exactly the three responses,
  sends exactly the mechanism list request and the two SCRAM messages under the message ids 0, 1, 2,
  and the proof it sends is one the server accepts. The completed flag of the last response does not
  matter.
\<close>

theorem handshake_with_honest_server:
  assumes "honest cr auth x"
    and "s0 = newConnectionSaslTransport c version ci host port"
    and "carries ci (responsesOf x flag) bs" and "holds c (bs @ rest)" and "roomy B 3 (sendScript c)"
    and "\<forall>pf. sentProof cr auth x pf \<longrightarrow> (\<forall>(opc, body) \<in> set (requestsOf auth x pf). sasl_small s0 B body)"
  shows "\<exists>pf s'. authenticate cr auth host port connectionSaslTransport s0 = (Ok (), s') \<and>
    avail (sc_conn s') = rest \<and> sent (sc_conn s') = sent c @ framesOf s0 (requestsOf auth x pf) \<and>
    serverAccepts cr (ex_digest x) (ex_storedKey x) (ex_authMessage auth x) pf"
proof -
  from assms(2) have "sc_intelligence s0 = ci" and "sc_conn s0 = c"
    by (simp_all add: newConnectionSaslTransport_def)
  with honest_handshake [OF assms(1) _ _ _ assms(6), of flag bs rest host port] assms(3-5) show ?thesis by simp
qed

theorem handshake_with_honest_server_witness:
  "\<exists>pf s'. authenticate letterCrypto sampleAuth ''h'' 11222 connectionSaslTransport sampleTransport = (Ok (), s') \<and>
    avail (sc_conn s') = [] \<and>
    sent (sc_conn s') = framesOf sampleTransport (requestsOf sampleAuth sampleExchange pf)"
proof -
  have s: "sampleTransport = newConnectionSaslTransport (sc_conn sampleTransport) 0x29 BASIC ''h'' 11222"
    "sc_intelligence sampleTransport = BASIC" "sent (sc_conn sampleTransport) = []"
    by (simp_all add: sampleTransport_def newConnectionSaslTransport_def newConnection_def)
  from handshake_with_honest_server [OF sampleExchange_honest s(1) sample_setup(1) [unfolded s(2)] sample_setup(2,3)
      sample_requests_small] s(3) show ?thesis by auto
qed

text \<open>
  C35: An unsupported mechanism is refused before anything is sent or read, as a typed BeforeSend
  exception. But not every failure is typed: when the peer closes the connection instead of
  answering, the std::runtime\_error of the connection leaves authenticate as it is.
\<close>

theorem handshake_failures:
  "(au_mechanism auth \<notin> {''SCRAM-SHA-1'', ''SCRAM-SHA-256'', ''SCRAM-SHA-512''} \<longrightarrow>
     (\<exists>m. authenticate cr auth host port T s =
       (Throw (hotrod_exn m BeforeSend None [\<lparr>sa_host = host, sa_port = port\<rparr>] False), s))) \<and>
   fst (authenticate cr defaultAuthentication host port connectionSaslTransport (newConnectionSaslTransport
     ((newConnection ''h'' 1 [RecvClosed] [SendAccepts 100])\<lparr>cn_connected := True\<rparr>) 0x29 BASIC ''h'' 1)) =
   Throw (RuntimeError ''Connection closed by peer'')"
proof
  show "au_mechanism auth \<notin> {''SCRAM-SHA-1'', ''SCRAM-SHA-256'', ''SCRAM-SHA-512''} \<longrightarrow>
     (\<exists>m. authenticate cr auth host port T s =
       (Throw (hotrod_exn m BeforeSend None [\<lparr>sa_host = host, sa_port = port\<rparr>] False), s))"
    by (auto simp: authenticate_def digestForMechanism_def Let_def bindM_def catchM_def liftO_def throw_def)
next
  let ?c = "(newConnection ''h'' 1 [RecvClosed] [SendAccepts 100])\<lparr>cn_connected := True\<rparr>"
  let ?s = "newConnectionSaslTransport ?c 0x29 BASIC ''h'' 1"
  obtain s' where s': "sendRequest AUTH_MECH_LIST_REQUEST encodeAuthMechListRequestBody ?s = (Ok (), s')"
    "sasl_at ?s [] 32 s' [(AUTH_MECH_LIST_REQUEST, encodeAuthMechListRequestBody)] [] 0"
  proof -
    have "sasl_at ?s [] 32 ?s [] [] (Suc 0)"
      by (auto simp: sasl_at_def newConnectionSaslTransport_def newConnection_def holds_def avail_def roomy_def
          framesOf_def intro: carries.intros)
    moreover have "sasl_small ?s 32 encodeAuthMechListRequestBody"
      using length_saslFrame [of ?s _ _ "[]"] by (simp add: sasl_small_def encodeAuthMechListRequestBody_def)
    ultimately show ?thesis using sendRequest_at that by fastforce
  qed
  have "incoming (sc_conn s') = [RecvClosed] \<and> cn_connected (sc_conn s')"
    using s'(1) by (auto simp: sendRequest_def Let_def catchM_def onSasl_def send_def newConnectionSaslTransport_def
        newConnection_def throw_def split: prod.splits outcome.splits)
  then have "fst (saslReadResponseHeader s') = Throw (RuntimeError ''Connection closed by peer'')"
    by (simp add: saslReadResponseHeader_def bindM_def onSasl_def receive_def)
  then obtain t where t: "saslReadResponseHeader s' = (Throw (RuntimeError ''Connection closed by peer''), t)"
    by (cases "saslReadResponseHeader s'") simp
  have d: "digestForMechanism (au_mechanism defaultAuthentication) = Ok SHA256"
    by (simp add: digestForMechanism_def defaultAuthentication_def)
  have ops: "tr_sendRequest connectionSaslTransport = sendRequest"
    "tr_readResponseHeader connectionSaslTransport = saslReadResponseHeader"
    by (simp_all add: connectionSaslTransport_def)
  show "fst (authenticate cr defaultAuthentication host port connectionSaslTransport ?s) =
      Throw (RuntimeError ''Connection closed by peer'')"
    unfolding authenticate_def Let_def d catchM_liftO_Ok bindM_liftO_Ok ops
    by (subst bindM_Ok, rule s'(1), subst bindM_Throw, rule t) simp
qed

theorem handshake_failures_witness:
  "\<exists>m. authenticate letterCrypto (defaultAuthentication\<lparr>au_mechanism := ''PLAIN''\<rparr>) ''h'' 1 connectionSaslTransport sampleTransport =
     (Throw (hotrod_exn m BeforeSend None [\<lparr>sa_host = ''h'', sa_port = 1\<rparr>] False), sampleTransport)"
  using handshake_failures [of "defaultAuthentication\<lparr>au_mechanism := ''PLAIN''\<rparr>" letterCrypto "''h''" 1
      connectionSaslTransport sampleTransport]
  by simp

end
