(* ===== verification/MultiplexedConnection.thy ===== *)
theory MultiplexedConnection
  imports Sasl ServerSelection
begin

text \<open>
  include/hotrod/MultiplexedConnection.h and src/transport/MultiplexedConnection.cpp: many requests
  in flight on one socket, matched to their responses by message id.

  A promise is identified by the number of the execute call that created it (its \<open>ticket\<close>), so it
  stays apart from the message id, which is 64 bits wide and wraps. \<open>mx_results\<close> holds the
  responses set so far; \<open>mx_callbacks\<close> the topology callbacks made. An iteration of the read loop
  is a computation that may block; the threads are interleaved by the step relation below, which
  lets an iteration happen once its input is there. Locks are not modelled: each step is a section
  the code runs under one of its mutexes or on atomics. Log output is left out.
\<close>

section \<open>State\<close>

datatype Body = NoBody | ValueBody byteArray | EntryBody EntryWithMetadata

type_synonym bodyParser = "byte \<Rightarrow> byte \<Rightarrow> int32 \<Rightarrow> Body conn"

record Response =
  rp_status :: "byte option"       \<comment> \<open>None: left uninitialised\<close>
  rp_body :: Body
  rp_error :: "exn option"
  rp_topologyUpdate :: "TopologyInfo option"

record PendingRequest =
  pr_ticket :: nat
  pr_bodyParser :: bodyParser
  pr_expectedOpcode :: byte
  pr_cacheName :: string
  pr_flags :: int32

record MultiplexedConnection =
  mx_host :: string
  mx_port :: "16 word"
  mx_connection :: "Connection option"
  mx_connected :: bool
  mx_stopReadLoop :: bool
  mx_nextMessageId :: VLong
  mx_pending :: "(VLong \<times> PendingRequest) list"
  mx_readThread :: bool            \<comment> \<open>the read loop is running\<close>
  mx_joinable :: bool              \<comment> \<open>readThread\_ has not been joined\<close>
  mx_hasCallback :: bool
  mx_protocolVersion :: byte
  mx_clientIntelligence :: ClientIntelligence
  mx_topologyId :: int32
  mx_auth :: Authentication
  mx_issued :: nat
  mx_results :: "nat \<rightharpoonup> Response"
  mx_callbacks :: "(TopologyInfo \<times> string) list"

type_synonym 'a mux = "(MultiplexedConnection, exn, 'a) comp"

definition newMultiplexedConnection :: "string \<Rightarrow> 16 word \<Rightarrow> bool \<Rightarrow> MultiplexedConnection" where
  "newMultiplexedConnection host port callback =
     \<lparr>mx_host = host, mx_port = port, mx_connection = None, mx_connected = False,
      mx_stopReadLoop = False, mx_nextMessageId = 0, mx_pending = [], mx_readThread = False, mx_joinable = False,
      mx_hasCallback = callback, mx_protocolVersion = VERSION_41, mx_clientIntelligence = BASIC,
      mx_topologyId = 0, mx_auth = defaultAuthentication, mx_issued = 0, mx_results = Map.empty,
      mx_callbacks = []\<rparr>"

definition muxNode :: "MultiplexedConnection \<Rightarrow> ServerAddress list" where
  "muxNode m = [\<lparr>sa_host = mx_host m, sa_port = mx_port m\<rparr>]"

text \<open>The std::map of pending requests is the list of its entries, with keys at most once.\<close>

definition eraseEntry :: "'k \<Rightarrow> ('k \<times> 'a) list \<Rightarrow> ('k \<times> 'a) list" where
  "eraseEntry k xs = filter (\<lambda>e. fst e \<noteq> k) xs"

text \<open>Using connection\_ while it is null is undefined.\<close>

definition onMux :: "'a conn \<Rightarrow> 'a mux" where
  "onMux f = (\<lambda>m. case mx_connection m of
      None \<Rightarrow> (UB, m)
    | Some c \<Rightarrow> (case f c of (r, c) \<Rightarrow> (r, m\<lparr>mx_connection := Some c\<rparr>)))"

definition modifyM :: "(MultiplexedConnection \<Rightarrow> MultiplexedConnection) \<Rightarrow> unit mux" where
  "modifyM f = (\<lambda>m. (Ok (), f m))"

section \<open>Configuration and connecting\<close>

definition setProtocolVersion :: "byte \<Rightarrow> unit mux" where
  "setProtocolVersion version = (\<lambda>m.
     if mx_connected m then throw (RuntimeError ''Cannot change protocol version after connect()'') m
     else ret () (m\<lparr>mx_protocolVersion := version\<rparr>))"

definition setClientIntelligence :: "ClientIntelligence \<Rightarrow> unit mux" where
  "setClientIntelligence intelligence = (\<lambda>m.
     if mx_connected m then throw (RuntimeError ''Cannot change client intelligence after connect()'') m
     else ret () (m\<lparr>mx_clientIntelligence := intelligence\<rparr>))"

definition setAuthentication :: "Authentication \<Rightarrow> unit mux" where
  "setAuthentication auth = (\<lambda>m.
     if mx_connected m then throw (RuntimeError ''Cannot change authentication after connect()'') m
     else ret () (m\<lparr>mx_auth := auth\<rparr>))"

text \<open>What the network has in store for a new connection: name resolution, input, and sends.\<close>

record Network =
  nw_resolved :: "string + attempt list"
  nw_incoming :: "recv_event list"
  nw_sendScript :: "send_event list"

definition muxAuthenticate :: "Crypto \<Rightarrow> unit mux" where
  "muxAuthenticate cr = (\<lambda>m.
     if \<not> au_enabled (mx_auth m) then ret () m
     else case mx_connection m of
       None \<Rightarrow> (UB, m)
     | Some c \<Rightarrow>
         (case authenticate cr (mx_auth m) (mx_host m) (mx_port m) connectionSaslTransport
                 (newConnectionSaslTransport c (mx_protocolVersion m) (mx_clientIntelligence m)
                    (mx_host m) (mx_port m)) of
            (Throw e, s) \<Rightarrow> (Throw e, m\<lparr>mx_connection := None\<rparr>)
          | (r, s) \<Rightarrow> (r, m\<lparr>mx_connection := Some (sc_conn s)\<rparr>)))"

text \<open>
  Replacing a readThread\_ that was never joined ends the program (std::terminate): like undefined
  behaviour, it has no continuation.
\<close>

definition muxConnect :: "Crypto \<Rightarrow> Network \<Rightarrow> unit mux" where
  "muxConnect cr net = (\<lambda>m.
     if mx_connected m then throw (RuntimeError ''Already connected'') m
     else bindM (modifyM (\<lambda>m. m\<lparr>mx_connection :=
              Some (newConnection (mx_host m) (mx_port m) (nw_incoming net) (nw_sendScript net))\<rparr>)) (\<lambda>_.
          bindM (onMux (connect (nw_resolved net))) (\<lambda>_.
          bindM (muxAuthenticate cr) (\<lambda>_.
          bindM (modifyM (\<lambda>m. m\<lparr>mx_connected := True, mx_stopReadLoop := False\<rparr>)) (\<lambda>_ m.
          if mx_joinable m then (UB, m)
          else modifyM (\<lambda>m. m\<lparr>mx_readThread := True, mx_joinable := True\<rparr>) m)))) m)"

section \<open>Requests\<close>

record Call =
  cl_body :: byteArray
  cl_opcode :: byte
  cl_expectedOpcode :: byte
  cl_bodyParser :: bodyParser
  cl_cacheName :: string
  cl_flags :: int32

definition buildRequest ::
  "VLong \<Rightarrow> byte \<Rightarrow> byteArray \<Rightarrow> string \<Rightarrow> VInt \<Rightarrow> MultiplexedConnection \<Rightarrow> byteArray" where
  "buildRequest messageId opcode body cacheName flags m =
     writeRequestHeader [] (defaultRequestHeader\<lparr>rq_messageId := messageId,
       rq_version := mx_protocolVersion m, rq_opcode := opcode, rq_cacheName := cacheName,
       rq_flags := flags, rq_clientIntelligence := mx_clientIntelligence m,
       rq_topologyId := mx_topologyId m, rq_keyMediaType := 0, rq_valueMediaType := 0\<rparr>) @ body"

definition executeCheck :: "unit mux" where
  "executeCheck = (\<lambda>m.
     if \<not> mx_connected m then throw (hotrod_exn ''Not connected'' BeforeSend None (muxNode m) False) m
     else ret () m)"

text \<open>Generate the message id and register the pending request.\<close>

definition executeRegister :: "Call \<Rightarrow> VLong mux" where
  "executeRegister call = (\<lambda>m.
     let msgId = mx_nextMessageId m;
         pending = \<lparr>pr_ticket = mx_issued m, pr_bodyParser = cl_bodyParser call,
                    pr_expectedOpcode = cl_expectedOpcode call, pr_cacheName = cl_cacheName call,
                    pr_flags = cl_flags call\<rparr>
     in ret msgId (m\<lparr>mx_nextMessageId := msgId + 1, mx_issued := Suc (mx_issued m),
                     mx_pending := (msgId, pending) # eraseEntry msgId (mx_pending m)\<rparr>))"

definition executeSend :: "Call \<Rightarrow> VLong \<Rightarrow> unit mux" where
  "executeSend call msgId = (\<lambda>m.
     let completeRequest = buildRequest msgId (cl_opcode call) (cl_body call) (cl_cacheName call) (cl_flags call) m
     in catchM (onMux (send completeRequest)) (\<lambda>e.
          bindM (modifyM (\<lambda>m. m\<lparr>mx_pending := eraseEntry msgId (mx_pending m)\<rparr>)) (\<lambda>_ m.
          throw (hotrod_exn (''Send failed: '' @ what e) AfterSend None (muxNode m) False) m)) m)"

text \<open>The whole call, when no other thread intervenes; it returns the ticket of the promise.\<close>

definition execute :: "Call \<Rightarrow> nat mux" where
  "execute call = bindM executeCheck (\<lambda>_ m.
     let ticket = mx_issued m
     in bindM (executeRegister call) (\<lambda>msgId.
        bindM (executeSend call msgId) (\<lambda>_. ret ticket)) m)"

section \<open>Responses\<close>

definition setValue :: "nat \<Rightarrow> Response \<Rightarrow> MultiplexedConnection \<Rightarrow> MultiplexedConnection" where
  "setValue ticket resp m = m\<lparr>mx_results := (mx_results m)(ticket \<mapsto> resp)\<rparr>"

definition errorResponse :: "exn \<Rightarrow> Response" where
  "errorResponse e = \<lparr>rp_status = None, rp_body = NoBody, rp_error = Some e, rp_topologyUpdate = None\<rparr>"

definition closeAllPending :: "string \<Rightarrow> MultiplexedConnection \<Rightarrow> MultiplexedConnection" where
  "closeAllPending errorMsg m =
     (let resp = errorResponse (hotrod_exn errorMsg AfterSend None (muxNode m) False)
      in (foldl (\<lambda>m (msgId, pending). setValue (pr_ticket pending) resp m) m (mx_pending m))\<lparr>mx_pending := []\<rparr>)"

text \<open>Steps 2 to 5 of an iteration: a header and, for an ERROR, its message have been read.\<close>

definition dispatch :: "ResponseStart \<Rightarrow> string option \<Rightarrow> unit mux" where
  "dispatch st errorMessage = (\<lambda>m.
     case map_of (mx_pending m) (st_messageId st) of
       None \<Rightarrow> ret () m
     | Some pending \<Rightarrow>
         (let m = m\<lparr>mx_pending := eraseEntry (st_messageId st) (mx_pending m)\<rparr>;
              m = (case st_topology st of
                     Some t \<Rightarrow> if mx_hasCallback m
                               then m\<lparr>mx_callbacks := mx_callbacks m @ [(t, pr_cacheName pending)]\<rparr> else m
                   | None \<Rightarrow> m)
          in case errorMessage of
               Some msg \<Rightarrow> ret () (setValue (pr_ticket pending)
                 \<lparr>rp_status = Some (st_status st), rp_body = NoBody,
                  rp_error = Some (hotrod_exn (''Server error (status '' @ to_string (unat (st_status st)) @ ''): '' @ msg)
                    ServerError (Some (st_status st)) (muxNode m) False),
                  rp_topologyUpdate = st_topology st\<rparr> m)
             | None \<Rightarrow>
                 if st_opcode st \<noteq> pr_expectedOpcode pending
                 then ret () (setValue (pr_ticket pending) (errorResponse (hotrod_exn
                        (''Opcode mismatch: expected '' @ to_string (unat (pr_expectedOpcode pending)) @ '', got '' @
                         to_string (unat (st_opcode st))) ServerError None (muxNode m) False)) m)
                 else (case onMux (pr_bodyParser pending (st_status st) (mx_protocolVersion m) (pr_flags pending)) m of
                     (Ok body, m) \<Rightarrow> ret () (setValue (pr_ticket pending)
                       \<lparr>rp_status = Some (st_status st), rp_body = body, rp_error = None,
                        rp_topologyUpdate = st_topology st\<rparr> m)
                   | (Throw e, m) \<Rightarrow> ret () (setValue (pr_ticket pending) (errorResponse e) m)
                   | (Block, m) \<Rightarrow> (Block, m)
                   | (UB, m) \<Rightarrow> (UB, m))))"

definition readOne :: "unit mux" where
  "readOne =
     bindM (onMux (receive 1)) (\<lambda>magicByte m.
     if magicByte ! 0 \<noteq> 0xA1
     then throw (RuntimeError (''Invalid magic byte in response: '' @ to_string (unat (magicByte ! 0)))) m
     else bindM (onMux (receiveResponseStart (mx_clientIntelligence m))) (\<lambda>st.
          bindM (modifyM (\<lambda>m. case st_topology st of Some t \<Rightarrow> m\<lparr>mx_topologyId := ti_topologyId t\<rparr> | None \<Rightarrow> m)) (\<lambda>_.
          bindM (if st_opcode st = ERROR_RESPONSE then bindM (onMux receiveString) (\<lambda>msg. ret (Some msg))
                 else ret None) (\<lambda>errorMessage.
          dispatch st errorMessage))) m)"

text \<open>One iteration with its catch block; it tells whether the loop goes on.\<close>

definition readIteration :: "bool mux" where
  "readIteration = (\<lambda>m. case readOne m of
      (Ok u, m) \<Rightarrow> (Ok True, m)
    | (Throw e, m) \<Rightarrow>
        (Ok False, (closeAllPending (what e) (if \<not> mx_stopReadLoop m then m\<lparr>mx_connected := False\<rparr> else m))
                     \<lparr>mx_readThread := False\<rparr>)
    | (Block, m) \<Rightarrow> (Block, m)
    | (UB, m) \<Rightarrow> (UB, m))"

text \<open>
  close shuts the socket down, waits for the read thread, and completes what is left.
  \<open>inIteration\<close>: the read thread had passed its loop test, so it finishes that iteration.
\<close>

definition muxClose :: "bool \<Rightarrow> unit mux" where
  "muxClose inIteration =
     bindM (modifyM (\<lambda>m. m\<lparr>mx_stopReadLoop := True\<rparr>)) (\<lambda>_.
     bindM (modifyM (\<lambda>m. m\<lparr>mx_connection := map_option shutdown (mx_connection m)\<rparr>)) (\<lambda>_.
     bindM (\<lambda>m. if mx_readThread m \<and> inIteration then readIteration m else ret False m) (\<lambda>_.
     bindM (modifyM (\<lambda>m. m\<lparr>mx_readThread := False, mx_joinable := False\<rparr>)) (\<lambda>_.
     bindM (modifyM (\<lambda>m. m\<lparr>mx_connection := map_option close (mx_connection m)\<rparr>)) (\<lambda>_.
     modifyM (\<lambda>m. closeAllPending ''Connection closed'' (m\<lparr>mx_connected := False\<rparr>)))))))"

section \<open>Threads\<close>

text \<open>
  Callers and the read thread interleave. A caller passes the connected test, then registers, then
  sends; the system may hand over more input at any time.
\<close>

record System =
  sy_mux :: MultiplexedConnection
  sy_checked :: "Call list"
  sy_registered :: "(nat \<times> VLong \<times> Call) list"
  sy_failed :: "nat set"

inductive step :: "System \<Rightarrow> System \<Rightarrow> bool" where
  check: "executeCheck (sy_mux s) = (Ok (), m) \<Longrightarrow>
    step s (s\<lparr>sy_mux := m, sy_checked := sy_checked s @ [call]\<rparr>)"
| register: "sy_checked s = cs @ call # cs' \<Longrightarrow> executeRegister call (sy_mux s) = (Ok msgId, m) \<Longrightarrow>
    step s (s\<lparr>sy_mux := m, sy_checked := cs @ cs',
      sy_registered := sy_registered s @ [(mx_issued (sy_mux s), msgId, call)]\<rparr>)"
| sent: "sy_registered s = rs @ (t, msgId, call) # rs' \<Longrightarrow> executeSend call msgId (sy_mux s) = (Ok (), m) \<Longrightarrow>
    step s (s\<lparr>sy_mux := m, sy_registered := rs @ rs'\<rparr>)"
| send_failed: "sy_registered s = rs @ (t, msgId, call) # rs' \<Longrightarrow> executeSend call msgId (sy_mux s) = (Throw e, m) \<Longrightarrow>
    step s (s\<lparr>sy_mux := m, sy_registered := rs @ rs', sy_failed := insert t (sy_failed s)\<rparr>)"
| read: "mx_readThread (sy_mux s) \<Longrightarrow> \<not> mx_stopReadLoop (sy_mux s) \<Longrightarrow> mx_connected (sy_mux s) \<Longrightarrow>
    readIteration (sy_mux s) = (Ok b, m) \<Longrightarrow> step s (s\<lparr>sy_mux := m\<rparr>)"
| arrive: "mx_connection (sy_mux s) = Some c \<Longrightarrow>
    step s (s\<lparr>sy_mux := (sy_mux s)\<lparr>mx_connection := Some (c\<lparr>incoming := incoming c @ evs\<rparr>)\<rparr>\<rparr>)"
| closing: "muxClose b (sy_mux s) = (Ok (), m) \<Longrightarrow> step s (s\<lparr>sy_mux := m\<rparr>)"

definition initial :: "MultiplexedConnection \<Rightarrow> System" where
  "initial m = \<lparr>sy_mux = m, sy_checked = [], sy_registered = [], sy_failed = {}\<rparr>"

inductive reachable :: "MultiplexedConnection \<Rightarrow> System \<Rightarrow> bool" for m where
  start: "reachable m (initial m)"
| next_step: "reachable m s \<Longrightarrow> step s s' \<Longrightarrow> reachable m s'"

text \<open>
  The bookkeeping: every pending entry stands under the message id its ticket was given, its promise
  is unset, and results exist only for tickets that were issued.
\<close>

definition mux_inv :: "MultiplexedConnection \<Rightarrow> bool" where
  "mux_inv m \<longleftrightarrow> mx_nextMessageId m = word_of_nat (mx_issued m) \<and>
     distinct (map fst (mx_pending m)) \<and>
     (\<forall>(i, p) \<in> set (mx_pending m).
        i = word_of_nat (pr_ticket p) \<and> pr_ticket p < mx_issued m \<and> mx_results m (pr_ticket p) = None) \<and>
     (\<forall>t. mx_results m t \<noteq> None \<longrightarrow> t < mx_issued m)"

section \<open>What each operation changes\<close>

text \<open>\<open>only_conn m m'\<close>: nothing but the socket's state differs.\<close>

definition only_conn :: "MultiplexedConnection \<Rightarrow> MultiplexedConnection \<Rightarrow> bool" where
  "only_conn m m' \<longleftrightarrow> (\<exists>c. m' = m\<lparr>mx_connection := c\<rparr>)"

lemma only_conn_refl [simp]: "only_conn m m"
  unfolding only_conn_def by (rule exI [of _ "mx_connection m"]) simp

lemma onMux_only_conn: "onMux f m = (r, m') \<Longrightarrow> only_conn m m'"
  unfolding onMux_def only_conn_def
  by (cases "mx_connection m") (auto split: prod.splits intro: exI [of _ "mx_connection m"])

lemma mux_inv_only_conn: "only_conn m m' \<Longrightarrow> mux_inv m' = mux_inv m"
  by (auto simp: only_conn_def mux_inv_def)

lemma eraseEntry_set [simp]: "set (eraseEntry k xs) = {e \<in> set xs. fst e \<noteq> k}"
  by (simp add: eraseEntry_def)

lemma eraseEntry_distinct: "distinct (map fst xs) \<Longrightarrow> distinct (map fst (eraseEntry k xs))"
  by (simp add: eraseEntry_def distinct_map_filter)

lemma map_of_eraseEntry: "map_of (eraseEntry k xs) i = (if i = k then None else map_of xs i)"
  by (induction xs) (auto simp: eraseEntry_def)

lemma mux_inv_erase: "mux_inv m \<Longrightarrow> mux_inv (m\<lparr>mx_pending := eraseEntry k (mx_pending m)\<rparr>)"
  by (auto simp: mux_inv_def eraseEntry_distinct)

lemma mux_inv_register:
  assumes "mux_inv m" and "executeRegister call m = (r, m')"
  shows "mux_inv m'"
proof -
  from assms(1) have fresh: "mx_results m (mx_issued m) = None" unfolding mux_inv_def by blast
  from assms have m': "m' = m\<lparr>mx_nextMessageId := mx_nextMessageId m + 1, mx_issued := Suc (mx_issued m),
      mx_pending := mx_pending m'\<rparr>" and p: "distinct (map fst (mx_pending m'))"
    "\<And>i p. (i, p) \<in> set (mx_pending m') \<Longrightarrow> i = mx_nextMessageId m \<and> pr_ticket p = mx_issued m \<or> (i, p) \<in> set (mx_pending m)"
    by (auto simp: executeRegister_def Let_def ret_def eraseEntry_distinct mux_inv_def)
  have "i = word_of_nat (pr_ticket q) \<and> pr_ticket q < Suc (mx_issued m) \<and> mx_results m (pr_ticket q) = None"
    if "(i, q) \<in> set (mx_pending m')" for i q
    using p(2) [OF that] assms(1) fresh by (auto simp: mux_inv_def)
  moreover have "t < Suc (mx_issued m)" if "mx_results m t \<noteq> None" for t
    using assms(1) that by (auto simp: mux_inv_def less_Suc_eq)
  ultimately show ?thesis
    using p(1) assms(1) by (subst m') (auto simp: mux_inv_def)
qed

lemma mux_inv_set_erased:
  assumes inv: "mux_inv m" and p: "map_of (mx_pending m) k = Some p"
  shows "mux_inv (setValue (pr_ticket p) resp (m\<lparr>mx_pending := eraseEntry k (mx_pending m)\<rparr>))"
proof -
  from p have kp: "(k, p) \<in> set (mx_pending m)" by (rule map_of_SomeD)
  with inv have k: "k = word_of_nat (pr_ticket p)" "pr_ticket p < mx_issued m" by (auto simp: mux_inv_def)
  have "pr_ticket q \<noteq> pr_ticket p" if "(i, q) \<in> set (mx_pending m)" "i \<noteq> k" for i q
    using inv that k(1) by (auto simp: mux_inv_def)
  with inv k(2) show ?thesis
    by (auto simp: mux_inv_def setValue_def eraseEntry_distinct)
qed

lemma results_foldl_setValue:
  "mx_results (foldl (\<lambda>m (msgId, pending). setValue (pr_ticket pending) resp m) m xs) t =
     (if t \<in> pr_ticket ` snd ` set xs then Some resp else mx_results m t)"
  by (induction xs arbitrary: m) (auto simp: setValue_def)

lemma foldl_setValue_frame:
  "\<exists>r. foldl (\<lambda>m (msgId, pending). setValue (pr_ticket pending) resp m) m xs = m\<lparr>mx_results := r\<rparr>"
proof (induction xs arbitrary: m)
  case Nil
  show ?case by (rule exI [of _ "mx_results m"]) simp
next
  case (Cons x xs)
  obtain i p where x: "x = (i, p)" by (cases x)
  from Cons.IH [of "setValue (pr_ticket p) resp m"] obtain r where
    "foldl (\<lambda>m (msgId, pending). setValue (pr_ticket pending) resp m) (setValue (pr_ticket p) resp m) xs =
       (setValue (pr_ticket p) resp m)\<lparr>mx_results := r\<rparr>" by blast
  then show ?case by (auto simp: x setValue_def)
qed

lemma closeAllPending_eq:
  "closeAllPending msg m = m\<lparr>mx_pending := [], mx_results := (\<lambda>t. if t \<in> pr_ticket ` snd ` set (mx_pending m)
      then Some (errorResponse (hotrod_exn msg AfterSend None (muxNode m) False)) else mx_results m t)\<rparr>"
proof -
  let ?resp = "errorResponse (hotrod_exn msg AfterSend None (muxNode m) False)"
  from foldl_setValue_frame [of ?resp m "mx_pending m"] obtain r where
    r: "foldl (\<lambda>m (msgId, pending). setValue (pr_ticket pending) ?resp m) m (mx_pending m) = m\<lparr>mx_results := r\<rparr>" by blast
  have "r = (\<lambda>t. if t \<in> pr_ticket ` snd ` set (mx_pending m) then Some ?resp else mx_results m t)"
    using results_foldl_setValue [of ?resp m "mx_pending m"] unfolding r by auto
  with r show ?thesis by (simp add: closeAllPending_def Let_def)
qed

lemma mux_inv_closeAllPending:
  assumes "mux_inv m"
  shows "mux_inv (closeAllPending msg m)"
  using assms by (auto simp: closeAllPending_eq mux_inv_def split: if_splits)

lemma bindM_cases:
  assumes "bindM f g s = (r, t)"
  obtains (Ok) a s' where "f s = (Ok a, s')" "g a s' = (r, t)"
  | (Throw) e where "f s = (Throw e, t)" "r = Throw e"
  | (Block) "f s = (Block, t)" "r = Block"
  | (UB) "f s = (UB, t)" "r = UB"
  using assms by (auto simp: bindM_def split: prod.splits outcome.splits)

text \<open>What an iteration may do: consume input, take pending requests out and set their promises.\<close>

definition removed :: "MultiplexedConnection \<Rightarrow> MultiplexedConnection \<Rightarrow> nat set" where
  "removed m m' = pr_ticket ` snd ` (set (mx_pending m) - set (mx_pending m'))"

definition progress :: "MultiplexedConnection \<Rightarrow> MultiplexedConnection \<Rightarrow> bool" where
  "progress m m' \<longleftrightarrow> (mux_inv m \<longrightarrow> mux_inv m') \<and> mx_issued m' = mx_issued m \<and>
     set (mx_pending m') \<subseteq> set (mx_pending m) \<and>
     (mux_inv m \<longrightarrow> (\<forall>t. mx_results m' t = mx_results m t \<or> mx_results m t = None \<and> t \<in> removed m m'))"

lemma progress_refl [simp]: "progress m m"
  by (simp add: progress_def)

lemma progress_trans: "progress m n \<Longrightarrow> progress n l \<Longrightarrow> progress m l"
proof -
  assume mn: "progress m n" and nl: "progress n l"
  from mn nl have sub: "removed m n \<subseteq> removed m l" "removed n l \<subseteq> removed m l"
    unfolding removed_def by (intro image_mono; auto simp: progress_def)+
  have "mx_results l t = mx_results m t \<or> mx_results m t = None \<and> t \<in> removed m l" if "mux_inv m" for t
  proof -
    from mn nl that have "mx_results n t = mx_results m t \<or> mx_results m t = None \<and> t \<in> removed m n"
      and "mx_results l t = mx_results n t \<or> mx_results n t = None \<and> t \<in> removed n l"
      by (auto simp: progress_def)
    with sub show ?thesis by auto
  qed
  with mn nl show ?thesis by (auto simp: progress_def)
qed

lemma progress_only_conn: "only_conn m m' \<Longrightarrow> progress m m'"
  by (auto simp: progress_def only_conn_def mux_inv_def)

lemma progress_erase: "progress m (m\<lparr>mx_pending := eraseEntry k (mx_pending m), mx_callbacks := cb, mx_connection := c\<rparr>)"
  by (auto simp: progress_def mux_inv_def eraseEntry_distinct)

lemma progress_deliver:
  assumes "map_of (mx_pending m) k = Some p"
  shows "progress m (setValue (pr_ticket p) resp
    (m\<lparr>mx_pending := eraseEntry k (mx_pending m), mx_callbacks := cb, mx_connection := c\<rparr>))" (is "progress m ?m'")
proof -
  have "mux_inv ?m'" if "mux_inv m"
    using mux_inv_set_erased [OF that assms, of resp] by (simp add: mux_inv_def setValue_def)
  moreover from map_of_SomeD [OF assms] have "(k, p) \<in> set (mx_pending m) - set (mx_pending ?m')"
    by (simp add: setValue_def)
  then have "pr_ticket p \<in> removed m ?m'" unfolding removed_def by force
  moreover have "mx_results m (pr_ticket p) = None" if "mux_inv m"
    using that map_of_SomeD [OF assms] by (auto simp: mux_inv_def)
  ultimately show ?thesis by (auto simp: progress_def setValue_def)
qed

lemma keeps_onMux: "keeps progress (onMux f)"
  unfolding keeps_def using onMux_only_conn progress_only_conn by (metis prod.collapse)

lemma keeps_ret: "keeps progress (ret a)"
  by (simp add: keeps_def ret_def)

lemma keeps_throw: "keeps progress (throw e)"
  by (simp add: keeps_def throw_def)

lemma only_connD: "only_conn m m' \<Longrightarrow> m' = m\<lparr>mx_connection := mx_connection m'\<rparr>"
  by (auto simp: only_conn_def)

text \<open>The state in which a request found in the map is handled.\<close>

definition taken :: "ResponseStart \<Rightarrow> PendingRequest \<Rightarrow> MultiplexedConnection \<Rightarrow> MultiplexedConnection" where
  "taken st p m = m\<lparr>mx_pending := eraseEntry (st_messageId st) (mx_pending m),
     mx_callbacks := (case st_topology st of
         Some t \<Rightarrow> if mx_hasCallback m then mx_callbacks m @ [(t, pr_cacheName p)] else mx_callbacks m
       | None \<Rightarrow> mx_callbacks m)\<rparr>"

lemma dispatch_taken:
  assumes "map_of (mx_pending m) (st_messageId st) = Some p"
  shows "dispatch st err m = (case err of
      Some msg \<Rightarrow> ret () (setValue (pr_ticket p)
        \<lparr>rp_status = Some (st_status st), rp_body = NoBody,
         rp_error = Some (hotrod_exn (''Server error (status '' @ to_string (unat (st_status st)) @ ''): '' @ msg)
           ServerError (Some (st_status st)) (muxNode m) False),
         rp_topologyUpdate = st_topology st\<rparr> (taken st p m))
    | None \<Rightarrow>
        if st_opcode st \<noteq> pr_expectedOpcode p
        then ret () (setValue (pr_ticket p) (errorResponse (hotrod_exn
               (''Opcode mismatch: expected '' @ to_string (unat (pr_expectedOpcode p)) @ '', got '' @
                to_string (unat (st_opcode st))) ServerError None (muxNode m) False)) (taken st p m))
        else (case onMux (pr_bodyParser p (st_status st) (mx_protocolVersion m) (pr_flags p)) (taken st p m) of
            (Ok body, n) \<Rightarrow> ret () (setValue (pr_ticket p)
              \<lparr>rp_status = Some (st_status st), rp_body = body, rp_error = None,
               rp_topologyUpdate = st_topology st\<rparr> n)
          | (Throw e, n) \<Rightarrow> ret () (setValue (pr_ticket p) (errorResponse e) n)
          | (Block, n) \<Rightarrow> (Block, n)
          | (UB, n) \<Rightarrow> (UB, n)))"
proof -
  have "(case st_topology st of Some t \<Rightarrow> if mx_hasCallback m'
      then m'\<lparr>mx_callbacks := mx_callbacks m' @ [(t, pr_cacheName p)]\<rparr> else m' | None \<Rightarrow> m') = taken st p m"
    if "m' = m\<lparr>mx_pending := eraseEntry (st_messageId st) (mx_pending m)\<rparr>" for m'
    using that by (auto simp: taken_def split: option.splits)
  note n = this [OF refl]
  have eqs: "muxNode (taken st p m) = muxNode m" "mx_protocolVersion (taken st p m) = mx_protocolVersion m"
    by (simp_all add: muxNode_def taken_def)
  show ?thesis unfolding dispatch_def assms option.case Let_def n eqs by (rule refl)
qed

lemma taken_conn: "(taken st p m)\<lparr>mx_connection := c\<rparr> =
    m\<lparr>mx_pending := eraseEntry (st_messageId st) (mx_pending m), mx_callbacks := mx_callbacks (taken st p m),
      mx_connection := c\<rparr>"
  by (simp add: taken_def)

lemma taken_self: "taken st p m = (taken st p m)\<lparr>mx_connection := mx_connection m\<rparr>"
  by (simp add: taken_def)

lemma progress_taken: "progress m ((taken st p m)\<lparr>mx_connection := c\<rparr>)"
  unfolding taken_conn by (rule progress_erase)

lemma progress_taken_set:
  "map_of (mx_pending m) (st_messageId st) = Some p \<Longrightarrow>
    progress m (setValue (pr_ticket p) resp ((taken st p m)\<lparr>mx_connection := c\<rparr>))"
  unfolding taken_conn by (rule progress_deliver)

lemma dispatch_progress: "progress m (snd (dispatch st err m))"
proof (cases "map_of (mx_pending m) (st_messageId st)")
  case None
  then show ?thesis by (simp add: dispatch_def ret_def)
next
  case (Some p)
  obtain r n where o: "onMux (pr_bodyParser p (st_status st) (mx_protocolVersion m) (pr_flags p)) (taken st p m) = (r, n)"
    by (cases "onMux (pr_bodyParser p (st_status st) (mx_protocolVersion m) (pr_flags p)) (taken st p m)")
  from onMux_only_conn [OF o] obtain c where n: "n = (taken st p m)\<lparr>mx_connection := c\<rparr>" by (auto simp: only_conn_def)
  note s = progress_taken_set [OF Some, where c = "mx_connection m", folded taken_self]
    progress_taken_set [OF Some, where c = c] progress_taken [where m = m and st = st and p = p and c = c]
  show ?thesis
  proof (cases err)
    case None
    then show ?thesis unfolding dispatch_taken [OF Some] o n by (cases r) (simp_all add: ret_def s)
  next
    case (Some msg)
    then show ?thesis unfolding dispatch_taken [OF \<open>map_of _ _ = Some p\<close>] by (simp add: ret_def s)
  qed
qed

lemma keeps_dispatch: "keeps progress (dispatch st err)"
  by (simp add: keeps_def dispatch_progress)

lemma keeps_topologyId: "keeps progress (modifyM (\<lambda>m. case t of Some t \<Rightarrow> m\<lparr>mx_topologyId := f t\<rparr> | None \<Rightarrow> m))"
  by (auto simp: keeps_def modifyM_def progress_def mux_inv_def split: option.splits)

lemma readOne_progress: "progress m (snd (readOne m))"
proof -
  let ?rest = "(\<lambda>st.
          bindM (modifyM (\<lambda>m. case st_topology st of Some t \<Rightarrow> m\<lparr>mx_topologyId := ti_topologyId t\<rparr> | None \<Rightarrow> m)) (\<lambda>_.
          bindM (if st_opcode st = ERROR_RESPONSE then bindM (onMux receiveString) (\<lambda>msg. ret (Some msg))
                 else ret None) (\<lambda>errorMessage.
          dispatch st errorMessage)))"
  have "keeps progress readOne"
    unfolding readOne_def
  proof (rule keeps_bind [OF progress_trans keeps_onMux])
    fix magicByte :: byteArray
    show "keeps progress (\<lambda>m :: MultiplexedConnection. if magicByte ! 0 \<noteq> 0xA1
     then throw (RuntimeError (''Invalid magic byte in response: '' @ to_string (unat (magicByte ! 0)))) m
     else bindM (onMux (receiveResponseStart (mx_clientIntelligence m))) ?rest m)"
      unfolding keeps_def
    proof
      fix m :: MultiplexedConnection
      have "keeps progress (bindM (onMux (receiveResponseStart (mx_clientIntelligence m))) ?rest)"
        by (intro keeps_bind [OF progress_trans] keeps_onMux keeps_topologyId keeps_if keeps_ret keeps_dispatch)
      then show "progress m (snd (if magicByte ! 0 \<noteq> 0xA1
        then throw (RuntimeError (''Invalid magic byte in response: '' @ to_string (unat (magicByte ! 0)))) m
        else bindM (onMux (receiveResponseStart (mx_clientIntelligence m))) ?rest m))"
        by (simp add: keeps_def throw_def)
    qed
  qed
  then show ?thesis by (simp add: keeps_def)
qed

section \<open>Promises are kept\<close>

text \<open>The fields that keep the books.\<close>

definition same_books :: "MultiplexedConnection \<Rightarrow> MultiplexedConnection \<Rightarrow> bool" where
  "same_books m m' \<longleftrightarrow> mx_pending m' = mx_pending m \<and> mx_results m' = mx_results m \<and> mx_issued m' = mx_issued m \<and>
     mx_nextMessageId m' = mx_nextMessageId m"

lemma same_books_refl [simp]: "same_books m m"
  by (simp add: same_books_def)

lemma same_books_trans: "same_books m n \<Longrightarrow> same_books n l \<Longrightarrow> same_books m l"
  by (simp add: same_books_def)

lemma same_books_only_conn: "only_conn m m' \<Longrightarrow> same_books m m'"
  by (auto simp: only_conn_def same_books_def)

lemma same_books_onMux: "onMux f m = (r, m') \<Longrightarrow> same_books m m'"
  by (rule same_books_only_conn, rule onMux_only_conn)

lemma mux_inv_same_books: "same_books m m' \<Longrightarrow> mux_inv m' = mux_inv m"
  by (simp add: same_books_def mux_inv_def)

text \<open>Reading the start of a response keeps the books; only dispatching settles requests.\<close>

lemma readOne_split:
  assumes "readOne m = (r, m')"
  shows "(\<exists>st err m1. same_books m m1 \<and> dispatch st err m1 = (r, m')) \<or> same_books m m' \<and> (\<forall>u. r \<noteq> Ok u)"
proof -
  from assms show ?thesis
    unfolding readOne_def
  proof (cases rule: bindM_cases)
    case (Ok magic m1)
    note b1 = same_books_onMux [OF Ok(1)]
    show ?thesis
    proof (cases "magic ! 0 = 0xA1")
      case False
      with Ok(2) b1 show ?thesis by (auto simp: throw_def)
    next
      case True
      with Ok(2) have "bindM (onMux (receiveResponseStart (mx_clientIntelligence m1))) (\<lambda>st.
          bindM (modifyM (\<lambda>m. case st_topology st of Some t \<Rightarrow> m\<lparr>mx_topologyId := ti_topologyId t\<rparr> | None \<Rightarrow> m)) (\<lambda>_.
          bindM (if st_opcode st = ERROR_RESPONSE then bindM (onMux receiveString) (\<lambda>msg. ret (Some msg))
                 else ret None) (\<lambda>errorMessage. dispatch st errorMessage))) m1 = (r, m')" by simp
      then show ?thesis
      proof (cases rule: bindM_cases)
        case (Ok st m2)
        let ?m3 = "case st_topology st of Some t \<Rightarrow> m2\<lparr>mx_topologyId := ti_topologyId t\<rparr> | None \<Rightarrow> m2"
        from same_books_onMux [OF Ok(1)] have "same_books m1 ?m3" by (auto simp: same_books_def split: option.splits)
        with b1 have b3: "same_books m ?m3" by (rule same_books_trans)
        from Ok(2) have "bindM (if st_opcode st = ERROR_RESPONSE then bindM (onMux receiveString) (\<lambda>msg. ret (Some msg))
                 else ret None) (\<lambda>errorMessage. dispatch st errorMessage) ?m3 = (r, m')"
          by (simp add: bindM_def modifyM_def)
        then show ?thesis
        proof (cases rule: bindM_cases)
          case (Ok err m4)
          then have "same_books ?m3 m4"
            by (auto simp: ret_def bindM_eq_Ok_iff split: if_splits dest: same_books_onMux)
          with b3 Ok(2) show ?thesis by (blast intro: same_books_trans)
        next
          case (Throw e)
          then have "same_books ?m3 m'" by (auto simp: ret_def bindM_def split: if_splits prod.splits outcome.splits dest: same_books_onMux)
          with b3 Throw(2) show ?thesis by (auto intro: same_books_trans)
        next
          case Block
          then have "same_books ?m3 m'" by (auto simp: ret_def bindM_def split: if_splits prod.splits outcome.splits dest: same_books_onMux)
          with b3 Block(2) show ?thesis by (auto intro: same_books_trans)
        next
          case UB
          then have "same_books ?m3 m'" by (auto simp: ret_def bindM_def split: if_splits prod.splits outcome.splits dest: same_books_onMux)
          with b3 UB(2) show ?thesis by (auto intro: same_books_trans)
        qed
      qed (use b1 in \<open>auto dest: same_books_onMux intro: same_books_trans\<close>)
    qed
  qed (auto dest: same_books_onMux)
qed

lemma dispatch_never_throws: "dispatch st err m \<noteq> (Throw e, m')"
proof (cases "map_of (mx_pending m) (st_messageId st)")
  case (Some p)
  show ?thesis unfolding dispatch_taken [OF Some]
    by (auto simp: ret_def split: option.splits prod.splits outcome.splits)
qed (simp add: dispatch_def ret_def)

lemma dispatch_settles:
  assumes "dispatch st err m = (Ok (), m')" and inv: "mux_inv m"
  shows "removed m m' \<subseteq> dom (mx_results m')"
proof (cases "map_of (mx_pending m) (st_messageId st)")
  case None
  with assms(1) show ?thesis by (simp add: dispatch_def ret_def removed_def)
next
  case (Some p)
  have "\<exists>resp n. m' = setValue (pr_ticket p) resp n \<and> mx_pending n = eraseEntry (st_messageId st) (mx_pending m)"
    using assms(1) unfolding dispatch_taken [OF Some]
    by (auto simp: ret_def same_books_def split: option.splits prod.splits outcome.splits if_splits dest!: same_books_onMux)
      ((rule exI, rule exI, rule conjI, rule refl, simp add: taken_def)+)?
  then obtain resp n where m': "m' = setValue (pr_ticket p) resp n"
    "mx_pending n = eraseEntry (st_messageId st) (mx_pending m)" by blast
  have "q = p" if "(st_messageId st, q) \<in> set (mx_pending m)" for q
    using that Some inv by (auto simp: mux_inv_def dest: map_of_is_SomeI)
  then have "removed m m' \<subseteq> {pr_ticket p}" by (auto simp: removed_def m' setValue_def)
  then show ?thesis by (auto simp: m' setValue_def)
qed

text \<open>Progress in which every request taken out is answered.\<close>

definition answers :: "MultiplexedConnection \<Rightarrow> MultiplexedConnection \<Rightarrow> bool" where
  "answers m m' \<longleftrightarrow> progress m m' \<and> (mux_inv m \<longrightarrow> removed m m' \<subseteq> dom (mx_results m'))"

lemma answers_same_books: "same_books m m' \<Longrightarrow> answers m m'"
  by (auto simp: answers_def progress_def same_books_def mux_inv_def removed_def)

lemma removed_trans: "progress m n \<Longrightarrow> progress n l \<Longrightarrow> removed m l \<subseteq> removed m n \<union> removed n l"
  by (auto simp: removed_def progress_def)

lemma answers_trans:
  assumes "answers m n" and "answers n l"
  shows "answers m l"
proof -
  from assms have p: "progress m n" "progress n l" by (simp_all add: answers_def)
  have "removed m l \<subseteq> dom (mx_results l)" if "mux_inv m"
  proof -
    from p(1) that have n: "mux_inv n" by (simp add: progress_def)
    with p(2) have "dom (mx_results n) \<subseteq> dom (mx_results l)" by (auto simp: progress_def dom_def) (metis option.distinct(1))
    moreover from assms that n have "removed m n \<subseteq> dom (mx_results n)" "removed n l \<subseteq> dom (mx_results l)"
      by (simp_all add: answers_def)
    ultimately show ?thesis using removed_trans [OF p] by blast
  qed
  with p show ?thesis by (auto simp: answers_def intro: progress_trans)
qed

lemma answers_closeAllPending: "answers m (closeAllPending msg m)"
proof -
  have "mx_results m (pr_ticket p) = None" if "mux_inv m" "(i, p) \<in> set (mx_pending m)" for i p
    using that by (auto simp: mux_inv_def)
  then show ?thesis
    using mux_inv_closeAllPending [of m msg]
    by (auto simp: answers_def progress_def closeAllPending_eq removed_def) force+
qed

lemma answers_readOne:
  assumes "readOne m = (r, m')" and "r = Ok () \<or> (\<exists>e. r = Throw e)"
  shows "answers m m'"
  using readOne_split [OF assms(1)]
proof (elim disjE exE conjE)
  fix st err m1
  assume b: "same_books m m1" and d: "dispatch st err m1 = (r, m')"
  from assms(2) d dispatch_never_throws have r: "r = Ok ()" by blast
  have "answers m1 m'"
    using dispatch_settles [of st err m1 m'] dispatch_progress [of m1 st err] d r by (auto simp: answers_def)
  with answers_same_books [OF b] show ?thesis by (rule answers_trans)
qed (rule answers_same_books)

lemma answers_readIteration:
  assumes "readIteration m = (Ok b, m')"
  shows "answers m m'"
proof -
  obtain r n where n: "readOne m = (r, n)" by (cases "readOne m")
  let ?f = "\<lambda>n. if \<not> mx_stopReadLoop n then n\<lparr>mx_connected := False\<rparr> else n"
  show ?thesis
  proof (cases r)
    case (Ok u)
    with assms n answers_readOne [OF n] show ?thesis by (simp add: readIteration_def)
  next
    case (Throw e)
    with assms n have m': "m' = (closeAllPending (what e) (?f n))\<lparr>mx_readThread := False\<rparr>"
      by (simp add: readIteration_def)
    have "answers m n" using answers_readOne [OF n] Throw by blast
    moreover have "answers n (?f n)" by (rule answers_same_books) (simp add: same_books_def)
    moreover note answers_closeAllPending [of "?f n" "what e"]
    moreover have "answers (closeAllPending (what e) (?f n)) m'"
      unfolding m' by (rule answers_same_books) (simp add: same_books_def)
    ultimately show ?thesis by (blast intro: answers_trans)
  qed (use assms n in \<open>auto simp: readIteration_def\<close>)
qed

lemma answers_muxClose:
  assumes "muxClose b m = (Ok (), m')"
  shows "answers m m' \<and> mx_pending m' = [] \<and> \<not> mx_connected m' \<and> \<not> mx_readThread m'"
proof -
  let ?m1 = "m\<lparr>mx_stopReadLoop := True, mx_connection := map_option shutdown (mx_connection m)\<rparr>"
  let ?i = "if mx_readThread ?m1 \<and> b then readIteration ?m1 else ret False ?m1"
  obtain r m2 where i: "?i = (r, m2)" by (cases ?i)
  have "(case r of Ok u \<Rightarrow> (Ok (), closeAllPending ''Connection closed''
      (m2\<lparr>mx_readThread := False, mx_joinable := False, mx_connection := map_option close (mx_connection m2), mx_connected := False\<rparr>))
      | Throw e \<Rightarrow> (Throw e, m2) | Block \<Rightarrow> (Block, m2) | UB \<Rightarrow> (UB, m2)) = (Ok (), m')"
    using assms i by (cases r) (simp_all add: muxClose_def modifyM_def bindM_def cong: if_cong)
  then have ok: "\<exists>u. r = Ok u" and m': "m' = closeAllPending ''Connection closed''
      (m2\<lparr>mx_readThread := False, mx_joinable := False, mx_connection := map_option close (mx_connection m2), mx_connected := False\<rparr>)"
    by (cases r; simp)+
  have "answers m ?m1" by (rule answers_same_books) (simp add: same_books_def)
  moreover have "answers ?m1 m2"
    using i ok answers_readIteration [of ?m1 _ m2] answers_same_books [of ?m1 ?m1] by (auto simp: ret_def split: if_splits)
  moreover have "answers m2 (m2\<lparr>mx_readThread := False, mx_joinable := False, mx_connection := map_option close (mx_connection m2), mx_connected := False\<rparr>)"
    by (rule answers_same_books) (simp add: same_books_def)
  ultimately have "answers m m'" unfolding m' by (blast intro: answers_trans answers_closeAllPending)
  then show ?thesis by (simp add: m' closeAllPending_eq)
qed

lemma progress_keeps_results:
  "progress m m' \<Longrightarrow> mux_inv m \<Longrightarrow> mx_results m t = Some r \<Longrightarrow> mx_results m' t = Some r"
  unfolding progress_def by (metis option.distinct(1))

section \<open>Reachable states\<close>

inductive_cases stepE: "step s s'"

text \<open>
  Every promise is accounted for: the request is still pending, or answered, or its caller got the
  exception of the failed send. As long as message ids have not wrapped around, none is lost.
\<close>

definition pendingTickets :: "MultiplexedConnection \<Rightarrow> nat set" where
  "pendingTickets m = pr_ticket ` snd ` set (mx_pending m)"

definition accounted :: "MultiplexedConnection \<Rightarrow> nat set \<Rightarrow> bool" where
  "accounted m failed \<longleftrightarrow> {..<mx_issued m} \<subseteq> pendingTickets m \<union> dom (mx_results m) \<union> failed"

definition sys_inv :: "System \<Rightarrow> bool" where
  "sys_inv s \<longleftrightarrow> mux_inv (sy_mux s) \<and>
     (\<forall>(t, i, call) \<in> set (sy_registered s). i = word_of_nat t \<and> t < mx_issued (sy_mux s)) \<and>
     (mx_issued (sy_mux s) \<le> 2 ^ 64 \<longrightarrow> accounted (sy_mux s) (sy_failed s))"

lemma executeSend_split:
  assumes "executeSend call i m = (r, m')"
  shows "only_conn m m' \<and> (\<forall>e. r \<noteq> Throw e) \<or>
    (\<exists>e c. r = Throw e \<and> m' = m\<lparr>mx_connection := c, mx_pending := eraseEntry i (mx_pending m)\<rparr>)"
proof -
  let ?req = "buildRequest i (cl_opcode call) (cl_body call) (cl_cacheName call) (cl_flags call) m"
  obtain r1 m1 where o: "onMux (send ?req) m = (r1, m1)" by (cases "onMux (send ?req) m")
  from onMux_only_conn [OF o] obtain c where c: "m1 = m\<lparr>mx_connection := c\<rparr>" by (auto simp: only_conn_def)
  show ?thesis
  proof (cases r1)
    case (Throw e)
    with o assms show ?thesis
      by (auto simp: executeSend_def Let_def catchM_def bindM_def modifyM_def throw_def c intro!: exI)
  qed (use o assms onMux_only_conn [OF o] in \<open>auto simp: executeSend_def Let_def catchM_def\<close>)
qed

lemma pendingTickets_removed: "pendingTickets m \<subseteq> pendingTickets m' \<union> removed m m'"
  unfolding pendingTickets_def removed_def by blast

lemma progress_dom: "progress m m' \<Longrightarrow> mux_inv m \<Longrightarrow> dom (mx_results m) \<subseteq> dom (mx_results m')"
  using progress_keeps_results by fastforce

lemma accounted_answers:
  assumes "answers m m'" and "mux_inv m" and "accounted m failed"
  shows "accounted m' failed"
proof -
  from assms(1) have p: "progress m m'" by (simp add: answers_def)
  from assms(1,2) have "removed m m' \<subseteq> dom (mx_results m')" by (simp add: answers_def)
  moreover have "mx_issued m' = mx_issued m" using p by (simp add: progress_def)
  moreover note pendingTickets_removed [of m m'] progress_dom [OF p assms(2)] assms(3)
  ultimately show ?thesis unfolding accounted_def by (simp del: lessThan_subset_iff) blast
qed

lemma sys_inv_initial: "mx_issued m = 0 \<Longrightarrow> mux_inv m \<Longrightarrow> sys_inv (initial m)"
  by (simp add: sys_inv_def initial_def accounted_def)

lemma sys_inv_answers:
  assumes "sys_inv s" and "answers (sy_mux s) m'"
  shows "sys_inv (s\<lparr>sy_mux := m'\<rparr>)"
  using assms accounted_answers [OF assms(2)] by (auto simp: sys_inv_def answers_def progress_def)

text \<open>Message ids tell tickets apart until they wrap around.\<close>

lemma ids_apart: "t < 2 ^ 64 \<Longrightarrow> u < 2 ^ 64 \<Longrightarrow> (word_of_nat t :: VLong) = word_of_nat u \<longleftrightarrow> t = u"
  by (simp add: word_of_nat_eq_iff take_bit_nat_eq_self)

lemma erased_tickets:
  assumes inv: "mux_inv m" and le: "mx_issued m \<le> 2 ^ 64" and t: "t < 2 ^ 64"
  shows "pendingTickets m \<subseteq> insert t (pendingTickets (m\<lparr>mx_pending := eraseEntry (word_of_nat t) (mx_pending m)\<rparr>))"
proof
  fix u assume "u \<in> pendingTickets m"
  then obtain j q where q: "(j, q) \<in> set (mx_pending m)" "pr_ticket q = u" by (auto simp: pendingTickets_def)
  with inv have j: "j = word_of_nat u" "u < mx_issued m" by (auto simp: mux_inv_def)
  show "u \<in> insert t (pendingTickets (m\<lparr>mx_pending := eraseEntry (word_of_nat t) (mx_pending m)\<rparr>))"
  proof (cases "u = t")
    case False
    with j le t have "j \<noteq> word_of_nat t" by (simp add: ids_apart)
    with q have "(j, q) \<in> set (eraseEntry (word_of_nat t) (mx_pending m))" by simp
    with q(2) have "u \<in> pr_ticket ` snd ` set (eraseEntry (word_of_nat t) (mx_pending m))" by force
    then show ?thesis unfolding pendingTickets_def by simp
  qed simp
qed

lemma sys_inv_register:
  assumes inv: "sys_inv s" and r: "executeRegister call (sy_mux s) = (Ok i, m)"
  shows "sys_inv (s\<lparr>sy_mux := m, sy_checked := cs, sy_registered := sy_registered s @ [(mx_issued (sy_mux s), i, call)]\<rparr>)"
proof -
  let ?m = "sy_mux s"
  from inv have mi: "mux_inv ?m" by (simp add: sys_inv_def)
  from r mi have m: "mx_issued m = Suc (mx_issued ?m)" "mx_results m = mx_results ?m" "i = word_of_nat (mx_issued ?m)"
    by (auto simp: executeRegister_def Let_def ret_def mux_inv_def)
  have tickets: "pendingTickets m =
      insert (mx_issued ?m) (pendingTickets (?m\<lparr>mx_pending := eraseEntry (word_of_nat (mx_issued ?m)) (mx_pending ?m)\<rparr>))"
    using r m(3) by (clarsimp simp: executeRegister_def Let_def ret_def pendingTickets_def)
  have "accounted m (sy_failed s)" if le: "mx_issued m \<le> 2 ^ 64"
  proof -
    from inv le m(1) have "accounted ?m (sy_failed s)" by (simp add: sys_inv_def)
    moreover have "pendingTickets ?m \<subseteq> pendingTickets m"
      unfolding tickets using erased_tickets [OF mi] le m(1) by simp
    ultimately show ?thesis using tickets m(1,2) unfolding accounted_def by (auto simp: lessThan_Suc)
  qed
  moreover have "mux_inv m" using mux_inv_register [OF mi r] .
  ultimately show ?thesis using inv m(1,3) by (auto simp: sys_inv_def)
qed

lemma sys_inv_send:
  assumes inv: "sys_inv s" and reg: "sy_registered s = rs @ (t, i, call) # rs'"
    and ex: "executeSend call i (sy_mux s) = (r, m)"
    and failed: "(\<exists>e. r = Throw e) \<longrightarrow> t \<in> failed" "sy_failed s \<subseteq> failed"
  shows "sys_inv (s\<lparr>sy_mux := m, sy_registered := rs @ rs', sy_failed := failed\<rparr>)"
proof -
  from inv reg have mi: "mux_inv (sy_mux s)" and i: "i = word_of_nat t" "t < mx_issued (sy_mux s)"
    by (auto simp: sys_inv_def)
  from executeSend_split [OF ex] show ?thesis
  proof (elim disjE conjE exE)
    assume "only_conn (sy_mux s) m"
    then have "same_books (sy_mux s) m" by (rule same_books_only_conn)
    with inv reg failed(2) show ?thesis
      by (auto simp: sys_inv_def same_books_def mux_inv_def accounted_def pendingTickets_def)
  next
    fix e c assume r: "r = Throw e" and m: "m = (sy_mux s)\<lparr>mx_connection := c, mx_pending := eraseEntry i (mx_pending (sy_mux s))\<rparr>"
    have "mux_inv m" using mux_inv_erase [OF mi, of i] by (simp add: m mux_inv_def)
    moreover have "accounted m failed" if le: "mx_issued (sy_mux s) \<le> 2 ^ 64"
    proof -
      from erased_tickets [OF mi le, of t] i(2) le have "pendingTickets (sy_mux s) \<subseteq> insert t (pendingTickets m)"
        by (simp add: m i(1) pendingTickets_def)
      with inv le failed r show ?thesis by (auto simp: sys_inv_def accounted_def m)
    qed
    ultimately show ?thesis using inv reg by (auto simp: sys_inv_def m)
  qed
qed

lemma sys_inv_step: "step s s' \<Longrightarrow> sys_inv s \<Longrightarrow> sys_inv s'"
proof (induction rule: step.induct)
  case (check s m call)
  then show ?case by (auto simp: executeCheck_def ret_def throw_def sys_inv_def split: if_splits)
next
  case (register s cs call cs' i m)
  then show ?case by (intro sys_inv_register)
next
  case (sent s rs t i call rs' m)
  then show ?case using sys_inv_send [of s rs t i call rs' "Ok ()" m "sy_failed s"] by simp
next
  case (send_failed s rs t i call rs' e m)
  then show ?case by (intro sys_inv_send) auto
next
  case (read s b m)
  then show ?case by (intro sys_inv_answers answers_readIteration)
next
  case (arrive s c evs)
  then show ?case by (intro sys_inv_answers answers_same_books) (simp_all add: same_books_def)
next
  case (closing b s m)
  then show ?case using answers_muxClose [OF closing.hyps] sys_inv_answers by blast
qed

lemma reachable_sys_inv:
  assumes "reachable m s" and "mux_inv m" and "mx_issued m = 0"
  shows "sys_inv s"
  using assms(1) by induction (simp_all add: assms sys_inv_initial sys_inv_step)

section \<open>Requests on the wire\<close>

definition requestHeader :: "VLong \<Rightarrow> Call \<Rightarrow> MultiplexedConnection \<Rightarrow> RequestHeader" where
  "requestHeader msgId call m = \<lparr>rq_magic = REQUEST_MAGIC, rq_messageId = msgId, rq_version = mx_protocolVersion m,
     rq_opcode = cl_opcode call, rq_cacheName = cl_cacheName call, rq_flags = cl_flags call,
     rq_clientIntelligence = mx_clientIntelligence m, rq_topologyId = mx_topologyId m,
     rq_keyMediaType = 0, rq_valueMediaType = 0, rq_otherParams = []\<rparr>"

lemma buildRequest_header:
  "buildRequest msgId (cl_opcode call) body (cl_cacheName call) (cl_flags call) m =
     writeRequestHeader [] (requestHeader msgId call m) @ body"
  by (simp add: buildRequest_def requestHeader_def defaultRequestHeader_def)

lemma parse_buildRequest:
  assumes "fits32 (cl_cacheName call)"
  shows "\<exists>off. parseRequestHeader (buildRequest msgId (cl_opcode call) body (cl_cacheName call) (cl_flags call) m) 0 =
    Ok (requestHeader msgId call m, off) \<and>
    drop off (buildRequest msgId (cl_opcode call) body (cl_cacheName call) (cl_flags call) m) = body"
proof -
  let ?h = "requestHeader msgId call m"
  have "sendable_header ?h" using assms by (simp add: sendable_header_def requestHeader_def)
  then have "reads ([] @ writeRequestHeader [] ?h @ body)
      (parseRequestHeader ([] @ writeRequestHeader [] ?h @ body) (length ([] :: byteArray))) ?h body"
    by (intro parseRequestHeader_at at_input_start)
  from reads_offset [OF this] show ?thesis by (simp add: buildRequest_header)
qed

lemma execute_connected:
  assumes "mx_connected m" and "mx_connection m = Some c"
  shows "execute call m = (let msgId = mx_nextMessageId m;
      p = \<lparr>pr_ticket = mx_issued m, pr_bodyParser = cl_bodyParser call, pr_expectedOpcode = cl_expectedOpcode call,
           pr_cacheName = cl_cacheName call, pr_flags = cl_flags call\<rparr>;
      m' = m\<lparr>mx_nextMessageId := msgId + 1, mx_issued := Suc (mx_issued m),
             mx_pending := (msgId, p) # eraseEntry msgId (mx_pending m)\<rparr>
    in case send (writeRequestHeader [] (requestHeader msgId call m) @ cl_body call) c of
         (Ok u, c) \<Rightarrow> (Ok (mx_issued m), m'\<lparr>mx_connection := Some c\<rparr>)
       | (Throw e, c) \<Rightarrow> (Throw (hotrod_exn (''Send failed: '' @ what e) AfterSend None (muxNode m) False),
           m'\<lparr>mx_connection := Some c, mx_pending := eraseEntry msgId (mx_pending m)\<rparr>)
       | (Block, c) \<Rightarrow> (Block, m'\<lparr>mx_connection := Some c\<rparr>)
       | (UB, c) \<Rightarrow> (UB, m'\<lparr>mx_connection := Some c\<rparr>))"
proof -
  have e: "eraseEntry k ((k, p) # eraseEntry k xs) = eraseEntry k xs" for k and p :: PendingRequest and xs
    by (simp add: eraseEntry_def)
  have h: "requestHeader i call (m\<lparr>mx_nextMessageId := a, mx_issued := b, mx_pending := x\<rparr>) = requestHeader i call m" for i a b x
    by (simp add: requestHeader_def)
  show ?thesis
    using assms
    by (auto simp: execute_def executeCheck_def executeRegister_def executeSend_def buildRequest_header onMux_def
        bindM_def catchM_def modifyM_def ret_def throw_def Let_def e h muxNode_def split: prod.splits outcome.splits)
qed

section \<open>Responses off the wire\<close>

definition afterTopology :: "TopologyInfo option \<Rightarrow> MultiplexedConnection \<Rightarrow> MultiplexedConnection" where
  "afterTopology t m = (case t of Some t \<Rightarrow> m\<lparr>mx_topologyId := ti_topologyId t\<rparr> | None \<Rightarrow> m)"

lemma onMux_yields:
  assumes "mx_connection m = Some c" and "yields c f v rest"
  obtains d where "onMux f m = (Ok v, m\<lparr>mx_connection := Some d\<rparr>)" "same_conn c d" "avail d = rest"
  using assms that by (auto simp: onMux_def yields_def)

lemma onMux_bind: "onMux (bindM f g) m = bindM (onMux f) (\<lambda>a. onMux (g a)) m"
  by (cases "mx_connection m") (auto simp: onMux_def bindM_def split: prod.splits outcome.splits)

lemma readOne_magic:
  "readOne m = bindM (onMux (bindM (receive 1) (\<lambda>magic. if magic ! 0 = RESPONSE_MAGIC
       then receiveResponseStart (mx_clientIntelligence m)
       else throw (RuntimeError (''Invalid magic byte in response: '' @ to_string (unat (magic ! 0)))))))
     (\<lambda>st m. bindM (if st_opcode st = ERROR_RESPONSE then bindM (onMux receiveString) (\<lambda>msg. ret (Some msg))
         else ret None) (dispatch st) (afterTopology (st_topology st) m)) m"
proof (cases "mx_connection m")
  case None
  then show ?thesis by (simp add: readOne_def onMux_def bindM_def)
next
  case (Some c)
  then show ?thesis
    by (auto simp: readOne_def onMux_def bindM_def afterTopology_def modifyM_def throw_def RESPONSE_MAGIC_def
        split: prod.splits outcome.splits)
qed

lemma readOne_start:
  assumes c: "mx_connection m = Some c"
    and h: "holds c (encodeResponseStart (mx_clientIntelligence m) mid opc st update @ rest)"
    and u: "\<forall>u. update = Some u \<longrightarrow> valid_update u"
  obtains d where "same_conn c d" "holds d rest"
    "readOne m = bindM (if opc = ERROR_RESPONSE then bindM (onMux receiveString) (\<lambda>msg. ret (Some msg)) else ret None)
       (dispatch \<lparr>st_messageId = mid, st_opcode = opc, st_status = st,
          st_topology = announced (mx_clientIntelligence m) update\<rparr>)
       ((afterTopology (announced (mx_clientIntelligence m) update) m)\<lparr>mx_connection := Some d\<rparr>)"
proof -
  let ?f = "\<lambda>magic. throw (RuntimeError (''Invalid magic byte in response: '' @ to_string (unat (magic ! 0))))"
  obtain d where d: "onMux (bindM (receive 1) (\<lambda>magic. if magic ! 0 = RESPONSE_MAGIC
        then receiveResponseStart (mx_clientIntelligence m) else ?f magic)) m =
      (Ok \<lparr>st_messageId = mid, st_opcode = opc, st_status = st, st_topology = announced (mx_clientIntelligence m) update\<rparr>,
       m\<lparr>mx_connection := Some d\<rparr>)" "same_conn c d" "avail d = rest"
    by (rule onMux_yields [OF c receiveResponseStart_yields [OF h u, where f = ?f]])
  have a: "afterTopology t (m\<lparr>mx_connection := x\<rparr>) = (afterTopology t m)\<lparr>mx_connection := x\<rparr>" for t x
    by (simp add: afterTopology_def split: option.splits)
  have "holds d rest" using d(2,3) h by (simp add: holds_def same_conn_connected)
  moreover have "readOne m = bindM (if opc = ERROR_RESPONSE then bindM (onMux receiveString) (\<lambda>msg. ret (Some msg)) else ret None)
       (dispatch \<lparr>st_messageId = mid, st_opcode = opc, st_status = st,
          st_topology = announced (mx_clientIntelligence m) update\<rparr>)
       ((afterTopology (announced (mx_clientIntelligence m) update) m)\<lparr>mx_connection := Some d\<rparr>)"
    by (subst readOne_magic, subst bindM_Ok, rule d(1)) (simp only: a ResponseStart.simps)
  ultimately show ?thesis by (rule that [OF d(2)])
qed

lemma send_Ok_sent: "send data c = (Ok u, c') \<Longrightarrow> sent c' = sent c @ data"
  by (auto simp: send_def throw_def split: if_splits prod.splits dest: sendLoop_prefix)

lemma dispatch_delivers:
  assumes p: "map_of (mx_pending m) (st_messageId st) = Some p" and opc: "st_opcode st = pr_expectedOpcode p"
    and c: "mx_connection m = Some c"
    and y: "yields c (pr_bodyParser p (st_status st) (mx_protocolVersion m) (pr_flags p)) body rest"
  obtains d where "same_conn c d" "avail d = rest"
    "dispatch st None m = (Ok (), setValue (pr_ticket p) \<lparr>rp_status = Some (st_status st), rp_body = body,
       rp_error = None, rp_topologyUpdate = st_topology st\<rparr> ((taken st p m)\<lparr>mx_connection := Some d\<rparr>))"
proof -
  from c have "mx_connection (taken st p m) = Some c" by (simp add: taken_def)
  from onMux_yields [OF this y] obtain d where
    "onMux (pr_bodyParser p (st_status st) (mx_protocolVersion m) (pr_flags p)) (taken st p m) =
      (Ok body, (taken st p m)\<lparr>mx_connection := Some d\<rparr>)" "same_conn c d" "avail d = rest" .
  then show ?thesis using that opc by (simp add: dispatch_taken [OF p] ret_def)
qed

lemma afterTopology_fields [simp]:
  "mx_pending (afterTopology t m) = mx_pending m" "mx_connection (afterTopology t m) = mx_connection m"
  "mx_protocolVersion (afterTopology t m) = mx_protocolVersion m" "mx_results (afterTopology t m) = mx_results m"
  "mx_hasCallback (afterTopology t m) = mx_hasCallback m" "mx_callbacks (afterTopology t m) = mx_callbacks m"
  "mx_host (afterTopology t m) = mx_host m" "mx_port (afterTopology t m) = mx_port m"
  by (simp_all add: afterTopology_def split: option.splits)

lemma readIteration_Ok: "readOne m = (Ok u, m') \<Longrightarrow> readIteration m = (Ok True, m')"
  by (simp add: readIteration_def)

section \<open>Properties\<close>

text \<open>
  C10: execute hands out promises that can be kept. Without a connection it throws a BeforeSend
  exception and changes nothing. When it returns, the server reads back from the socket the header with a
  fresh message id and the caller's opcode, cache name and flags, followed by exactly the caller's
  body, and the request waits under that id with the caller's parser. When the send fails, the
  caller gets an AfterSend exception, whose outcome is uncertain, and no entry is left behind.
\<close>

theorem request_is_registered_and_sent:
  assumes "mx_connection m = Some c" and "fits32 (cl_cacheName call)"
  shows "(\<not> mx_connected m \<longrightarrow>
      execute call m = (Throw (hotrod_exn ''Not connected'' BeforeSend None (muxNode m) False), m)) \<and>
    (mx_connected m \<and> execute call m = (Ok ticket, m') \<longrightarrow>
      ticket = mx_issued m \<and>
      map_of (mx_pending m') (mx_nextMessageId m) = Some \<lparr>pr_ticket = ticket, pr_bodyParser = cl_bodyParser call,
        pr_expectedOpcode = cl_expectedOpcode call, pr_cacheName = cl_cacheName call, pr_flags = cl_flags call\<rparr> \<and>
      (\<exists>c' request off. mx_connection m' = Some c' \<and> sent c' = sent c @ request \<and>
        parseRequestHeader request 0 = Ok (requestHeader (mx_nextMessageId m) call m, off) \<and>
        drop off request = cl_body call)) \<and>
    (mx_connected m \<and> execute call m = (Throw e, m') \<longrightarrow>
      (\<exists>x. e = HotRod x \<and> phase x = AfterSend \<and> outcomeUncertain x \<and> triedNodes x = muxNode m) \<and>
      map_of (mx_pending m') = (map_of (mx_pending m))(mx_nextMessageId m := None))"
proof (intro conjI impI)
  let ?i = "mx_nextMessageId m"
  let ?request = "writeRequestHeader [] (requestHeader ?i call m) @ cl_body call"
  obtain r c' where s: "send ?request c = (r, c')" by (cases "send ?request c")
  note parse = parse_buildRequest [OF assms(2), of ?i "cl_body call" m, unfolded buildRequest_header]
  { assume "\<not> mx_connected m"
    then show "execute call m = (Throw (hotrod_exn ''Not connected'' BeforeSend None (muxNode m) False), m)"
      by (simp add: execute_def executeCheck_def bindM_def throw_def) }
  { assume ok: "mx_connected m \<and> execute call m = (Ok ticket, m')"
    with execute_connected [OF _ assms(1), of call] s have r: "r = Ok ()" "ticket = mx_issued m"
      and m': "mx_connection m' = Some c'" "map_of (mx_pending m') ?i = Some \<lparr>pr_ticket = mx_issued m,
        pr_bodyParser = cl_bodyParser call, pr_expectedOpcode = cl_expectedOpcode call,
        pr_cacheName = cl_cacheName call, pr_flags = cl_flags call\<rparr>"
      by (cases r; auto simp: Let_def)+
    show "ticket = mx_issued m" and "map_of (mx_pending m') ?i = Some \<lparr>pr_ticket = ticket, pr_bodyParser = cl_bodyParser call,
        pr_expectedOpcode = cl_expectedOpcode call, pr_cacheName = cl_cacheName call, pr_flags = cl_flags call\<rparr>"
      by (simp_all add: r m')
    show "\<exists>c' request off. mx_connection m' = Some c' \<and> sent c' = sent c @ request \<and>
        parseRequestHeader request 0 = Ok (requestHeader ?i call m, off) \<and> drop off request = cl_body call"
      using m'(1) send_Ok_sent [OF s [unfolded r(1)]] parse by blast }
  { assume thr: "mx_connected m \<and> execute call m = (Throw e, m')"
    with execute_connected [OF _ assms(1), of call] s
    have "\<exists>x. e = hotrod_exn x AfterSend None (muxNode m) False" and m': "mx_pending m' = eraseEntry ?i (mx_pending m)"
      by (cases r; auto simp: Let_def)+
    then show "\<exists>x. e = HotRod x \<and> phase x = AfterSend \<and> outcomeUncertain x \<and> triedNodes x = muxNode m"
      and "map_of (mx_pending m') = (map_of (mx_pending m))(?i := None)"
      by (auto simp: hotrod_exn_def outcomeUncertain_def map_of_eraseEntry) }
qed

lemma response_delivered:
  assumes c: "mx_connection m = Some c"
    and h: "holds c (encodeResponseStart (mx_clientIntelligence m) mid opc st update @ bodyBytes @ rest)"
    and u: "\<forall>u. update = Some u \<longrightarrow> valid_update u"
    and p: "map_of (mx_pending m) mid = Some p" and opc: "opc = pr_expectedOpcode p" "opc \<noteq> ERROR_RESPONSE"
    and y: "\<forall>d. holds d (bodyBytes @ rest) \<longrightarrow>
      yields d (pr_bodyParser p st (mx_protocolVersion m) (pr_flags p)) body rest"
  obtains d e where "readIteration m = (Ok True, setValue (pr_ticket p) \<lparr>rp_status = Some st, rp_body = body, rp_error = None,
      rp_topologyUpdate = announced (mx_clientIntelligence m) update\<rparr>
      ((taken \<lparr>st_messageId = mid, st_opcode = opc, st_status = st, st_topology = announced (mx_clientIntelligence m) update\<rparr> p
        ((afterTopology (announced (mx_clientIntelligence m) update) m)\<lparr>mx_connection := Some d\<rparr>))\<lparr>mx_connection := Some e\<rparr>))"
    "holds e rest" "same_conn c e"
proof -
  let ?t = "announced (mx_clientIntelligence m) update"
  let ?st = "\<lparr>st_messageId = mid, st_opcode = opc, st_status = st, st_topology = ?t\<rparr>"
  from readOne_start [OF c h u] obtain d where d: "same_conn c d" "holds d (bodyBytes @ rest)"
    and r: "readOne m = dispatch ?st None ((afterTopology ?t m)\<lparr>mx_connection := Some d\<rparr>)"
    using opc(2) by (auto simp: bindM_def ret_def)
  let ?m = "(afterTopology ?t m)\<lparr>mx_connection := Some d\<rparr>"
  from y d(2) p opc(1) have sel: "map_of (mx_pending ?m) (st_messageId ?st) = Some p"
    "st_opcode ?st = pr_expectedOpcode p" "mx_connection ?m = Some d"
    "yields d (pr_bodyParser p (st_status ?st) (mx_protocolVersion ?m) (pr_flags p)) body rest" by simp_all
  obtain e where e: "same_conn d e" "avail e = rest" and
    "dispatch ?st None ?m = (Ok (), setValue (pr_ticket p) \<lparr>rp_status = Some (st_status ?st), rp_body = body,
       rp_error = None, rp_topologyUpdate = st_topology ?st\<rparr> ((taken ?st p ?m)\<lparr>mx_connection := Some e\<rparr>))"
    by (rule dispatch_delivers [OF sel])
  with r have "readIteration m = (Ok True, setValue (pr_ticket p) \<lparr>rp_status = Some st, rp_body = body,
       rp_error = None, rp_topologyUpdate = ?t\<rparr> ((taken ?st p ?m)\<lparr>mx_connection := Some e\<rparr>))"
    by (simp add: readIteration_Ok)
  moreover have "holds e rest" using d(2) e by (simp add: holds_def same_conn_connected)
  moreover from d(1) e(1) have "same_conn c e" by (rule same_conn_trans)
  ultimately show ?thesis by (rule that)
qed

text \<open>
  C8: A response reaches the request it answers. When the stream holds a response whose message id
  is pending and whose opcode is the expected one, with a body the request's parser reads, one
  iteration of the read loop sets that promise to the status, body and topology update received,
  takes that entry and no other out of the map, makes the topology callback with the request's cache
  name, and leaves the stream at the next response.
\<close>

theorem response_reaches_its_request:
  assumes c: "mx_connection m = Some c"
    and h: "holds c (encodeResponseStart (mx_clientIntelligence m) mid opc st update @ bodyBytes @ rest)"
    and u: "\<forall>u. update = Some u \<longrightarrow> valid_update u"
    and p: "map_of (mx_pending m) mid = Some p" and opc: "opc = pr_expectedOpcode p" "opc \<noteq> ERROR_RESPONSE"
    and y: "\<forall>d. holds d (bodyBytes @ rest) \<longrightarrow>
      yields d (pr_bodyParser p st (mx_protocolVersion m) (pr_flags p)) body rest"
  shows "\<exists>m' c'. readIteration m = (Ok True, m') \<and> mx_connection m' = Some c' \<and> holds c' rest \<and>
    mx_results m' = (mx_results m)(pr_ticket p \<mapsto> \<lparr>rp_status = Some st, rp_body = body, rp_error = None,
      rp_topologyUpdate = announced (mx_clientIntelligence m) update\<rparr>) \<and>
    mx_pending m' = eraseEntry mid (mx_pending m) \<and>
    mx_callbacks m' = mx_callbacks m @ (case announced (mx_clientIntelligence m) update of
      Some t \<Rightarrow> if mx_hasCallback m then [(t, pr_cacheName p)] else [] | None \<Rightarrow> [])"
proof -
  from response_delivered [OF assms] obtain d e where
    "readIteration m = (Ok True, setValue (pr_ticket p) \<lparr>rp_status = Some st, rp_body = body, rp_error = None,
      rp_topologyUpdate = announced (mx_clientIntelligence m) update\<rparr>
      ((taken \<lparr>st_messageId = mid, st_opcode = opc, st_status = st, st_topology = announced (mx_clientIntelligence m) update\<rparr> p
        ((afterTopology (announced (mx_clientIntelligence m) update) m)\<lparr>mx_connection := Some d\<rparr>))\<lparr>mx_connection := Some e\<rparr>))"
    "holds e rest" "same_conn c e" .
  then show ?thesis by (simp add: setValue_def taken_def split: option.splits)
qed

text \<open>A connected object with one request in flight, for the examples.\<close>

definition exampleMux :: "recv_event list \<Rightarrow> send_event list \<Rightarrow> MultiplexedConnection" where
  "exampleMux inc script = (newMultiplexedConnection ''h'' 11222 False)
     \<lparr>mx_connection := Some ((newConnection ''h'' 11222 inc script)\<lparr>cn_connected := True, cn_socket := True\<rparr>),
      mx_connected := True, mx_readThread := True, mx_joinable := True,
      mx_nextMessageId := 1, mx_issued := 1,
      mx_pending := [(0, \<lparr>pr_ticket = 0, pr_bodyParser = (\<lambda>st ver fl. bindM receiveByteArray (\<lambda>v. ret (ValueBody v))),
        pr_expectedOpcode = 4, pr_cacheName = ''c'', pr_flags = 0\<rparr>)]\<rparr>"

lemmas example_defs = exampleMux_def newMultiplexedConnection_def newConnection_def

theorem response_reaches_its_request_witness:
  "\<exists>m'. readIteration (exampleMux [RecvData [0xA1, 0, 4, 0], RecvData [0, 2, 7, 8, 0xA1]] []) = (Ok True, m') \<and>
     mx_results m' 0 = Some \<lparr>rp_status = Some 0, rp_body = ValueBody [7, 8], rp_error = None, rp_topologyUpdate = None\<rparr> \<and>
     mx_pending m' = []"
proof -
  let ?m = "exampleMux [RecvData [0xA1, 0, 4, 0], RecvData [0, 2, 7, 8, 0xA1]] []"
  let ?c = "(newConnection ''h'' 11222 [RecvData [0xA1, 0, 4, 0], RecvData [0, 2, 7, 8, 0xA1]] [])\<lparr>cn_connected := True, cn_socket := True\<rparr>"
  let ?p = "\<lparr>pr_ticket = 0, pr_bodyParser = (\<lambda>st ver fl. bindM receiveByteArray (\<lambda>v. ret (ValueBody v))),
        pr_expectedOpcode = 4, pr_cacheName = ''c'', pr_flags = 0\<rparr>"
  have e: "encodeResponseStart BASIC 0 4 0 None = [0xA1, 0, 4, 0, 0]" "writeByteArray [] [7, 8] = [2, 7, 8]" by code_simp+
  have c: "mx_connection ?m = Some ?c" "mx_clientIntelligence ?m = BASIC" "map_of (mx_pending ?m) 0 = Some ?p"
    by (simp_all add: example_defs)
  have h: "holds ?c (encodeResponseStart (mx_clientIntelligence ?m) 0 4 0 None @ [2, 7, 8] @ [0xA1])"
    by (simp add: c e holds_def newConnection_def avail_def)
  have y: "\<forall>d. holds d ([2, 7, 8] @ [0xA1]) \<longrightarrow>
      yields d (pr_bodyParser ?p 0 (mx_protocolVersion ?m) (pr_flags ?p)) (ValueBody [7, 8]) [0xA1]"
    using sbytes.rd_bind [of _ "[7, 8]" "[0xA1]" "\<lambda>v. ret (ValueBody v)" "ValueBody [7, 8]"]
    by (auto simp: e(2) intro: yields_ret)
  from response_reaches_its_request [OF c(1) h _ c(3) _ _ y] show ?thesis
    by (auto simp: c ERROR_RESPONSE_def announced_def example_defs eraseEntry_def)
qed

theorem request_is_registered_and_sent_witness:
  "\<exists>c' request off m' parser. let call = \<lparr>cl_body = [1], cl_opcode = 3, cl_expectedOpcode = 4,
       cl_bodyParser = parser, cl_cacheName = ''c'', cl_flags = 0\<rparr>; m = exampleMux [] [SendAccepts 100]
     in execute call m = (Ok 1, m') \<and> mx_connection m' = Some c' \<and> sent c' = request \<and>
        parseRequestHeader request 0 = Ok (requestHeader 1 call m, off) \<and> drop off request = [1]"
proof -
  let ?call = "\<lparr>cl_body = [1], cl_opcode = 3, cl_expectedOpcode = 4,
       cl_bodyParser = (\<lambda>st ver fl. ret NoBody), cl_cacheName = ''c'', cl_flags = 0\<rparr>"
  let ?m = "exampleMux [] [SendAccepts 100]"
  let ?c = "(newConnection ''h'' 11222 [] [SendAccepts 100])\<lparr>cn_connected := True, cn_socket := True\<rparr>"
  have c: "mx_connection ?m = Some ?c" "mx_connected ?m" "mx_issued ?m = 1" "mx_nextMessageId ?m = 1" "sent ?c = []"
    by (simp_all add: example_defs)
  have len: "length (writeRequestHeader [] (requestHeader 1 ?call ?m) @ [1]) \<le> 100" by code_simp
  then have "sendLoop [SendAccepts 100] [] (writeRequestHeader [] (requestHeader 1 ?call ?m) @ [1]) =
      (Ok (), writeRequestHeader [] (requestHeader 1 ?call ?m) @ [1], [])"
    by (cases "writeRequestHeader [] (requestHeader 1 ?call ?m) @ [1]") auto
  then obtain m' where m': "execute ?call ?m = (Ok 1, m')"
    using execute_connected [OF c(2,1), of ?call] by (simp add: c Let_def send_def newConnection_def)
  have "fits32 (cl_cacheName ?call)" by simp
  from request_is_registered_and_sent [OF c(1) this, of 1 m' ] m' c show ?thesis
    unfolding Let_def by fastforce
qed

text \<open>
  C26: A server ERROR response keeps the stream in sync: its message is consumed whether or not the
  request is still waiting. A waiting request gets a ServerError exception that carries the
  status and the connection's address, transient exactly for the three transient statuses; without a
  waiting request nothing but the stream changes.
\<close>

theorem error_response_delivered:
  assumes c: "mx_connection m = Some c"
    and h: "holds c (encodeResponseStart (mx_clientIntelligence m) mid ERROR_RESPONSE st update @ writeString [] msg @ rest)"
    and u: "\<forall>u. update = Some u \<longrightarrow> valid_update u" and msg: "fits32 msg"
  shows "\<exists>m' c'. readIteration m = (Ok True, m') \<and> mx_connection m' = Some c' \<and> holds c' rest \<and>
    (case map_of (mx_pending m) mid of
       None \<Rightarrow> mx_results m' = mx_results m \<and> mx_pending m' = mx_pending m \<and> mx_callbacks m' = mx_callbacks m
     | Some p \<Rightarrow> mx_pending m' = eraseEntry mid (mx_pending m) \<and>
         (\<exists>x. mx_results m' = (mx_results m)(pr_ticket p \<mapsto> \<lparr>rp_status = Some st, rp_body = NoBody,
                rp_error = Some (HotRod x), rp_topologyUpdate = announced (mx_clientIntelligence m) update\<rparr>) \<and>
              phase x = ServerError \<and> serverStatus x = Some st \<and> triedNodes x = muxNode m \<and>
              (isTransient x \<longleftrightarrow> st \<in> {0x86, 0x87, 0x88})))"
proof -
  let ?t = "announced (mx_clientIntelligence m) update"
  let ?st = "\<lparr>st_messageId = mid, st_opcode = ERROR_RESPONSE, st_status = st, st_topology = ?t\<rparr>"
  from readOne_start [OF c h u] obtain d where d: "holds d (writeString [] msg @ rest)"
    and r: "readOne m = bindM (bindM (onMux receiveString) (\<lambda>msg. ret (Some msg))) (dispatch ?st)
      ((afterTopology ?t m)\<lparr>mx_connection := Some d\<rparr>)" by auto
  from onMux_yields [OF _ sstring.rd_enc [OF msg d], of "(afterTopology ?t m)\<lparr>mx_connection := Some d\<rparr>"]
  obtain e where e: "onMux receiveString ((afterTopology ?t m)\<lparr>mx_connection := Some d\<rparr>) =
      (Ok msg, (afterTopology ?t m)\<lparr>mx_connection := Some e\<rparr>)" "same_conn d e" "avail e = rest" by auto
  have he: "holds e rest" using d e by (simp add: holds_def same_conn_connected)
  let ?m = "(afterTopology ?t m)\<lparr>mx_connection := Some e\<rparr>"
  from r e(1) have it: "readIteration m = (Ok True, n)" if "dispatch ?st (Some msg) ?m = (Ok (), n)" for n
    using that by (intro readIteration_Ok) (simp add: bindM_def ret_def)
  show ?thesis
  proof (cases "map_of (mx_pending m) mid")
    case None
    then have "dispatch ?st (Some msg) ?m = (Ok (), ?m)" by (simp add: dispatch_def ret_def)
    from it [OF this] he None show ?thesis by simp
  next
    case (Some p)
    then have "map_of (mx_pending ?m) (st_messageId ?st) = Some p" by simp
    from it [OF dispatch_taken [OF this, of "Some msg", unfolded option.case ret_def]] he Some show ?thesis
      by (auto simp: setValue_def taken_def hotrod_exn_def isTransient_def isTransientStatus_iff muxNode_def)
  qed
qed

theorem error_response_delivered_witness:
  "\<exists>m' x. readIteration (exampleMux [RecvData [0xA1, 0, 0x50, 0x86, 0, 1], RecvData [98]] []) = (Ok True, m') \<and>
     mx_results m' 0 = Some \<lparr>rp_status = Some 0x86, rp_body = NoBody, rp_error = Some (HotRod x), rp_topologyUpdate = None\<rparr> \<and>
     isTransient x"
proof -
  let ?m = "exampleMux [RecvData [0xA1, 0, 0x50, 0x86, 0, 1], RecvData [98]] []"
  let ?c = "(newConnection ''h'' 11222 [RecvData [0xA1, 0, 0x50, 0x86, 0, 1], RecvData [98]] [])\<lparr>cn_connected := True, cn_socket := True\<rparr>"
  have e: "encodeResponseStart BASIC 0 ERROR_RESPONSE 0x86 None = [0xA1, 0, 0x50, 0x86, 0]" "writeString [] ''b'' = [1, 98]" by code_simp+
  have c: "mx_connection ?m = Some ?c" "mx_clientIntelligence ?m = BASIC"
    by (simp_all add: example_defs)
  have h: "holds ?c (encodeResponseStart (mx_clientIntelligence ?m) 0 ERROR_RESPONSE 0x86 None @ writeString [] ''b'' @ [])"
    by (simp add: c e holds_def newConnection_def avail_def)
  from error_response_delivered [OF c(1) h] show ?thesis
    by (auto simp: example_defs announced_def)
qed

lemma readOne_bad_magic:
  assumes "mx_connection m = Some c" and "holds c (b # rest)" and "b \<noteq> 0xA1"
  shows "\<exists>d e. readOne m = (Throw e, m\<lparr>mx_connection := Some d\<rparr>) \<and>
    e = RuntimeError (''Invalid magic byte in response: '' @ to_string (unat b))"
proof -
  from assms(2) have "yields c (receive 1) [b] rest" by (intro receive_yields) simp_all
  from onMux_yields [OF assms(1) this] obtain d where "onMux (receive 1) m = (Ok [b], m\<lparr>mx_connection := Some d\<rparr>)" by blast
  with assms(3) show ?thesis by (auto simp: readOne_def bindM_def throw_def)
qed

text \<open>
  C27: Only ERROR bodies are consumed without a waiting request. After any other response that no
  request waits for, or whose opcode is not the expected one, the loop goes on at the first byte of
  that response's body. Unless this happens to be the magic byte, the next iteration ends the loop:
  the connection counts as lost, and every request still in flight fails with an AfterSend exception
  although the server may have answered it.
\<close>

theorem unmatched_body_breaks_stream:
  assumes c: "mx_connection m = Some c"
    and h: "holds c (encodeResponseStart (mx_clientIntelligence m) mid opc st update @ b # rest)"
    and u: "\<forall>u. update = Some u \<longrightarrow> valid_update u" and b: "b \<noteq> 0xA1" and opc: "opc \<noteq> ERROR_RESPONSE"
    and unmatched: "case map_of (mx_pending m) mid of None \<Rightarrow> True | Some p \<Rightarrow> opc \<noteq> pr_expectedOpcode p"
    and run: "\<not> mx_stopReadLoop m"
  shows "\<exists>m1 m2 x. readIteration m = (Ok True, m1) \<and> readIteration m1 = (Ok False, m2) \<and>
    \<not> mx_connected m2 \<and> \<not> mx_readThread m2 \<and> mx_pending m2 = [] \<and> phase x = AfterSend \<and>
    (\<forall>(i, p) \<in> set (mx_pending m). i \<noteq> mid \<longrightarrow> mx_results m2 (pr_ticket p) = Some (errorResponse (HotRod x)))"
proof -
  let ?t = "announced (mx_clientIntelligence m) update"
  let ?st = "\<lparr>st_messageId = mid, st_opcode = opc, st_status = st, st_topology = ?t\<rparr>"
  from readOne_start [OF c h u] obtain d where d: "holds d (b # rest)"
    and r: "readOne m = dispatch ?st None ((afterTopology ?t m)\<lparr>mx_connection := Some d\<rparr>)"
    using opc by (auto simp: bindM_def ret_def)
  let ?m = "(afterTopology ?t m)\<lparr>mx_connection := Some d\<rparr>"
  have "\<exists>m1. dispatch ?st None ?m = (Ok (), m1) \<and> mx_connection m1 = Some d \<and> \<not> mx_stopReadLoop m1 \<and>
      set (mx_pending m1) \<supseteq> {e \<in> set (mx_pending m). fst e \<noteq> mid}"
  proof (cases "map_of (mx_pending m) mid")
    case None
    with run show ?thesis by (simp add: dispatch_def ret_def) (auto simp: afterTopology_def split: option.splits)
  next
    case (Some p)
    then have p: "map_of (mx_pending ?m) (st_messageId ?st) = Some p" by simp
    from Some unmatched run show ?thesis unfolding dispatch_taken [OF p]
      by (simp add: ret_def setValue_def taken_def) (auto simp: afterTopology_def split: option.splits)
  qed
  then obtain m1 where m1: "dispatch ?st None ?m = (Ok (), m1)" "mx_connection m1 = Some d" "\<not> mx_stopReadLoop m1"
    "set (mx_pending m1) \<supseteq> {e \<in> set (mx_pending m). fst e \<noteq> mid}" by blast
  from readOne_bad_magic [OF m1(2) d b] obtain d' e where e: "readOne m1 = (Throw e, m1\<lparr>mx_connection := Some d'\<rparr>)" by blast
  let ?m2 = "(closeAllPending (what e) (m1\<lparr>mx_connection := Some d', mx_connected := False\<rparr>))\<lparr>mx_readThread := False\<rparr>"
  let ?x = "\<lparr>message = what e, phase = AfterSend, serverStatus = None, triedNodes = muxNode m1, ownersExhausted = False\<rparr>"
  have it: "readIteration m = (Ok True, m1)" "readIteration m1 = (Ok False, ?m2)"
    using r m1(1,3) e by (simp_all add: readIteration_def)
  have "mx_results ?m2 (pr_ticket p) = Some (errorResponse (HotRod ?x))" if "(i, p) \<in> set (mx_pending m)" "i \<noteq> mid" for i p
  proof -
    from that m1(4) have "(i, p) \<in> set (mx_pending m1)" by auto
    then have "pr_ticket p \<in> pr_ticket ` snd ` set (mx_pending m1)" by force
    then show ?thesis by (simp add: closeAllPending_eq hotrod_exn_def muxNode_def)
  qed
  moreover have "\<not> mx_connected ?m2" "\<not> mx_readThread ?m2" "mx_pending ?m2 = []" "phase ?x = AfterSend"
    by (simp_all add: closeAllPending_eq)
  ultimately show ?thesis using it by blast
qed

theorem unmatched_body_breaks_stream_witness:
  "\<exists>m1 m2. readIteration (exampleMux [RecvData [0xA1, 9, 4, 0, 0, 2, 7, 8], RecvData [0xA1, 0, 4, 0, 0, 1, 5]] []) = (Ok True, m1) \<and>
     readIteration m1 = (Ok False, m2) \<and> \<not> mx_connected m2 \<and>
     (\<exists>x. mx_results m2 0 = Some (errorResponse (HotRod x)) \<and> phase x = AfterSend)"
proof -
  let ?inc = "[RecvData [0xA1, 9, 4, 0, 0, 2, 7, 8], RecvData [0xA1, 0, 4, 0, 0, 1, 5]]"
  let ?m = "exampleMux ?inc []"
  let ?c = "(newConnection ''h'' 11222 ?inc [])\<lparr>cn_connected := True, cn_socket := True\<rparr>"
  have e: "encodeResponseStart BASIC 9 4 0 None = [0xA1, 9, 4, 0, 0]" by code_simp
  have c: "mx_connection ?m = Some ?c" "mx_clientIntelligence ?m = BASIC"
    by (simp_all add: example_defs)
  have h: "holds ?c (encodeResponseStart (mx_clientIntelligence ?m) 9 4 0 None @ 2 # [7, 8, 0xA1, 0, 4, 0, 0, 1, 5])"
    by (simp add: c e holds_def newConnection_def avail_def)
  have un: "case map_of (mx_pending ?m) 9 of None \<Rightarrow> True | Some p \<Rightarrow> 4 \<noteq> pr_expectedOpcode p" "\<not> mx_stopReadLoop ?m"
    by (simp_all add: example_defs)
  from unmatched_body_breaks_stream [OF c(1) h _ _ _ un] show ?thesis
    by (fastforce simp: ERROR_RESPONSE_def example_defs)
qed

text \<open>An object on which execute has not been called.\<close>

definition unused :: "MultiplexedConnection \<Rightarrow> bool" where
  "unused m \<longleftrightarrow> mx_issued m = 0 \<and> mx_nextMessageId m = 0 \<and> mx_pending m = [] \<and> mx_results m = Map.empty"

lemma unused_inv: "unused m \<Longrightarrow> mux_inv m"
  by (simp add: unused_def mux_inv_def)

lemma reachable_inv: "unused m \<Longrightarrow> reachable m s \<Longrightarrow> sys_inv s"
  using reachable_sys_inv unused_inv by (simp add: unused_def)

lemma step_progress:
  assumes "step s s'" and "mux_inv (sy_mux s)"
  shows "mx_results (sy_mux s) t = Some r \<Longrightarrow> mx_results (sy_mux s') t = Some r"
  using assms
proof (induction rule: step.induct)
  case (check s m call)
  then show ?case by (auto simp: executeCheck_def ret_def throw_def split: if_splits)
next
  case (register s cs call cs' i m)
  then show ?case by (auto simp: executeRegister_def Let_def ret_def)
next
  case (sent s rs t' i call rs' m)
  then show ?case by (auto simp: only_conn_def dest!: executeSend_split)
next
  case (send_failed s rs t' i call rs' e m)
  then show ?case by (auto dest!: executeSend_split)
next
  case (read s b m)
  then show ?case using answers_readIteration progress_keeps_results by (fastforce simp: answers_def)
next
  case (closing b s m)
  then show ?case using answers_muxClose [of b "sy_mux s" m] progress_keeps_results by (fastforce simp: answers_def)
qed simp

text \<open>
  C3: In every reachable state of callers, read thread and network, in any interleaving: a pending
  entry stands under its own message id with its promise unset, no promise is set twice (a response
  once set is never changed by any step), and until the 64-bit message ids wrap around each promise handed
  out is still pending, or answered, or its caller got the exception of the failed send.
\<close>

theorem promises_are_accounted:
  assumes "unused m" and "reachable m s"
  shows "mux_inv (sy_mux s) \<and>
    (mx_issued (sy_mux s) \<le> 2 ^ 64 \<longrightarrow> (\<forall>t < mx_issued (sy_mux s).
      t \<in> pendingTickets (sy_mux s) \<or> mx_results (sy_mux s) t \<noteq> None \<or> t \<in> sy_failed s)) \<and>
    (\<forall>s' t r. step s s' \<and> mx_results (sy_mux s) t = Some r \<longrightarrow> mx_results (sy_mux s') t = Some r)"
proof -
  from reachable_inv [OF assms] have inv: "sys_inv s" .
  then have mi: "mux_inv (sy_mux s)" by (simp add: sys_inv_def)
  have "t \<in> pendingTickets (sy_mux s) \<or> mx_results (sy_mux s) t \<noteq> None \<or> t \<in> sy_failed s"
    if "mx_issued (sy_mux s) \<le> 2 ^ 64" "t < mx_issued (sy_mux s)" for t
    using inv that by (auto simp: sys_inv_def accounted_def)
  with mi step_progress [OF _ mi] show ?thesis by blast
qed

lemma pendingTickets_same [simp]:
  "pendingTickets (m\<lparr>mx_stopReadLoop := b\<rparr>) = pendingTickets m" "pendingTickets (m\<lparr>mx_readThread := b\<rparr>) = pendingTickets m"
  "pendingTickets (m\<lparr>mx_joinable := b\<rparr>) = pendingTickets m" "pendingTickets (m\<lparr>mx_connected := b\<rparr>) = pendingTickets m"
  "pendingTickets (m\<lparr>mx_connection := c\<rparr>) = pendingTickets m"
  by (simp_all add: pendingTickets_def)

lemma closeAllPending_results:
  "mx_results (closeAllPending msg m) t = (if t \<in> pendingTickets m
     then Some (errorResponse (hotrod_exn msg AfterSend None (muxNode m) False)) else mx_results m t)"
  by (simp add: closeAllPending_eq pendingTickets_def)

lemma muxClose_idle:
  "muxClose False m = (Ok (), closeAllPending ''Connection closed'' (m\<lparr>mx_stopReadLoop := True,
     mx_readThread := False, mx_joinable := False,
     mx_connection := map_option close (map_option shutdown (mx_connection m)), mx_connected := False\<rparr>))"
  by (simp add: muxClose_def modifyM_def bindM_def ret_def)

text \<open>
  C15: close leaves nobody waiting. From any reachable state, once it returns the connection is down,
  no read thread is left, nothing is pending, and (until message ids wrap around) every promise ever
  handed out holds a response unless its caller already got an exception. Without an iteration in
  progress the requests then pending get an AfterSend exception, whose outcome is uncertain.
\<close>

theorem close_leaves_nobody_waiting:
  assumes "unused m" and "reachable m s" and "muxClose inIteration (sy_mux s) = (Ok (), m')"
    and "mx_issued (sy_mux s) \<le> 2 ^ 64"
  shows "\<not> mx_connected m' \<and> \<not> mx_readThread m' \<and> mx_pending m' = [] \<and>
    (\<forall>t < mx_issued m'. mx_results m' t \<noteq> None \<or> t \<in> sy_failed s) \<and>
    (\<not> inIteration \<longrightarrow> (\<forall>t \<in> pendingTickets (sy_mux s).
      \<exists>x. mx_results m' t = Some (errorResponse (HotRod x)) \<and> outcomeUncertain x))"
proof -
  from reachable_inv [OF assms(1,2)] have inv: "sys_inv s" .
  from answers_muxClose [OF assms(3)] have a: "answers (sy_mux s) m'" and
    m': "mx_pending m' = []" "\<not> mx_connected m'" "\<not> mx_readThread m'" by auto
  from inv assms(4) accounted_answers [OF a] have "accounted m' (sy_failed s)" by (simp add: sys_inv_def)
  then have all: "mx_results m' t \<noteq> None \<or> t \<in> sy_failed s" if "t < mx_issued m'" for t
    using that m'(1) by (auto simp: accounted_def pendingTickets_def)
  have "\<exists>x. mx_results m' t = Some (errorResponse (HotRod x)) \<and> outcomeUncertain x"
    if "\<not> inIteration" "t \<in> pendingTickets (sy_mux s)" for t
  proof -
    have "\<exists>node. mx_results m' t = Some (errorResponse (hotrod_exn ''Connection closed'' AfterSend None node False))"
      using assms(3) that muxClose_idle [of "sy_mux s"] by (auto simp: closeAllPending_results)
    then show ?thesis by (auto simp: hotrod_exn_def outcomeUncertain_def)
  qed
  with all m' show ?thesis by blast
qed

lemma no_reader_no_answer:
  assumes "step s s'" and "\<not> mx_readThread (sy_mux s)" and "mx_results (sy_mux s) t = None"
    and "mx_results (sy_mux s') t \<noteq> None"
  shows "\<exists>b. muxClose b (sy_mux s) = (Ok (), sy_mux s')"
  using assms
proof (induction rule: step.induct)
  case (check s m call)
  then show ?case by (auto simp: executeCheck_def ret_def throw_def split: if_splits)
next
  case (register s cs call cs' i m)
  then show ?case by (auto simp: executeRegister_def Let_def ret_def)
next
  case (sent s rs t' i call rs' m)
  then show ?case by (auto simp: only_conn_def dest!: executeSend_split)
next
  case (send_failed s rs t' i call rs' e m)
  then show ?case by (auto dest!: executeSend_split)
qed auto

text \<open>A promise that no step but close sets.\<close>

definition stranded :: "System \<Rightarrow> nat \<Rightarrow> bool" where
  "stranded s t \<longleftrightarrow> t \<in> pendingTickets (sy_mux s) \<and> mx_results (sy_mux s) t = None \<and> \<not> mx_readThread (sy_mux s) \<and>
     (\<forall>s'. step s s' \<and> mx_results (sy_mux s') t \<noteq> None \<longrightarrow> (\<exists>b. muxClose b (sy_mux s) = (Ok (), sy_mux s')))"

definition racingMux :: "recv_event list \<Rightarrow> MultiplexedConnection" where
  "racingMux inc = (exampleMux inc [SendAccepts 100])\<lparr>mx_nextMessageId := 0, mx_issued := 0, mx_pending := []\<rparr>"

definition racingCall :: Call where
  "racingCall = \<lparr>cl_body = [1], cl_opcode = 3, cl_expectedOpcode = 4, cl_bodyParser = (\<lambda>st ver fl. ret NoBody),
     cl_cacheName = ''c'', cl_flags = 0\<rparr>"

lemma racing_unused: "unused (racingMux inc)"
  by (simp add: racingMux_def unused_def example_defs)

lemma racing_check: "executeCheck (racingMux inc) = (Ok (), racingMux inc)"
  by (simp add: racingMux_def example_defs executeCheck_def ret_def)

definition racingLost :: System where
  "racingLost = \<lparr>sy_mux = (racingMux [RecvClosed])\<lparr>mx_connected := False, mx_readThread := False\<rparr>, sy_checked = [racingCall],
     sy_registered = [], sy_failed = {}\<rparr>"

lemma racing_read:
  "readIteration (racingMux [RecvClosed]) =
     (Ok False, (racingMux [RecvClosed])\<lparr>mx_connected := False, mx_readThread := False\<rparr>)"
  by (simp add: racingMux_def example_defs readIteration_def readOne_def bindM_def onMux_def receive_def
      closeAllPending_def Let_def)

lemma racing_lost: "reachable (racingMux [RecvClosed]) racingLost"
proof -
  let ?m = "racingMux [RecvClosed]"
  have "step (initial ?m) ((initial ?m)\<lparr>sy_checked := [racingCall]\<rparr>)"
    using step.check [of "initial ?m" ?m racingCall] racing_check by (simp add: initial_def)
  moreover have "step ((initial ?m)\<lparr>sy_checked := [racingCall]\<rparr>) racingLost"
    using step.read [of "(initial ?m)\<lparr>sy_checked := [racingCall]\<rparr>" False] racing_read
    by (simp add: racingLost_def initial_def racingMux_def example_defs)
  ultimately show ?thesis by (blast intro: reachable.intros)
qed

lemma racing_sent:
  "\<exists>m1 m2. executeRegister racingCall (sy_mux racingLost) = (Ok 0, m1) \<and> executeSend racingCall 0 m1 = (Ok (), m2) \<and>
     pendingTickets m2 = {0} \<and> mx_results m2 0 = None \<and> \<not> mx_readThread m2 \<and> \<not> mx_connected m2"
proof -
  define m1 where "m1 = snd (executeRegister racingCall (sy_mux racingLost))"
  let ?req = "buildRequest 0 (cl_opcode racingCall) (cl_body racingCall) (cl_cacheName racingCall) (cl_flags racingCall) m1"
  have reg: "executeRegister racingCall (sy_mux racingLost) = (Ok 0, m1)"
    by (simp add: m1_def executeRegister_def Let_def ret_def racingLost_def racingMux_def)
  have m1: "pendingTickets m1 = {0}" "mx_results m1 0 = None" "\<not> mx_readThread m1" "\<not> mx_connected m1"
    "mx_connection m1 = Some ((newConnection ''h'' 11222 [RecvClosed] [SendAccepts 100])\<lparr>cn_connected := True, cn_socket := True\<rparr>)"
    by (simp_all add: m1_def executeRegister_def Let_def ret_def racingLost_def racingMux_def example_defs
        pendingTickets_def eraseEntry_def)
  have "length ?req \<le> 100" "?req \<noteq> []"
    unfolding m1_def racingCall_def racingLost_def by code_simp+
  then have "sendLoop [SendAccepts 100] [] ?req = (Ok (), ?req, [])" by (cases ?req) auto
  then have "onMux (send ?req) m1 = (Ok (), m1\<lparr>mx_connection := Some ((newConnection ''h'' 11222 [RecvClosed] [])
      \<lparr>cn_connected := True, cn_socket := True, sent := ?req\<rparr>)\<rparr>)"
    by (simp add: onMux_def m1 send_def newConnection_def)
  then have "executeSend racingCall 0 m1 = (Ok (), m1\<lparr>mx_connection := Some ((newConnection ''h'' 11222 [RecvClosed] [])
      \<lparr>cn_connected := True, cn_socket := True, sent := ?req\<rparr>)\<rparr>)"
    by (simp add: executeSend_def Let_def catchM_def)
  with reg m1 show ?thesis by (simp add: pendingTickets_def)
qed

text \<open>
  C28: A request can be left without anyone to answer it. execute tests the connection before
  it registers the request: when the server closes in between, the read loop has already failed
  what was pending and ended, the request is registered and accepted by the socket, and execute returns a
  promise. With no read thread, no step of the system sets a promise any more except close.
\<close>

theorem request_lost_between_check_and_register:
  "\<exists>m s. unused m \<and> mx_connected m \<and> mx_readThread m \<and> reachable m s \<and>
     sy_checked s = [] \<and> sy_registered s = [] \<and> sy_failed s = {} \<and> stranded s 0"
proof -
  from racing_sent obtain m1 m2 where m: "executeRegister racingCall (sy_mux racingLost) = (Ok 0, m1)"
    "executeSend racingCall 0 m1 = (Ok (), m2)"
    "pendingTickets m2 = {0}" "mx_results m2 0 = None" "\<not> mx_readThread m2" "\<not> mx_connected m2" by blast
  let ?s1 = "racingLost\<lparr>sy_mux := m1, sy_checked := [], sy_registered := [(mx_issued (sy_mux racingLost), 0, racingCall)]\<rparr>"
  let ?s2 = "racingLost\<lparr>sy_mux := m2, sy_checked := [], sy_registered := []\<rparr>"
  have "step racingLost ?s1"
    using step.register [of racingLost "[]" racingCall "[]", OF _ m(1)] by (simp add: racingLost_def)
  moreover have "step ?s1 ?s2"
    using step.sent [of ?s1 "[]" _ 0 racingCall "[]" m2] m(2) by (simp add: racingLost_def)
  ultimately have "reachable (racingMux [RecvClosed]) ?s2"
    using racing_lost by (blast intro: reachable.intros)
  moreover have "mx_connected (racingMux [RecvClosed])" "mx_readThread (racingMux [RecvClosed])"
    by (simp_all add: racingMux_def example_defs)
  moreover have "stranded ?s2 0" using m no_reader_no_answer [of ?s2 _ 0] by (simp add: stranded_def)
  ultimately show ?thesis using racing_unused [of "[RecvClosed]"]
    by (intro exI [of _ "racingMux [RecvClosed]"] exI [of _ ?s2]) (simp add: racingLost_def)
qed

theorem promises_are_accounted_witness:
  "mux_inv (sy_mux racingLost) \<and> mx_results (sy_mux racingLost) 0 = None"
  using promises_are_accounted [OF racing_unused racing_lost] by (simp add: racingLost_def racingMux_def example_defs)

theorem close_leaves_nobody_waiting_witness:
  "\<exists>m s m' x. reachable m s \<and> muxClose False (sy_mux s) = (Ok (), m') \<and> mx_results m' 0 = Some (errorResponse (HotRod x)) \<and>
     outcomeUncertain x"
proof -
  obtain m1 where m1: "executeRegister racingCall (sy_mux racingLost) = (Ok 0, m1)" "pendingTickets m1 = {0}" "mx_issued m1 = 1"
    by (simp add: executeRegister_def Let_def ret_def racingLost_def racingMux_def example_defs pendingTickets_def eraseEntry_def)
  let ?s = "racingLost\<lparr>sy_mux := m1, sy_checked := [], sy_registered := [(mx_issued (sy_mux racingLost), 0, racingCall)]\<rparr>"
  have "step racingLost ?s"
    using step.register [of racingLost "[]" racingCall "[]", OF _ m1(1)] by (simp add: racingLost_def)
  with racing_lost have r: "reachable (racingMux [RecvClosed]) ?s" by (blast intro: reachable.intros)
  from close_leaves_nobody_waiting [OF racing_unused r, of False] muxClose_idle [of m1] m1 r show ?thesis by fastforce
qed

end
