(* ===== verification/CacheOperations.thy ===== *)
theory CacheOperations
  imports MultiplexedConnection
begin

text \<open>
  src/operations/RemoteCache.cpp, the part of each operation that does not depend on the state of the
  cache: how its request body is built, how its response body is parsed on the read thread, and how
  the response becomes the caller's result. Routing and sending are in RemoteCache.thy.
\<close>

section \<open>Request bodies\<close>

text \<open>
  Expiration parameters: a byte with the time unit of the lifespan in its high nibble and that of the
  idle time in its low nibble (0: seconds, 7: default), then the durations that are not the default.
\<close>

definition timeUnits :: "VLong \<Rightarrow> VLong \<Rightarrow> byte" where
  "timeUnits lifespan maxIdle =
     (let timeUnits = 0;
          timeUnits = timeUnits OR (if lifespan = 0 then push_bit 4 0x07 else push_bit 4 0x00);
          timeUnits = timeUnits OR (if maxIdle = 0 then 0x07 else 0x00)
      in timeUnits)"

definition writeExpiration :: "byteArray \<Rightarrow> VLong \<Rightarrow> VLong \<Rightarrow> byteArray" where
  "writeExpiration buf lifespan maxIdle =
     (let buf = buf @ [timeUnits lifespan maxIdle];
          buf = (if lifespan > 0 then writeVLong buf lifespan else buf);
          buf = (if maxIdle > 0 then writeVLong buf maxIdle else buf)
      in buf)"

definition keyBody :: "byteArray \<Rightarrow> byteArray" where
  "keyBody key = writeByteArray [] key"

definition putBody :: "byteArray \<Rightarrow> byteArray \<Rightarrow> VLong \<Rightarrow> VLong \<Rightarrow> byteArray" where
  "putBody key value lifespan maxIdle =
     writeByteArray (writeExpiration (writeByteArray [] key) lifespan maxIdle) value"

definition removeWithVersionBody :: "byteArray \<Rightarrow> int64 \<Rightarrow> byteArray" where
  "removeWithVersionBody key version = writeLong (writeByteArray [] key) version"

definition replaceWithVersionBody :: "byteArray \<Rightarrow> byteArray \<Rightarrow> int64 \<Rightarrow> VLong \<Rightarrow> VLong \<Rightarrow> byteArray" where
  "replaceWithVersionBody key value version lifespan maxIdle =
     writeByteArray (writeLong (writeExpiration (writeByteArray [] key) lifespan maxIdle) version) value"

section \<open>Response bodies\<close>

definition statusError :: "string \<Rightarrow> byte \<Rightarrow> exn" where
  "statusError operation status = hotrod_exn (operation @ '' failed with status: '' @ to_string (unat status))
     ServerError (Some status) [] False"

text \<open>The loops of the PING parser: bytes up to the first without the continuation bit.\<close>

function skipVInt :: "Connection \<Rightarrow> (exn, byte) outcome \<times> Connection" where
  "skipVInt c = bindM (receive 1) (\<lambda>b c.
     if b ! 0 AND 0x80 = 0 then ret (b ! 0) c else skipVInt c) c"
  by pat_completeness auto

termination skipVInt
  by (relation "measure (\<lambda>c. length (avail c))") (auto dest: receive_1_consumes [unfolded One_nat_def])

declare skipVInt.simps [simp del]

function readOpCount :: "VInt \<Rightarrow> Connection \<Rightarrow> (exn, VInt) outcome \<times> Connection" where
  "readOpCount opCount c = bindM (receive 1) (\<lambda>b c.
     let opCount = push_bit 7 opCount OR ucast (b ! 0 AND 0x7F)
     in if b ! 0 AND 0x80 = 0 then ret opCount c else readOpCount opCount c) c"
  by pat_completeness auto

termination readOpCount
  by (relation "measure (\<lambda>(n, c). length (avail c))") (auto dest: receive_1_consumes [unfolded One_nat_def])

declare readOpCount.simps [simp del]

definition skipMediaType :: "unit conn" where
  "skipMediaType = bindM (receive 1) (\<lambda>indicator.
     if indicator ! 0 \<noteq> 0
     then bindM (if indicator ! 0 = 1 then bindM skipVInt (\<lambda>_. ret ())
                 else if indicator ! 0 = 2
                 then bindM skipVInt (\<lambda>len. if len > 0 then bindM (receive (unat len)) (\<lambda>_. ret ()) else ret ())
                 else ret ()) (\<lambda>_.
          bindM skipVInt (\<lambda>paramCount. ret ()))
     else ret ())"

definition pingParser :: bodyParser where
  "pingParser status protocolVersion flags =
     (if status \<noteq> 0 then throw (statusError ''PING'' status)
      else bindM skipMediaType (\<lambda>_.
           bindM skipMediaType (\<lambda>_.
           bindM (receive 1) (\<lambda>serverVersion.
           bindM (readOpCount 0) (\<lambda>opCount.
           bindM (if opCount > 0 then bindM (receive (unat (opCount * 2))) (\<lambda>_. ret ()) else ret ()) (\<lambda>_.
           ret NoBody))))))"

definition getParser :: bodyParser where
  "getParser status protocolVersion flags =
     (if status = 1 \<or> status = 2 then ret NoBody
      else if status \<noteq> 0 then throw (statusError ''GET'' status)
      else bindM receiveByteArray (\<lambda>v. ret (ValueBody v)))"

definition receiveEntry :: "Body conn" where
  "receiveEntry = bindM receiveMetadata (\<lambda>m. bindM receiveByteArray (\<lambda>v.
     ret (EntryBody \<lparr>ew_metadata = m, ew_value = v\<rparr>)))"

definition getWithMetadataParser :: bodyParser where
  "getWithMetadataParser status protocolVersion flags =
     (if status = 1 \<or> status = 2 then ret NoBody
      else if status \<noteq> 0 then throw (statusError ''GET_WITH_METADATA'' status)
      else receiveEntry)"

definition putParser :: bodyParser where
  "putParser status protocolVersion flags =
     (if status = 3
      then bindM (if protocolVersion \<ge> VERSION_40 then receiveMetadata else ret noMetadata) (\<lambda>m.
           bindM receiveByteArray (\<lambda>v. ret (EntryBody \<lparr>ew_metadata = m, ew_value = v\<rparr>)))
      else ret NoBody)"

text \<open>The parser REMOVE, PUT\_IF\_ABSENT, REPLACE and the versioned operations share but for its message.\<close>

definition previousParser :: "string \<Rightarrow> bodyParser" where
  "previousParser operation status protocolVersion flags =
     (if status = 3 \<or> status = 4 then receiveEntry
      else if status = 0 \<or> status = 1 \<or> status = 2 then ret NoBody
      else throw (statusError operation status))"

definition containsKeyParser :: bodyParser where
  "containsKeyParser status protocolVersion flags =
     (if status = 0 \<or> status = 1 \<or> status = 2 then ret NoBody
      else throw (statusError ''CONTAINS_KEY'' status))"

section \<open>Results\<close>

text \<open>
  Failed responses are rethrown with the union of the nodes excluded, tried and named by the
  exception itself.
\<close>

definition rethrowWithTriedNodes :: "exn \<Rightarrow> ServerAddress list \<Rightarrow> ServerAddress list \<Rightarrow> exn" where
  "rethrowWithTriedNodes eptr tried excluded = (case eptr of
      HotRod e \<Rightarrow> HotRod (e\<lparr>triedNodes := unionNodes (unionNodes excluded tried) (triedNodes e)\<rparr>)
    | e \<Rightarrow> e)"

type_synonym 'r transform = "ServerAddress list \<Rightarrow> ServerAddress list \<Rightarrow> Response \<Rightarrow> (exn, 'r) outcome"

definition onSuccess :: "(Response \<Rightarrow> (exn, 'r) outcome) \<Rightarrow> 'r transform" where
  "onSuccess f tried excluded resp = (case rp_error resp of
      Some e \<Rightarrow> Throw (rethrowWithTriedNodes e tried excluded)
    | None \<Rightarrow> f resp)"

definition castValue :: "Body \<Rightarrow> (exn, byteArray option) outcome" where
  "castValue b = (case b of ValueBody v \<Rightarrow> Ok (Some v) | _ \<Rightarrow> Throw BadAnyCast)"

definition castEntry :: "Body \<Rightarrow> (exn, EntryWithMetadata option) outcome" where
  "castEntry b = (case b of EntryBody e \<Rightarrow> Ok (Some e) | _ \<Rightarrow> Throw BadAnyCast)"

definition pingResult :: "unit transform" where
  "pingResult = onSuccess (\<lambda>resp. Ok ())"

definition getResult :: "byteArray option transform" where
  "getResult = onSuccess (\<lambda>resp.
     if rp_status resp = Some 0 \<and> rp_body resp \<noteq> NoBody then castValue (rp_body resp) else Ok None)"

definition getWithMetadataResult :: "EntryWithMetadata option transform" where
  "getWithMetadataResult = onSuccess (\<lambda>resp.
     if rp_status resp = Some 0 \<and> rp_body resp \<noteq> NoBody then castEntry (rp_body resp) else Ok None)"

definition putResult :: "EntryWithMetadata option transform" where
  "putResult tried excluded = onSuccess (\<lambda>resp. case rp_status resp of
      None \<Rightarrow> UB
    | Some status \<Rightarrow>
        if status \<noteq> 0 \<and> status \<noteq> 3
        then Throw (hotrod_exn (''PUT failed with status: '' @ to_string (unat status)) ServerError (Some status)
               (unionNodes excluded tried) False)
        else if status = 3 \<and> rp_body resp \<noteq> NoBody then castEntry (rp_body resp)
        else Ok None) tried excluded"

definition removeResult :: "EntryWithMetadata option transform" where
  "removeResult = onSuccess (\<lambda>resp.
     if rp_status resp = Some 3 \<and> rp_body resp \<noteq> NoBody then castEntry (rp_body resp) else Ok None)"

definition versionedResult :: "bool transform" where
  "versionedResult = onSuccess (\<lambda>resp. Ok (rp_status resp = Some 0 \<or> rp_status resp = Some 3))"

definition previousResult :: "EntryWithMetadata option transform" where
  "previousResult = onSuccess (\<lambda>resp.
     if (rp_status resp = Some 3 \<or> rp_status resp = Some 4) \<and> rp_body resp \<noteq> NoBody
     then castEntry (rp_body resp) else Ok None)"

definition containsKeyResult :: "bool transform" where
  "containsKeyResult = onSuccess (\<lambda>resp. Ok (rp_status resp = Some 0))"

section \<open>The server's side\<close>

text \<open>A reference parser of expiration parameters and of the bodies that carry a value.\<close>

definition readDuration :: "byte \<Rightarrow> byteArray \<Rightarrow> nat \<Rightarrow> (exn, VLong option \<times> nat) outcome" where
  "readDuration unit buf off = (if unit = 7 then Ok (None, off)
     else bindO (readVLong buf off) (\<lambda>(d, off). Ok (Some d, off)))"

definition readExpiration :: "byteArray \<Rightarrow> nat \<Rightarrow> (exn, (VLong option \<times> VLong option) \<times> nat) outcome" where
  "readExpiration buf off =
     bindO (readByte buf off) (\<lambda>(units, off).
     bindO (readDuration (drop_bit 4 units) buf off) (\<lambda>(lifespan, off).
     bindO (readDuration (units AND 0x0F) buf off) (\<lambda>(maxIdle, off). Ok ((lifespan, maxIdle), off))))"

record PutRequest =
  pq_key :: byteArray
  pq_lifespan :: "VLong option"
  pq_maxIdle :: "VLong option"
  pq_version :: "int64 option"
  pq_value :: byteArray

definition parsePut :: "bool \<Rightarrow> byteArray \<Rightarrow> nat \<Rightarrow> (exn, PutRequest \<times> nat) outcome" where
  "parsePut versioned buf off =
     bindO (readByteArray buf off) (\<lambda>(key, off).
     bindO (readExpiration buf off) (\<lambda>((lifespan, maxIdle), off).
     bindO (if versioned then bindO (readLong buf off) (\<lambda>(v, off). Ok (Some v, off)) else Ok (None, off)) (\<lambda>(version, off).
     bindO (readByteArray buf off) (\<lambda>(value, off).
       Ok (\<lparr>pq_key = key, pq_lifespan = lifespan, pq_maxIdle = maxIdle, pq_version = version, pq_value = value\<rparr>, off)))))"

definition parseVersioned :: "byteArray \<Rightarrow> nat \<Rightarrow> (exn, (byteArray \<times> int64) \<times> nat) outcome" where
  "parseVersioned buf off =
     bindO (readByteArray buf off) (\<lambda>(key, off).
     bindO (readLong buf off) (\<lambda>(version, off). Ok ((key, version), off)))"

definition duration :: "VLong \<Rightarrow> VLong option" where
  "duration d = (if d = 0 then None else Some d)"

definition encodeDuration :: "VLong \<Rightarrow> byteArray" where
  "encodeDuration d = (if d = 0 then [] else writeVLong [] d)"

lemma timeUnits_nibbles:
  "drop_bit 4 (timeUnits l i) = (if l = 0 then 7 else 0)" "timeUnits l i AND 0x0F = (if i = 0 then 7 else 0)"
  by (cases "l = 0"; cases "i = 0"; simp add: timeUnits_def)+

lemma writeExpiration_eq:
  "writeExpiration buf l i = buf @ [timeUnits l i] @ encodeDuration l @ encodeDuration i"
  by (simp add: writeExpiration_def encodeDuration_def Let_def word_gt_0 writeVLong_append [of "_ @ _ # _"])

lemma readDuration_at:
  assumes "at_input buf off (encodeDuration d @ rest)" and "unit = (if d = 0 then 7 else 0)"
  shows "reads buf (readDuration unit buf off) (duration d) rest"
  using assms unfolding readDuration_def encodeDuration_def duration_def
  by (auto intro!: reads_Ok reads_bind intro: vlong.read_at)

lemma readExpiration_at:
  assumes "at_input buf off (([timeUnits l i] @ encodeDuration l @ encodeDuration i) @ rest)"
  shows "reads buf (readExpiration buf off) (duration l, duration i) rest"
  unfolding readExpiration_def
  by (rule reads_bind [OF wbyte.read_at [OF assms [unfolded append_assoc] TrueI]],
      rule reads_bind [OF readDuration_at], assumption, rule timeUnits_nibbles,
      rule reads_bind [OF readDuration_at], assumption, rule timeUnits_nibbles, erule reads_Ok)

lemma put_body_at:
  assumes "at_input buf off (writeByteArray [] key @ ([timeUnits l i] @ encodeDuration l @ encodeDuration i) @
      (if versioned then writeLong [] version else []) @ writeByteArray [] value @ rest)"
    and "fits32 key" and "fits32 value"
  shows "reads buf (parsePut versioned buf off) \<lparr>pq_key = key, pq_lifespan = duration l, pq_maxIdle = duration i,
    pq_version = (if versioned then Some version else None), pq_value = value\<rparr> rest"
proof -
  have v: "reads buf (if versioned then bindO (readLong buf off) (\<lambda>(v, off). Ok (Some v, off)) else Ok (None, off))
      (if versioned then Some version else None) (writeByteArray [] value @ rest)"
    if "at_input buf off ((if versioned then writeLong [] version else []) @ writeByteArray [] value @ rest)" for off
    using that by (auto intro!: reads_Ok reads_bind intro: long.read_at)
  show ?thesis unfolding parsePut_def
    by (rule reads_bind [OF lpbytes.read_at [OF assms(1,2)]], drule readExpiration_at, erule reads_bind, unfold prod.case,
        drule v, erule reads_bind, drule lpbytes.read_at [OF _ assms(3)], erule reads_bind, erule reads_Ok)
qed

lemma body_eqs:
  "putBody key value l i = writeByteArray [] key @ ([timeUnits l i] @ encodeDuration l @ encodeDuration i) @ writeByteArray [] value"
  "replaceWithVersionBody key value version l i =
     writeByteArray [] key @ ([timeUnits l i] @ encodeDuration l @ encodeDuration i) @ writeLong [] version @ writeByteArray [] value"
  "removeWithVersionBody key version = writeByteArray [] key @ writeLong [] version"
proof -
  show "putBody key value l i = writeByteArray [] key @ ([timeUnits l i] @ encodeDuration l @ encodeDuration i) @ writeByteArray [] value"
    unfolding putBody_def by (subst writeByteArray_append, subst writeExpiration_eq) simp
  show "replaceWithVersionBody key value version l i =
      writeByteArray [] key @ ([timeUnits l i] @ encodeDuration l @ encodeDuration i) @ writeLong [] version @ writeByteArray [] value"
    unfolding replaceWithVersionBody_def
    by (subst writeByteArray_append, subst writeLong_append, subst writeExpiration_eq) simp
  show "removeWithVersionBody key version = writeByteArray [] key @ writeLong [] version"
    unfolding removeWithVersionBody_def by (subst writeLong_append) simp
qed

text \<open>The bodies behind a header, for the server's parsers.\<close>

lemma request_body_at:
  assumes "fits32 key"
  shows "at_input buf off (keyBody key @ rest) \<Longrightarrow> reads buf (readByteArray buf off) key rest"
    and "at_input buf off (removeWithVersionBody key version @ rest) \<Longrightarrow> reads buf (parseVersioned buf off) (key, version) rest"
    and "fits32 value \<Longrightarrow> at_input buf off (putBody key value l i @ rest) \<Longrightarrow> reads buf (parsePut False buf off)
      \<lparr>pq_key = key, pq_lifespan = duration l, pq_maxIdle = duration i, pq_version = None, pq_value = value\<rparr> rest"
    and "fits32 value \<Longrightarrow> at_input buf off (replaceWithVersionBody key value version l i @ rest) \<Longrightarrow> reads buf (parsePut True buf off)
      \<lparr>pq_key = key, pq_lifespan = duration l, pq_maxIdle = duration i, pq_version = Some version, pq_value = value\<rparr> rest"
proof -
  assume "at_input buf off (keyBody key @ rest)"
  then show "reads buf (readByteArray buf off) key rest" unfolding keyBody_def by (rule lpbytes.read_at [OF _ assms])
next
  assume "at_input buf off (removeWithVersionBody key version @ rest)"
  then have "at_input buf off (writeByteArray [] key @ writeLong [] version @ rest)" by (simp add: body_eqs)
  note key = lpbytes.read_at [OF this assms]
  show "reads buf (parseVersioned buf off) (key, version) rest" unfolding parseVersioned_def
    by (rule reads_bind [OF key], drule long.read_at [OF _ TrueI], erule reads_bind, erule reads_Ok)
next
  assume v: "fits32 value" and "at_input buf off (putBody key value l i @ rest)"
  then show "reads buf (parsePut False buf off)
      \<lparr>pq_key = key, pq_lifespan = duration l, pq_maxIdle = duration i, pq_version = None, pq_value = value\<rparr> rest"
    using put_body_at [OF _ assms v, of buf off l i False version rest] by (simp add: body_eqs)
next
  assume v: "fits32 value" and "at_input buf off (replaceWithVersionBody key value version l i @ rest)"
  then show "reads buf (parsePut True buf off)
      \<lparr>pq_key = key, pq_lifespan = duration l, pq_maxIdle = duration i, pq_version = Some version, pq_value = value\<rparr> rest"
    using put_body_at [OF _ assms v, of buf off l i True version rest] by (simp add: body_eqs)
qed

text \<open>
  C14: The server decodes from every request body what the caller passed: key, value and, in the
  versioned operations, the version; a lifespan or idle time of 0 as the server's default and any
  other in seconds. It stops exactly at the end of the body.
\<close>

theorem request_bodies_parsed:
  assumes "fits32 key" and "fits32 value"
  shows "parsePut False (putBody key value lifespan maxIdle @ rest) 0 =
      Ok (\<lparr>pq_key = key, pq_lifespan = duration lifespan, pq_maxIdle = duration maxIdle, pq_version = None,
           pq_value = value\<rparr>, length (putBody key value lifespan maxIdle)) \<and>
    parsePut True (replaceWithVersionBody key value version lifespan maxIdle @ rest) 0 =
      Ok (\<lparr>pq_key = key, pq_lifespan = duration lifespan, pq_maxIdle = duration maxIdle, pq_version = Some version,
           pq_value = value\<rparr>, length (replaceWithVersionBody key value version lifespan maxIdle)) \<and>
    parseVersioned (removeWithVersionBody key version @ rest) 0 =
      Ok ((key, version), length (removeWithVersionBody key version)) \<and>
    readByteArray (keyBody key @ rest) 0 = Ok (key, length (keyBody key))"
proof -
  have start: "at_input (xs @ rest) 0 (xs @ rest)" for xs :: byteArray
    using at_input_start [of "[]" "xs @ rest"] by simp
  note r = reads_offset [of "[]", simplified]
  note b = request_body_at(1,2) [OF assms(1) start] request_body_at(3,4) [OF assms start]
  from r [OF b(1)] r [OF b(2)] r [OF b(3)] r [OF b(4)] show ?thesis by simp
qed

theorem request_bodies_parsed_witness:
  "parsePut False (putBody [1] [2, 3] 60 0 @ [9]) 0 =
     Ok (\<lparr>pq_key = [1], pq_lifespan = Some 60, pq_maxIdle = None, pq_version = None, pq_value = [2, 3]\<rparr>, 7)"
proof -
  have "length (putBody [1] [2, 3] 60 0) = 7" by code_simp
  with request_bodies_parsed [of "[1]" "[2, 3]" 60 0 "[9]"] show ?thesis by (simp add: duration_def)
qed

section \<open>Response bodies the protocol defines\<close>

datatype Operation = Ping | Get | GetWithMetadata | Put | PutIfAbsent | Replace | ContainsKey | Remove |
  RemoveWithVersion | ReplaceWithVersion

fun parserOf :: "Operation \<Rightarrow> bodyParser" where
  "parserOf Ping = pingParser"
| "parserOf Get = getParser"
| "parserOf GetWithMetadata = getWithMetadataParser"
| "parserOf Put = putParser"
| "parserOf PutIfAbsent = previousParser ''PUT_IF_ABSENT''"
| "parserOf Replace = previousParser ''REPLACE''"
| "parserOf ContainsKey = containsKeyParser"
| "parserOf Remove = previousParser ''REMOVE''"
| "parserOf RemoveWithVersion = previousParser ''REMOVE_WITH_VERSION''"
| "parserOf ReplaceWithVersion = previousParser ''REPLACE_WITH_VERSION''"

text \<open>The body a server sends with a status: nothing, a value, an entry, or the PING information.\<close>

fun encodeBody :: "Body \<Rightarrow> byteArray" where
  "encodeBody NoBody = []"
| "encodeBody (ValueBody v) = writeByteArray [] v"
| "encodeBody (EntryBody e) = encodeMetadata (ew_metadata e) @ writeByteArray [] (ew_value e)"

definition valid_entry :: "EntryWithMetadata \<Rightarrow> bool" where
  "valid_entry e \<longleftrightarrow> valid_metadata (ew_metadata e) \<and> fits32 (ew_value e)"

definition conditional :: "Operation \<Rightarrow> bool" where
  "conditional opn \<longleftrightarrow> opn \<in> {PutIfAbsent, Replace, Remove, RemoveWithVersion, ReplaceWithVersion}"

text \<open>Which body goes with which status (protocol 4.0 and later; PING apart).\<close>

definition legal :: "Operation \<Rightarrow> byte \<Rightarrow> Body \<Rightarrow> bool" where
  "legal opn status body \<longleftrightarrow> (case body of
      NoBody \<Rightarrow> opn \<noteq> Ping \<and> (status \<in> {1, 2} \<or> status = 0 \<and> opn \<noteq> Get \<and> opn \<noteq> GetWithMetadata)
    | ValueBody v \<Rightarrow> opn = Get \<and> status = 0 \<and> fits32 v
    | EntryBody e \<Rightarrow> valid_entry e \<and> (opn = GetWithMetadata \<and> status = 0 \<or> opn = Put \<and> status = 3 \<or>
        conditional opn \<and> status \<in> {3, 4}))"

lemma receiveEntry_yields:
  assumes "valid_entry e" and "holds c (encodeBody (EntryBody e) @ rest)"
  shows "yields c receiveEntry (EntryBody e) rest"
proof -
  from assms have h: "holds c (encodeMetadata (ew_metadata e) @ writeByteArray [] (ew_value e) @ rest)" by simp
  show ?thesis unfolding receiveEntry_def
    by (rule smeta.rd_bind [OF h], use assms(1) in \<open>simp add: valid_entry_def\<close>, rule sbytes.rd_bind, assumption,
        use assms(1) in \<open>simp add: valid_entry_def\<close>, erule yields_ret) simp
qed

lemma putParser_entry: "ver \<ge> VERSION_40 \<Longrightarrow> putParser 3 ver fl = receiveEntry"
  by (simp add: putParser_def receiveEntry_def)

lemma legal_body_consumed:
  assumes "legal opn status body" and "ver \<ge> VERSION_40" and h: "holds c (encodeBody body @ rest)"
  shows "yields c (parserOf opn status ver fl) body rest"
proof (cases body)
  case NoBody
  with assms(1) h show ?thesis
    by (cases opn) (auto simp: legal_def getParser_def getWithMetadataParser_def putParser_def previousParser_def
        containsKeyParser_def intro: yields_ret)
next
  case (ValueBody v)
  with assms(1) have o: "opn = Get" "status = 0" "fits32 v" by (simp_all add: legal_def)
  from h ValueBody have "holds c (writeByteArray [] v @ rest)" by simp
  then show ?thesis unfolding o(1,2) parserOf.simps getParser_def ValueBody
    using o(3) by (simp, intro sbytes.rd_bind) (auto intro: yields_ret)
next
  case (EntryBody e)
  with assms(1) have e: "valid_entry e" by (simp add: legal_def)
  have "parserOf opn status ver fl = receiveEntry"
    using assms(1,2) EntryBody
    by (cases opn) (auto simp: legal_def conditional_def getWithMetadataParser_def previousParser_def putParser_entry)
  with receiveEntry_yields [OF e] h EntryBody show ?thesis by simp
qed

text \<open>The statuses each operation takes for an answer.\<close>

fun answerStatuses :: "Operation \<Rightarrow> byte set" where
  "answerStatuses Ping = {0}"
| "answerStatuses Get = {0, 1, 2}"
| "answerStatuses GetWithMetadata = {0, 1, 2}"
| "answerStatuses ContainsKey = {0, 1, 2}"
| "answerStatuses Put = {0, 1, 2, 3}"
| "answerStatuses _ = {0, 1, 2, 3, 4}"

text \<open>
  C11: The body parsers keep the shared stream aligned, for every operation and every status (protocol 4.0 and later;
  the body of a PING is C40's). Every body the protocol defines for a status is consumed exactly and delivered: an entry
  with its metadata and value, a value, or nothing. Such a body exists for exactly the statuses the operation takes for an answer.
  For every other status the parser reads nothing, and throws a ServerError exception with that status; only the parser of PUT does
  not throw and delivers no body, which leaves the decision to the caller's side.
\<close>

theorem response_bodies_consumed:
  assumes "ver \<ge> VERSION_40"
  shows "(legal opn status body \<and> holds c (encodeBody body @ rest) \<longrightarrow>
      yields c (parserOf opn status ver flags) body rest) \<and>
    (opn \<noteq> Ping \<longrightarrow> status \<in> answerStatuses opn \<longleftrightarrow> (\<exists>b. legal opn status b)) \<and>
    (status \<notin> answerStatuses opn \<longrightarrow> (if opn = Put then parserOf opn status ver flags c = (Ok NoBody, c)
      else (\<exists>x. parserOf opn status ver flags c = (Throw (HotRod x), c) \<and> phase x = ServerError \<and>
            serverStatus x = Some status)))"
proof (intro conjI impI)
  assume "legal opn status body \<and> holds c (encodeBody body @ rest)"
  then show "yields c (parserOf opn status ver flags) body rest" using legal_body_consumed assms by blast
next
  have v: "\<exists>v. fits32 (v :: byteArray)" by (rule exI [of _ "[]"]) simp
  have e: "\<exists>e. valid_entry e"
    by (rule exI [of _ "\<lparr>ew_metadata = noMetadata\<lparr>md_version := Some 0\<rparr>, ew_value = []\<rparr>"]) (simp add: valid_entry_def valid_metadata_def noMetadata_def)
  assume "opn \<noteq> Ping"
  have ex: "(\<exists>b. legal opn status b) \<longleftrightarrow> legal opn status NoBody \<or> (\<exists>v. legal opn status (ValueBody v)) \<or> (\<exists>e. legal opn status (EntryBody e))"
    by (metis Body.exhaust)
  show "status \<in> answerStatuses opn \<longleftrightarrow> (\<exists>b. legal opn status b)"
    using v e \<open>opn \<noteq> Ping\<close> unfolding ex by (cases opn) (auto simp: legal_def conditional_def)
next
  assume s: "status \<notin> answerStatuses opn"
  then show "if opn = Put then parserOf opn status ver flags c = (Ok NoBody, c)
      else (\<exists>x. parserOf opn status ver flags c = (Throw (HotRod x), c) \<and> phase x = ServerError \<and>
            serverStatus x = Some status)"
    by (cases opn) (simp_all add: pingParser_def getParser_def getWithMetadataParser_def putParser_def previousParser_def
        containsKeyParser_def statusError_def hotrod_exn_def comp_simps)
qed

theorem response_bodies_consumed_witness:
  "yields ((newConnection ''h'' 1 [RecvData [0x03, 0, 0, 0, 0], RecvData [0, 0, 0, 9, 1, 7, 0xA1]] [])\<lparr>cn_connected := True\<rparr>)
     (parserOf Remove 3 VERSION_41 1)
     (EntryBody \<lparr>ew_metadata = noMetadata\<lparr>md_version := Some 9\<rparr>, ew_value = [7]\<rparr>) [0xA1]"
proof -
  let ?c = "(newConnection ''h'' 1 [RecvData [0x03, 0, 0, 0, 0], RecvData [0, 0, 0, 9, 1, 7, 0xA1]] [])\<lparr>cn_connected := True\<rparr>"
  let ?b = "EntryBody \<lparr>ew_metadata = noMetadata\<lparr>md_version := Some 9\<rparr>, ew_value = [7]\<rparr>"
  have "encodeBody ?b = [0x03, 0, 0, 0, 0, 0, 0, 0, 9, 1, 7]" by code_simp
  then have "legal Remove 3 ?b \<and> holds ?c (encodeBody ?b @ [0xA1])"
    by (simp add: legal_def conditional_def valid_entry_def valid_metadata_def noMetadata_def holds_def newConnection_def avail_def)
  with response_bodies_consumed [of VERSION_41 Remove 3 ?b ?c "[0xA1]" 1] show ?thesis
    by (simp add: VERSION_40_def VERSION_41_def)
qed

section \<open>Results\<close>

definition answered :: "byte \<Rightarrow> Body \<Rightarrow> TopologyInfo option \<Rightarrow> Response" where
  "answered status body topo = \<lparr>rp_status = Some status, rp_body = body, rp_error = None, rp_topologyUpdate = topo\<rparr>"

fun valueOf :: "Body \<Rightarrow> byteArray option" where
  "valueOf (ValueBody v) = Some v"
| "valueOf _ = None"

fun entryOf :: "Body \<Rightarrow> EntryWithMetadata option" where
  "entryOf (EntryBody e) = Some e"
| "entryOf _ = None"

lemmas result_defs = pingResult_def getResult_def getWithMetadataResult_def putResult_def removeResult_def versionedResult_def
  previousResult_def containsKeyResult_def onSuccess_def answered_def castValue_def castEntry_def

text \<open>
  C21: What callers are told. get and getWithMetadata return the value or entry of a found key and
  nothing for statuses 1 and 2; put returns the previous entry of status 3; remove of status 3 only;
  putIfAbsent and replace of statuses 3 and 4; the versioned operations answer true for statuses 0
  and 3 and false for 1, 2 and 4; containsKey answers true for 0 and false for 1 and 2. A failed
  response is thrown again, with the exclusions and the nodes of this attempt in triedNodes first,
  in that order.
\<close>

theorem results_of_statuses:
  "(legal Get st b \<longrightarrow> getResult tried excl (answered st b t) = Ok (valueOf b)) \<and>
   (legal GetWithMetadata st b \<longrightarrow> getWithMetadataResult tried excl (answered st b t) = Ok (entryOf b)) \<and>
   (legal Put st b \<and> st \<in> {0, 3} \<longrightarrow> putResult tried excl (answered st b t) = Ok (entryOf b)) \<and>
   (st \<notin> {0, 3} \<longrightarrow> (\<exists>x. putResult tried excl (answered st b t) = Throw (HotRod x) \<and> phase x = ServerError \<and>
      serverStatus x = Some st \<and> triedNodes x = unionNodes excl tried)) \<and>
   (legal Remove st b \<longrightarrow> removeResult tried excl (answered st b t) = Ok (if st = 3 then entryOf b else None)) \<and>
   (legal PutIfAbsent st b \<or> legal Replace st b \<longrightarrow> previousResult tried excl (answered st b t) = Ok (entryOf b)) \<and>
   versionedResult tried excl (answered st b t) = Ok (st \<in> {0, 3}) \<and>
   containsKeyResult tried excl (answered st b t) = Ok (st = 0) \<and>
   (rp_error resp = Some (HotRod e) \<longrightarrow>
      (let e' = e\<lparr>triedNodes := unionNodes (unionNodes excl tried) (triedNodes e)\<rparr> in
       getResult tried excl resp = Throw (HotRod e') \<and> getWithMetadataResult tried excl resp = Throw (HotRod e') \<and>
       putResult tried excl resp = Throw (HotRod e') \<and> removeResult tried excl resp = Throw (HotRod e') \<and>
       previousResult tried excl resp = Throw (HotRod e') \<and> versionedResult tried excl resp = Throw (HotRod e') \<and>
       containsKeyResult tried excl resp = Throw (HotRod e') \<and> pingResult tried excl resp = Throw (HotRod e')))"
  by (intro conjI impI; cases b;
      auto simp: result_defs legal_def conditional_def hotrod_exn_def rethrowWithTriedNodes_def Let_def)

theorem results_of_statuses_witness:
  "getResult [] [] (answered 0 (ValueBody [5]) None) = Ok (Some [5]) \<and> getResult [] [] (answered 2 NoBody None) = Ok None"
  using results_of_statuses [of 0 "ValueBody [5]" "[]" "[]" None undefined] results_of_statuses [of 2 NoBody "[]" "[]" None undefined]
  by (simp add: legal_def)

section \<open>PING\<close>

datatype MediaType = NoType | Predefined VInt | Custom string

fun encodeMediaType :: "MediaType \<Rightarrow> byteArray" where
  "encodeMediaType NoType = [0]"
| "encodeMediaType (Predefined i) = [1] @ writeVInt [] i @ writeVInt [] 0"
| "encodeMediaType (Custom s) = [2] @ writeString [] s @ writeVInt [] 0"

fun short_type :: "MediaType \<Rightarrow> bool" where
  "short_type (Custom s) \<longleftrightarrow> length s < 128"
| "short_type _ \<longleftrightarrow> True"

definition encodePing :: "MediaType \<Rightarrow> MediaType \<Rightarrow> byte \<Rightarrow> byte list list \<Rightarrow> byteArray" where
  "encodePing keyType valueType version opcodes = encodeMediaType keyType @ encodeMediaType valueType @ [version] @
     writeVInt [] (word_of_nat (length opcodes)) @ concat opcodes"

lemma skipVInt_unfold:
  "skipVInt = bindM (receive 1) (\<lambda>b. if b ! 0 AND 0x80 = 0 then ret (b ! 0) else skipVInt)"
  by (rule ext, subst skipVInt.simps) (auto simp: bindM_def split: prod.splits outcome.splits)

lemma readOpCount_unfold:
  "readOpCount n = bindM (receive 1) (\<lambda>b. if b ! 0 AND 0x80 = 0 then ret (push_bit 7 n OR ucast (b ! 0 AND 0x7F))
     else readOpCount (push_bit 7 n OR ucast (b ! 0 AND 0x7F)))"
  by (rule ext, subst readOpCount.simps) (auto simp: bindM_def Let_def split: prod.splits outcome.splits)

lemma skipVInt_yields:
  "holds c (writeVar [] (v :: VInt) @ rest) \<Longrightarrow> yields c skipVInt (last (writeVar [] v)) rest"
proof (induction v arbitrary: c rule: group_induct)
  case (small v)
  then have h: "holds c ([ucast v] @ rest)" by (simp add: writeVar_small)
  from small have "(ucast v :: byte) AND 0x80 = 0" by (simp add: last_byte)
  with small show ?case
    by (subst skipVInt_unfold, intro sbyte.rd_bind [OF h]) (auto simp: writeVar_small intro: yields_ret)
next
  case (big v)
  let ?b = "ucast ((v AND 0x7F) OR 0x80) :: byte"
  from big have h: "holds c ([?b] @ writeVar [] (drop_bit 7 v) @ rest)" by (simp add: writeVar_Cons)
  have b: "?b AND 0x80 \<noteq> 0" by (simp add: group_byte)
  have ne: "writeVar [] (drop_bit 7 v) \<noteq> []" using vint.enc_not_Nil [of "drop_bit 7 v"] by (simp add: writeVInt_def)
  show ?case
  proof (subst skipVInt_unfold, rule sbyte.rd_bind [OF h])
    fix d assume "holds d (writeVar [] (drop_bit 7 v) @ rest)"
    from big.IH [OF this] b big.hyps ne
    show "yields d (if [?b] ! 0 AND 0x80 = 0 then ret ([?b] ! 0) else skipVInt) (last (writeVar [] v)) rest"
      by (simp add: writeVar_Cons [of v])
  qed simp
qed

lemma drop7_of_nat: "n < 2 ^ 32 \<Longrightarrow> drop_bit 7 (word_of_nat n :: VInt) = word_of_nat (n div 128)"
  by (rule word_eq_iff_unsigned [where 'a = nat, THEN iffD2], unfold unat_drop_bit_eq)
    (simp add: unsigned_of_nat take_bit_nat_eq_self drop_bit_eq_div)

lemma drop7_small: "n < 128 \<Longrightarrow> drop_bit 7 (word_of_nat n :: VInt) = 0"
  by (simp add: drop7_of_nat)

lemma writeVInt_short: "n < 128 \<Longrightarrow> writeVInt [] (word_of_nat n) = [word_of_nat n]"
  by (simp add: writeVInt_def writeVar_small [OF drop7_small] unsigned_of_nat take_bit_nat_eq_self
      word_eq_iff_unsigned [where 'a = nat])

lemma skip_bind:
  assumes "holds c (writeVInt [] v @ rest)" and "\<And>d. holds d rest \<Longrightarrow> yields d (f (last (writeVInt [] v))) w rest'"
  shows "yields c (bindM skipVInt f) w rest'"
  using assms by (intro holds_bind [OF assms(1)]) (auto simp: writeVInt_def intro: skipVInt_yields)

lemma skipMediaType_yields:
  assumes "short_type t" and h0: "holds c (encodeMediaType t @ rest)"
  shows "yields c skipMediaType () rest"
proof (cases t)
  case NoType
  with h0 have h: "holds c ([0] @ rest)" by simp
  show ?thesis unfolding skipMediaType_def by (rule sbyte.rd_bind [OF h]) (auto intro: yields_ret)
next
  case (Predefined i)
  with h0 have h: "holds c ([1] @ writeVInt [] i @ writeVInt [] 0 @ rest)" by simp
  show ?thesis unfolding skipMediaType_def
    by (rule sbyte.rd_bind [OF h], simp, simp, unfold bindM_assoc, rule skip_bind, assumption, simp add: bindM_def ret_def)
       (rule skip_bind [unfolded bindM_def ret_def], assumption, simp add: yields_def holds_def)
next
  case (Custom s)
  with assms(1) have len: "length s < 128" by simp
  with h0 Custom have h: "holds c ([2] @ writeVInt [] (word_of_nat (length s)) @ bytes_of_string s @ writeVInt [] 0 @ rest)"
    by (cases "s = []") (auto simp: writeString_def bytes_of_string_def)
  have u: "unat (word_of_nat (length s) :: byte) = length s" using len by (simp add: unsigned_of_nat take_bit_nat_eq_self)
  then have pos: "(word_of_nat (length s) :: byte) > 0 \<longleftrightarrow> s \<noteq> []" by (simp add: word_gt_0 word_eq_iff_unsigned [where 'a = nat])
  have y: "yields d (if (word_of_nat (length s) :: byte) > 0
      then bindM (receive (unat (word_of_nat (length s) :: byte))) (\<lambda>_. ret ()) else ret ()) () (writeVInt [] 0 @ rest)"
    if "holds d (bytes_of_string s @ writeVInt [] 0 @ rest)" for d
    using that unfolding pos u
    by (auto simp: bytes_of_string_def [of "[]"] intro!: yields_ret holds_bind [OF that] receive_yields)
  have z: "yields d (bindM skipVInt (\<lambda>paramCount. ret ())) () rest" if "holds d (writeVInt [] 0 @ rest)" for d
    by (rule skip_bind [OF that]) (auto intro: yields_ret)
  show ?thesis unfolding skipMediaType_def
    by (rule sbyte.rd_bind [OF h], simp, simp add: bindM_assoc, rule skip_bind, assumption,
        unfold writeVInt_short [OF len] last.simps if_True simp_thms, rule holds_bind, assumption, erule y, erule z)
qed

lemma readOpCount_short:
  assumes "n < 128" and "holds c (writeVInt [] (word_of_nat n) @ rest)"
  shows "yields c (readOpCount 0) (word_of_nat n) rest"
proof -
  from assms have h: "holds c ([ucast (word_of_nat n :: VInt)] @ rest)" by (simp add: writeVInt_def writeVar_small drop7_small)
  from last_byte [OF drop7_small [OF assms(1)]] show ?thesis
    by (subst readOpCount_unfold, intro sbyte.rd_bind [OF h]) (auto intro: yields_ret)
qed

lemma unat_double: "n < 128 \<Longrightarrow> unat (word_of_nat n * 2 :: VInt) = 2 * n"
  by (simp add: unsigned_of_nat take_bit_nat_eq_self unat_word_ariths)

lemma length_concat_pairs: "\<forall>p \<in> set ps. length p = 2 \<Longrightarrow> length (concat ps) = 2 * length ps"
  by (induction ps) auto

lemma pingParser_yields:
  assumes t: "short_type keyType" "short_type valueType"
    and h0: "holds c (encodeMediaType keyType @ encodeMediaType valueType @ [version] @ cnt @ tail)"
    and cnt: "\<And>d. holds d (cnt @ tail) \<Longrightarrow> yields d (readOpCount 0) n tail"
    and tail: "tail = xs @ rest" "length xs = unat (n * 2)" "n > 0 \<or> xs = []"
  shows "yields c (pingParser 0 ver flags) NoBody rest"
proof -
  have ops: "yields d (if n > 0 then bindM (receive (unat (n * 2))) (\<lambda>_. ret ()) else ret ()) () rest"
    if "holds d tail" for d
    using that tail by (auto intro!: yields_ret holds_bind [OF that] receive_yields)
  show ?thesis unfolding pingParser_def
    by (subst if_not_P, simp, rule holds_bind [OF h0], erule skipMediaType_yields [OF t(1)],
        rule holds_bind, assumption, erule skipMediaType_yields [OF t(2)],
        rule sbyte.rd_bind, assumption, simp, rule holds_bind, assumption, erule cnt,
        rule holds_bind, assumption, erule ops, erule yields_ret) simp
qed

lemma ping_short:
  assumes t: "short_type keyType" "short_type valueType" and o: "\<forall>p \<in> set opcodes. length p = 2"
    and n: "length opcodes < 128" and h: "holds c (encodePing keyType valueType version opcodes @ rest)"
  shows "yields c (pingParser 0 ver flags) NoBody rest"
proof -
  from h have h': "holds c (encodeMediaType keyType @ encodeMediaType valueType @ [version] @
      writeVInt [] (word_of_nat (length opcodes)) @ concat opcodes @ rest)" by (simp add: encodePing_def)
  show ?thesis
    by (rule pingParser_yields [OF t h' readOpCount_short [OF n] refl])
      (use n length_concat_pairs [OF o] in
        \<open>auto simp: unat_double word_gt_0 word_eq_iff_unsigned [where 'a = nat] unsigned_of_nat take_bit_nat_eq_self\<close>)
qed








end
