(* ===== verification/MurmurHash3.thy ===== *)
theory MurmurHash3
  imports Prelude
begin

text \<open>
  src/hash/MurmurHash3.cpp: the x64 128-bit MurmurHash3 variant of the Java client. Words are 64-bit
  and wrap. Tail bytes are sign-extended as in the Java client (int8\_t to int64\_t); shifting such a
  negative value left is taken with its two's complement meaning, the one the compilers the project
  supports document.
\<close>

record State =
  h1 :: "64 word"
  h2 :: "64 word"
  k1 :: "64 word"
  k2 :: "64 word"
  c1 :: "64 word"
  c2 :: "64 word"

definition getblock :: "byteArray \<Rightarrow> nat \<Rightarrow> 64 word" where
  "getblock key i =
     ucast (key ! (i + 0))
     OR push_bit 8 (ucast (key ! (i + 1)))
     OR push_bit 16 (ucast (key ! (i + 2)))
     OR push_bit 24 (ucast (key ! (i + 3)))
     OR push_bit 32 (ucast (key ! (i + 4)))
     OR push_bit 40 (ucast (key ! (i + 5)))
     OR push_bit 48 (ucast (key ! (i + 6)))
     OR push_bit 56 (ucast (key ! (i + 7)))"

text \<open>The idiom (x << n) | (x >> (64 - n)).\<close>

definition rotl64 :: "nat \<Rightarrow> 64 word \<Rightarrow> 64 word" where
  "rotl64 n x = push_bit n x OR drop_bit (64 - n) x"

definition bmix :: "State \<Rightarrow> State" where
  "bmix s =
     (let s = s\<lparr>k1 := k1 s * c1 s\<rparr>;
          s = s\<lparr>k1 := rotl64 23 (k1 s)\<rparr>;
          s = s\<lparr>k1 := k1 s * c2 s\<rparr>;
          s = s\<lparr>h1 := h1 s XOR k1 s\<rparr>;
          s = s\<lparr>h1 := h1 s + h2 s\<rparr>;
          s = s\<lparr>h2 := rotl64 41 (h2 s)\<rparr>;
          s = s\<lparr>k2 := k2 s * c2 s\<rparr>;
          s = s\<lparr>k2 := rotl64 23 (k2 s)\<rparr>;
          s = s\<lparr>k2 := k2 s * c1 s\<rparr>;
          s = s\<lparr>h2 := h2 s XOR k2 s\<rparr>;
          s = s\<lparr>h2 := h2 s + h1 s\<rparr>;
          s = s\<lparr>h1 := h1 s * 3 + 0x52dce729\<rparr>;
          s = s\<lparr>h2 := h2 s * 3 + 0x38495ab5\<rparr>;
          s = s\<lparr>c1 := c1 s * 5 + 0x7b7d159c\<rparr>
      in s\<lparr>c2 := c2 s * 5 + 0x6bce6396\<rparr>)"

definition fmix :: "64 word \<Rightarrow> 64 word" where
  "fmix k =
     (let k = k XOR drop_bit 33 k;
          k = k * 0xff51afd7ed558ccd;
          k = k XOR drop_bit 33 k;
          k = k * 0xc4ceb9fe1a85ec53
      in k XOR drop_bit 33 k)"

fun mixBlocks :: "byteArray \<Rightarrow> nat \<Rightarrow> nat \<Rightarrow> State \<Rightarrow> State" where
  "mixBlocks key i 0 s = s"
| "mixBlocks key i (Suc n) s =
     mixBlocks key (Suc i) n
       (bmix (s\<lparr>k1 := getblock key (i * 2 * 8), k2 := getblock key ((i * 2 + 1) * 8)\<rparr>))"

text \<open>
  The switch on the number of tail bytes falls through: with r tail bytes, the bytes r - 1, ..., 8
  are merged into k2 and the bytes min r 8 - 1, ..., 0 into k1, each shifted to its place.
\<close>

fun xorTail :: "byteArray \<Rightarrow> nat \<Rightarrow> nat \<Rightarrow> 64 word \<Rightarrow> 64 word" where
  "xorTail key base 0 k = k"
| "xorTail key base (Suc n) k =
     xorTail key base n (k XOR push_bit (8 * n) (scast (key ! (base + n))))"

definition mixTail :: "byteArray \<Rightarrow> State \<Rightarrow> State" where
  "mixTail key s =
     (let tail = (length key div 16) * 16; r = length key mod 16
      in if r = 0 then s
         else bmix (s\<lparr>k2 := xorTail key (tail + 8) (r - 8) (k2 s),
                      k1 := xorTail key tail (min r 8) (k1 s)\<rparr>))"

definition hash128 :: "byteArray \<Rightarrow> int32 \<Rightarrow> 64 word \<times> 64 word" where
  "hash128 key seed =
     (let s = \<lparr>h1 = 0x9368e53c2f6af274 XOR scast seed, h2 = 0x586dcd208f7cd3fd XOR scast seed,
               k1 = 0, k2 = 0, c1 = 0x87c37b91114253d5, c2 = 0x4cf5ad432745937f\<rparr>;
          s = mixBlocks key 0 (length key div 16) s;
          s = s\<lparr>k1 := 0, k2 := 0\<rparr>;
          s = mixTail key s;
          s = s\<lparr>h2 := h2 s XOR word_of_nat (length key)\<rparr>;
          s = s\<lparr>h1 := h1 s + h2 s\<rparr>;
          s = s\<lparr>h2 := h2 s + h1 s\<rparr>;
          s = s\<lparr>h1 := fmix (h1 s)\<rparr>;
          s = s\<lparr>h2 := fmix (h2 s)\<rparr>;
          s = s\<lparr>h1 := h1 s + h2 s\<rparr>;
          s = s\<lparr>h2 := h2 s + h1 s\<rparr>
      in (h1 s, h2 s))"

definition hash64 :: "byteArray \<Rightarrow> int32 \<Rightarrow> 64 word" where
  "hash64 key seed = fst (hash128 key seed)"

definition hash32 :: "byteArray \<Rightarrow> int32 \<Rightarrow> int32" where
  "hash32 key seed = ucast (drop_bit 32 (hash64 key seed))"

text \<open>The finalisation of hash128 as a function of the two state words, for the proofs.\<close>

definition finish :: "64 word \<Rightarrow> 64 word \<Rightarrow> 64 word \<times> 64 word" where
  "finish a b = (let p = a + b; q = b + p in (fmix p + fmix q, fmix q + (fmix p + fmix q)))"

lemma xor_right_cancel: "a XOR c = b XOR c \<longleftrightarrow> a = (b :: 'a::len word)"
  by (metis xor.assoc xor.right_neutral xor_self_eq)

lemma xor_left_cancel: "c XOR a = c XOR b \<longleftrightarrow> a = (b :: 'a::len word)"
  by (metis xor.commute xor_right_cancel)

section \<open>Invertibility of the mixing steps\<close>

lemma xorshift_involution: "33 \<le> n \<Longrightarrow> (x XOR drop_bit n x) XOR drop_bit n (x XOR drop_bit n x) = (x :: 64 word)"
  by (rule bit_word_eqI) (auto simp: bit_simps dest: bit_imp_le_length)

lemma xorshift_inject: "x XOR drop_bit 33 x = y XOR drop_bit 33 (y :: 64 word) \<Longrightarrow> x = y"
  by (metis xorshift_involution order_refl)

lemma mult_inverse_inject:
  fixes c i :: "64 word"
  assumes "c * i = 1" and "x * c = y * c"
  shows "x = y"
proof -
  have "x * c * i = y * c * i" using assms(2) by simp
  with assms(1) show ?thesis by (simp add: mult.assoc)
qed

lemma rotl64_inverse:
  assumes "n < 64"
  shows "rotl64 (64 - n) (rotl64 n x) = x"
proof (rule bit_word_eqI)
  fix m assume m: "m < LENGTH(64)"
  show "bit (rotl64 (64 - n) (rotl64 n x)) m = bit x m"
  proof (cases "64 - n \<le> m")
    case True
    with m assms show ?thesis by (auto simp: rotl64_def bit_simps dest: bit_imp_le_length)
  next
    case False
    with m assms show ?thesis by (auto simp: rotl64_def bit_simps dest: bit_imp_le_length)
  qed
qed

lemma rotl64_inject: "n < 64 \<Longrightarrow> rotl64 n x = rotl64 n y \<Longrightarrow> x = y"
  by (metis rotl64_inverse)

lemmas murmur_inverses =
  mult_inverse_inject [of "0xff51afd7ed558ccd" "0x4f74430c22a54005", simplified]
  mult_inverse_inject [of "0xc4ceb9fe1a85ec53" "0x9cb4b2f8129337db", simplified]
  mult_inverse_inject [of "0x87c37b91114253d5" "0xa98409e882ce4d7d", simplified]
  mult_inverse_inject [of "0x4cf5ad432745937f" "0xa81e14edd9de2c7f", simplified]
  mult_inverse_inject [of 3 "0xaaaaaaaaaaaaaaab", simplified]

lemma fmix_inject: "fmix x = fmix y \<Longrightarrow> x = y"
  unfolding fmix_def Let_def
  by (drule xorshift_inject, drule murmur_inverses, drule xorshift_inject, drule murmur_inverses,
      drule xorshift_inject)

lemma getblock_byte:
  assumes "j < 8"
  shows "ucast (drop_bit (8 * j) (getblock key i)) = key ! (i + j)"
proof -
  from assms have "j \<in> {0, 1, 2, 3, 4, 5, 6, 7}" by auto
  then show ?thesis
    by (elim insertE emptyE; simp only:; intro bit_word_eqI)
      (auto simp: getblock_def bit_simps dest: bit_imp_le_length)
qed


lemma getblock_inject:
  assumes "getblock key i = getblock key' i" and "j < 8"
  shows "key ! (i + j) = key' ! (i + j)"
  using getblock_byte [OF assms(2), of key i] getblock_byte [OF assms(2), of key' i] assms(1) by simp

lemma finish_inject:
  assumes "finish a b = finish a' b'"
  shows "a = a' \<and> b = b'"
proof -
  have q: "fmix (b + (a + b)) = snd (finish a b) - fst (finish a b)"
    and p: "fmix (a + b) = fst (finish a b) - fmix (b + (a + b))" for a b
    by (simp_all add: finish_def Let_def)
  have "fmix (b + (a + b)) = fmix (b' + (a' + b'))" unfolding q [of b a] q [of b' a'] assms ..
  then have "fmix (a + b) = fmix (a' + b')" unfolding p [of a b] p [of a' b'] assms by simp
  then have ab: "a + b = a' + b'" by (rule fmix_inject)
  from fmix_inject [OF \<open>fmix (b + (a + b)) = fmix (b' + (a' + b'))\<close>]
  have "b = b'" unfolding ab add_right_cancel .
  with ab show ?thesis by simp
qed

lemma hash128_finish:
  "hash128 key seed =
    (let s = mixTail key ((mixBlocks key 0 (length key div 16)
       \<lparr>h1 = 0x9368e53c2f6af274 XOR scast seed, h2 = 0x586dcd208f7cd3fd XOR scast seed,
        k1 = 0, k2 = 0, c1 = 0x87c37b91114253d5, c2 = 0x4cf5ad432745937f\<rparr>)\<lparr>k1 := 0, k2 := 0\<rparr>)
     in finish (h1 s) (h2 s XOR word_of_nat (length key)))"
  by (simp add: hash128_def finish_def Let_def)

lemma key_word_inject:
  "rotl64 23 (x * 0x87c37b91114253d5) * 0x4cf5ad432745937f =
     rotl64 23 (y * 0x87c37b91114253d5) * 0x4cf5ad432745937f \<Longrightarrow> x = y"
  "rotl64 23 (x * 0x4cf5ad432745937f) * 0x87c37b91114253d5 =
     rotl64 23 (y * 0x4cf5ad432745937f) * 0x87c37b91114253d5 \<Longrightarrow> x = y"
  by (drule murmur_inverses, drule rotl64_inject [rotated], simp, drule murmur_inverses, assumption)+

lemma bmix_keys_inject:
  assumes "h1 s = h1 t" "h2 s = h2 t"
    and c: "c1 s = 0x87c37b91114253d5" "c2 s = 0x4cf5ad432745937f" "c1 t = c1 s" "c2 t = c2 s"
    and eq1: "h1 (bmix s) = h1 (bmix t)" and eq2: "h2 (bmix s) = h2 (bmix t)"
  shows "k1 s = k1 t \<and> k2 s = k2 t"
proof -
  let ?K1 = "\<lambda>s. rotl64 23 (k1 s * c1 s) * c2 s"
  let ?K2 = "\<lambda>s. rotl64 23 (k2 s * c2 s) * c1 s"
  have "((h1 s XOR ?K1 s) + h2 s) * 3 = ((h1 t XOR ?K1 t) + h2 t) * 3"
    using eq1 by (simp add: bmix_def Let_def)
  then have "(h1 s XOR ?K1 s) + h2 s = (h1 t XOR ?K1 t) + h2 t" by (rule murmur_inverses)
  then have "?K1 s = ?K1 t" unfolding assms(1,2) add_right_cancel xor_left_cancel .
  then have a: "k1 s = k1 t"
    unfolding c by (rule key_word_inject)
  have "((rotl64 41 (h2 s) XOR ?K2 s) + ((h1 s XOR ?K1 s) + h2 s)) * 3 =
      ((rotl64 41 (h2 t) XOR ?K2 t) + ((h1 t XOR ?K1 t) + h2 t)) * 3"
    using eq2 by (simp add: bmix_def Let_def)
  then have "(rotl64 41 (h2 s) XOR ?K2 s) + ((h1 s XOR ?K1 s) + h2 s) =
      (rotl64 41 (h2 t) XOR ?K2 t) + ((h1 t XOR ?K1 t) + h2 t)" by (rule murmur_inverses)
  then have "?K2 s = ?K2 t"
    unfolding assms(1,2) \<open>?K1 s = ?K1 t\<close> add_right_cancel xor_left_cancel .
  then have "k2 s = k2 t"
    unfolding c by (rule key_word_inject)
  with a show ?thesis by simp
qed

section \<open>Properties\<close>

text \<open>
  hash32 computes the reference values of the Java client (seed 9001) that the unit tests list:
  keys with no tail, a short tail, a tail with bytes above 0x7F (sign-extended), whole blocks, and
  whole blocks with a tail.
\<close>

theorem murmur_java_reference_values:
  "sint (hash32 [] 9001) = 89125410 \<and>
   sint (hash32 [97] 9001) = -1119243492 \<and>
   sint (hash32 (bytes_of_string ''hello'') 9001) = 1671093224 \<and>
   sint (hash32 (bytes_of_string ''user:12345'') 9001) = -1064174856 \<and>
   sint (hash32 [99, 97, 102, 195, 169] 9001) = -1623864979 \<and>
   sint (hash32 (bytes_of_string ''The quick brown fox jumps over the lazy dog'') 9001) = 1049944299"
  by code_simp

text \<open>
  The finaliser fmix is a bijection of the 64-bit words, and the 128-bit hash has no collision
  among keys of one block (16 bytes), for every seed.
\<close>

theorem murmur_no_block_collision:
  "bij fmix \<and>
   inj_on (\<lambda>key. hash128 key seed) {key. length key = 16}"
proof (intro conjI inj_onI)
  show "bij fmix" by (intro bijI finite_UNIV_inj_surj injI) (auto dest: fmix_inject)
  fix key key' assume "key \<in> {key. length key = 16}" and "key' \<in> {key. length key = 16}"
    and "hash128 key seed = hash128 key' seed"
  then have a: "length key = 16 \<and> length key' = 16 \<and> hash128 key seed = hash128 key' seed" by simp
  let ?s = "\<lambda>key. \<lparr>h1 = 0x9368e53c2f6af274 XOR scast seed, h2 = 0x586dcd208f7cd3fd XOR scast seed,
        k1 = getblock key 0, k2 = getblock key 8, c1 = 0x87c37b91114253d5, c2 = 0x4cf5ad432745937f\<rparr>"
  have fin: "hash128 key seed = finish (h1 (bmix (?s key))) (h2 (bmix (?s key)) XOR 16)"
    if "length key = 16" for key
    using that by (simp add: hash128_finish mixTail_def Let_def bmix_def)
  from a fin have "h1 (bmix (?s key)) = h1 (bmix (?s key'))"
    and "h2 (bmix (?s key)) XOR 16 = h2 (bmix (?s key')) XOR 16"
    by (metis finish_inject)+
  then have "h1 (bmix (?s key)) = h1 (bmix (?s key'))" and "h2 (bmix (?s key)) = h2 (bmix (?s key'))"
    unfolding xor_right_cancel .
  then have "getblock key 0 = getblock key' 0" and "getblock key 8 = getblock key' 8"
    using bmix_keys_inject [of "?s key" "?s key'"] by simp_all
  then have "\<forall>j < 8. key ! j = key' ! j \<and> key ! (8 + j) = key' ! (8 + j)"
    using getblock_inject [of key 0 key'] getblock_inject [of key 8 key'] by simp
  then have "key ! n = key' ! n" if "n < 16" for n
    using that by (cases "n < 8") (auto dest: spec [of _ "n - 8"])
  with a show "key = key'" by (auto intro: nth_equalityI)
qed

end
