(* ===== verification/ConsistentHash.thy ===== *)
theory ConsistentHash
  imports Topology MurmurHash3
begin

text \<open>
  include/hotrod/ConsistentHash.h and src/hash/ConsistentHash.cpp: routing of keys to the owners of
  their segment. C++ int values are mathematical integers obtained by sint where an unsigned value
  is cast; warnings printed to stderr are left out. A pointer to a server is the server, nullptr is
  \<open>None\<close>.
\<close>

record ConsistentHash =
  ch_numSegments :: int
  ch_numOwners :: int
  ch_segmentOwners :: "int32 list list"

definition newConsistentHash :: ConsistentHash where
  "newConsistentHash = \<lparr>ch_numSegments = 0, ch_numOwners = 0, ch_segmentOwners = []\<rparr>"

definition ch_hasHashTopology :: "ConsistentHash \<Rightarrow> bool" where
  "ch_hasHashTopology ch \<longleftrightarrow> ch_numSegments ch > 0"

definition clear :: "ConsistentHash \<Rightarrow> ConsistentHash" where
  "clear ch = ch\<lparr>ch_numSegments := 0, ch_numOwners := 0, ch_segmentOwners := []\<rparr>"

section \<open>Parsing an ownership table\<close>

type_synonym 'a hash = "(ConsistentHash, exn, 'a) comp"

definition modifyH :: "(ConsistentHash \<Rightarrow> ConsistentHash) \<Rightarrow> unit hash" where
  "modifyH f = (\<lambda>ch. (Ok (), f ch))"

definition hashIdAt :: "byteArray \<Rightarrow> nat \<Rightarrow> int32" where
  "hashIdAt buffer offset =
     push_bit 24 (ucast (buffer ! offset)) OR push_bit 16 (ucast (buffer ! (offset + 1))) OR
     push_bit 8 (ucast (buffer ! (offset + 2))) OR ucast (buffer ! (offset + 3))"

text \<open>The inner loop, with \<open>n\<close> owners left of segment \<open>seg\<close>.\<close>

fun readOwners :: "byteArray \<Rightarrow> nat \<Rightarrow> nat \<Rightarrow> nat \<Rightarrow> nat \<Rightarrow> nat hash" where
  "readOwners buffer seg owner 0 offset = ret offset"
| "readOwners buffer seg owner (Suc n) offset =
     (if offset + 4 > length buffer
      then throw (RuntimeError ''ConsistentHash: buffer too short for hash ID'')
      else bindM (modifyH (\<lambda>ch. ch\<lparr>ch_segmentOwners := (ch_segmentOwners ch)[seg :=
                  (ch_segmentOwners ch ! seg)[owner := hashIdAt buffer offset]]\<rparr>)) (\<lambda>_.
           readOwners buffer seg (Suc owner) n (offset + 4)))"

text \<open>The outer loop, with \<open>n\<close> segments left.\<close>

fun readSegments :: "byteArray \<Rightarrow> nat \<Rightarrow> nat \<Rightarrow> nat \<Rightarrow> nat \<Rightarrow> nat hash" where
  "readSegments buffer numOwners seg 0 offset = ret offset"
| "readSegments buffer numOwners seg (Suc n) offset =
     bindM (modifyH (\<lambda>ch. ch\<lparr>ch_segmentOwners := (ch_segmentOwners ch)[seg := replicate numOwners 0]\<rparr>)) (\<lambda>_.
     bindM (readOwners buffer seg 0 numOwners offset) (\<lambda>offset.
     readSegments buffer numOwners (Suc seg) n offset))"

definition parseHashTopology :: "byteArray \<Rightarrow> nat \<Rightarrow> nat hash" where
  "parseHashTopology buffer offset =
     bindM (liftO (readVInt buffer offset)) (\<lambda>(v, offset).
     let numSegments = sint v in
     bindM (modifyH (\<lambda>ch. ch\<lparr>ch_numSegments := numSegments\<rparr>)) (\<lambda>_.
     if numSegments \<le> 0 then throw (RuntimeError ''ConsistentHash: invalid number of segments'')
     else if offset \<ge> length buffer
       then throw (RuntimeError ''ConsistentHash: buffer too short for numOwners'')
     else let numOwners = unat (buffer ! offset); offset = Suc offset in
     bindM (modifyH (\<lambda>ch. ch\<lparr>ch_numOwners := int numOwners\<rparr>)) (\<lambda>_.
     if numOwners = 0 then throw (RuntimeError ''ConsistentHash: invalid number of owners'')
     else
     bindM (modifyH (\<lambda>ch. ch\<lparr>ch_segmentOwners := replicate (nat numSegments) []\<rparr>)) (\<lambda>_.
     readSegments buffer numOwners 0 (nat numSegments) offset))))"

section \<open>Taking over a topology\<close>

text \<open>The inner loop of updateFromTopology; \<open>None\<close> is the early return after an invalid index.\<close>

fun convertOwners :: "ServerInfo list \<Rightarrow> byte list \<Rightarrow> int32 list option" where
  "convertOwners servers [] = Some []"
| "convertOwners servers (serverIndex # ownerIndices) =
     (if unat serverIndex < length servers
      then map_option ((#) (si_hashId (servers ! unat serverIndex))) (convertOwners servers ownerIndices)
      else None)"

fun convertSegments :: "ServerInfo list \<Rightarrow> byte list list \<Rightarrow> int32 list list option" where
  "convertSegments servers [] = Some []"
| "convertSegments servers (ownerIndices # segs) =
     (case convertOwners servers ownerIndices of
        None \<Rightarrow> None
      | Some ids \<Rightarrow> map_option ((#) ids) (convertSegments servers segs))"

definition updateFromTopology :: "TopologyInfo \<Rightarrow> ConsistentHash \<Rightarrow> ConsistentHash" where
  "updateFromTopology t ch =
     (if \<not> hasHashTopology t then clear ch
      else
        let servers = ti_servers t;
            topoSegmentOwners = ti_segmentOwners t;
            numSegments = sint (ti_numSegments t)
        in if int (length topoSegmentOwners) \<noteq> numSegments mod 2 ^ 64 then clear ch
           else
             let numOwners = (if topoSegmentOwners = [] then 0 else int (length (topoSegmentOwners ! 0)))
             in case convertSegments servers topoSegmentOwners of
                  None \<Rightarrow> clear ch
                | Some table \<Rightarrow> ch\<lparr>ch_numSegments := numSegments, ch_numOwners := numOwners,
                                   ch_segmentOwners := table\<rparr>)"

section \<open>Routing\<close>

text \<open>C++ integer division truncates towards zero.\<close>

definition quot :: "int \<Rightarrow> int \<Rightarrow> int" where
  "quot a b = sgn a * sgn b * (\<bar>a\<bar> div \<bar>b\<bar>)"

definition getSegment :: "byteArray \<Rightarrow> ConsistentHash \<Rightarrow> int" where
  "getSegment key ch =
     (if ch_numSegments ch = 0 \<or> ch_segmentOwners ch = [] then 0
      else
        let hash = hash32 key 9001;
            normalizedHash = hash AND 0x7FFFFFFF;
            segment = quot (sint normalizedHash * ch_numSegments ch) (2 ^ 31)
        in if segment < 0 \<or> segment \<ge> int (length (ch_segmentOwners ch)) then 0 else segment)"

definition findServerByHashId :: "int32 \<Rightarrow> TopologyInfo \<Rightarrow> ServerInfo option" where
  "findServerByHashId hashId t = List.find (\<lambda>server. si_hashId server = hashId) (ti_servers t)"

definition getPrimaryOwner :: "byteArray \<Rightarrow> TopologyInfo \<Rightarrow> ConsistentHash \<Rightarrow> ServerInfo option" where
  "getPrimaryOwner key t ch =
     (if \<not> ch_hasHashTopology ch then None
      else
        let segment = getSegment key ch
        in if segment < 0 \<or> segment \<ge> int (length (ch_segmentOwners ch)) then None
           else if ch_segmentOwners ch ! nat segment = [] then None
           else findServerByHashId (ch_segmentOwners ch ! nat segment ! 0) t)"

definition getOwners :: "byteArray \<Rightarrow> TopologyInfo \<Rightarrow> ConsistentHash \<Rightarrow> ServerInfo list" where
  "getOwners key t ch =
     (if \<not> ch_hasHashTopology ch then []
      else
        let segment = getSegment key ch
        in if segment < 0 \<or> segment \<ge> int (length (ch_segmentOwners ch)) then []
           else List.map_filter (\<lambda>hashId. findServerByHashId hashId t) (ch_segmentOwners ch ! nat segment))"

section \<open>Reference definitions\<close>

text \<open>The normalised hash of a key, a number below 2^31, and the Java client's segment of it.\<close>

definition keyHash :: "byteArray \<Rightarrow> int" where
  "keyHash key = uint (hash32 key 9001) mod 2 ^ 31"

definition javaSegment :: "int \<Rightarrow> byteArray \<Rightarrow> int" where
  "javaSegment n key = keyHash key div ((2 ^ 31 + n - 1) div n)"

text \<open>A table of the right shape, the invariant of the object once a topology is taken over.\<close>

definition wf_hash :: "ConsistentHash \<Rightarrow> bool" where
  "wf_hash ch \<longleftrightarrow> ch_numSegments ch = int (length (ch_segmentOwners ch)) \<and>
     length (ch_segmentOwners ch) < 2 ^ 31"

definition encodeHashId :: "int32 \<Rightarrow> byteArray" where
  "encodeHashId v = [ucast (drop_bit 24 v), ucast (drop_bit 16 v), ucast (drop_bit 8 v), ucast v]"

definition encodeOwnerTable :: "nat \<Rightarrow> int32 list list \<Rightarrow> byteArray" where
  "encodeOwnerTable numOwners table = writeVInt [] (word_of_nat (length table)) @ [word_of_nat numOwners] @
     concat (map (\<lambda>ids. concat (map encodeHashId ids)) table)"

section \<open>Segments\<close>

lemma quot_nonneg: "0 \<le> a \<Longrightarrow> 0 < b \<Longrightarrow> quot a b = a div b"
  by (cases "a = 0") (simp_all add: quot_def)

lemma sint_normalized: "sint (h AND 0x7FFFFFFF :: int32) = uint h mod 2 ^ 31"
proof -
  have "uint (h AND 0x7FFFFFFF) = uint h mod 2 ^ 31"
    using take_bit_eq_mask [of 31 "uint h"] by (simp add: uint_and take_bit_eq_mod mask_eq_exp_minus_1)
  moreover from this have "uint (h AND 0x7FFFFFFF) < 2 ^ 31" by simp
  ultimately show ?thesis
    by (simp add: sint_uint signed_take_bit_int_eq_self)
qed

lemma keyHash_bounds: "0 \<le> keyHash key \<and> keyHash key < 2 ^ 31"
  by (simp add: keyHash_def)

lemma segment_bounds:
  fixes n h :: int
  assumes "0 < n" and "0 \<le> h" and "h < 2 ^ 31"
  shows "0 \<le> h * n div 2 ^ 31 \<and> h * n div 2 ^ 31 < n"
proof -
  have "h * n < n * 2 ^ 31" using assms by (simp add: mult.commute)
  then have "h * n < n * 2147483648" by simp
  then have "h * n div 2147483648 < n" by linarith
  with assms show ?thesis by (simp add: pos_imp_zdiv_nonneg_iff)
qed

lemma getSegment_eq:
  assumes "wf_hash ch" and "ch_segmentOwners ch \<noteq> []"
  shows "getSegment key ch = keyHash key * ch_numSegments ch div 2 ^ 31"
proof -
  from assms have n: "0 < ch_numSegments ch" "ch_numSegments ch = int (length (ch_segmentOwners ch))"
    by (simp_all add: wf_hash_def)
  have k: "sint (hash32 key 9001 AND 0x7FFFFFFF) = keyHash key"
    by (simp only: sint_normalized keyHash_def)
  from n(1) keyHash_bounds have "quot (keyHash key * ch_numSegments ch) (2 ^ 31) = keyHash key * ch_numSegments ch div 2 ^ 31"
    by (intro quot_nonneg) simp_all
  with n k segment_bounds [OF n(1), of "keyHash key"] keyHash_bounds [of key] show ?thesis
    unfolding getSegment_def Let_def k by auto
qed

lemma getSegment_range:
  assumes "wf_hash ch" and "ch_segmentOwners ch \<noteq> []"
  shows "0 \<le> getSegment key ch \<and> getSegment key ch < int (length (ch_segmentOwners ch))"
proof -
  from assms have n: "0 < ch_numSegments ch" by (simp add: wf_hash_def)
  with segment_bounds [OF n, of "keyHash key"] keyHash_bounds [of key] getSegment_eq [OF assms] assms(1)
  show ?thesis by (simp add: wf_hash_def)
qed

text \<open>Scaling agrees with the Java client's division when the segments divide the hash range evenly.\<close>

lemma scale_eq_div:
  fixes n h :: int
  assumes "n dvd 2 ^ 31" and "0 < n"
  shows "h * n div 2 ^ 31 = h div ((2 ^ 31 + n - 1) div n)"
proof -
  from assms(1) obtain k where k: "2 ^ 31 = n * k" by (auto simp: dvd_def)
  with assms(2) have "0 < k" by (metis zero_less_mult_pos zero_less_power zero_less_numeral)
  have "(n * k + n - 1) div n = k + (n - 1) div n"
    using div_mult_self2 [of n "n - 1" k] assms(2) by (simp add: algebra_simps)
  also have "(n - 1) div n = 0" using assms(2) by simp
  finally have "(2 ^ 31 + n - 1) div n = k" by (simp only: k)
  moreover have "h * n div (n * k) = h div k" using assms(2) by (simp add: mult.commute)
  ultimately show ?thesis by (simp only: k)
qed

section \<open>Taking over a topology\<close>

lemma convertOwners_Some:
  "\<forall>i \<in> set os. unat i < length ss \<Longrightarrow>
    convertOwners ss os = Some (map (\<lambda>i. si_hashId (ss ! unat i)) os)"
  by (induction os) auto

lemma convertSegments_Some:
  "\<forall>os \<in> set segs. \<forall>i \<in> set os. unat i < length ss \<Longrightarrow>
    convertSegments ss segs = Some (map (map (\<lambda>i. si_hashId (ss ! unat i))) segs)"
  by (induction segs) (auto simp: convertOwners_Some)

lemma length_convertSegments: "convertSegments ss segs = Some table \<Longrightarrow> length table = length segs"
  by (induction segs arbitrary: table) (auto split: option.splits)

lemma convertOwners_ids: "convertOwners ss os = Some ids \<Longrightarrow> set ids \<subseteq> si_hashId ` set ss"
  by (induction os arbitrary: ids) (auto split: if_splits)

lemma convertSegments_ids:
  "convertSegments ss segs = Some table \<Longrightarrow> ids \<in> set table \<Longrightarrow> set ids \<subseteq> si_hashId ` set ss"
  by (induction segs arbitrary: table) (fastforce split: option.splits dest: convertOwners_ids)+

lemma sint_length: "n < 2 ^ 31 \<Longrightarrow> sint (word_of_nat n :: VInt) = int n"
  by (simp add: sint_uint unsigned_of_nat take_bit_nat_eq_self signed_take_bit_int_eq_self)

lemma sint_upper: "sint (v :: VInt) < 2 ^ 31"
  using sint_lt [of v] by simp

lemma wf_clear [simp]: "wf_hash (clear ch)"
  by (simp add: wf_hash_def clear_def)

lemma sint_mod_length:
  assumes "int n = sint (v :: VInt) mod 2 ^ 64" and "n < 2 ^ 32"
  shows "sint v = int n \<and> n < 2 ^ 31"
proof (cases "0 \<le> sint v")
  case True
  with sint_upper [of v] have "sint v mod 2 ^ 64 = sint v" by simp
  with assms(1) sint_upper [of v] show ?thesis by simp
next
  case False
  have "- (2 ^ 31) \<le> sint v" using sint_ge [of v] by simp
  then have "(sint v + 2 ^ 64) mod 2 ^ 64 = sint v + 2 ^ 64"
    using False by (intro mod_pos_pos_trivial) simp_all
  then have "sint v mod 2 ^ 64 = sint v + 2 ^ 64" by (simp only: mod_add_self2)
  with assms \<open>- (2 ^ 31) \<le> sint v\<close> show ?thesis by simp
qed

lemma wf_updateFromTopology:
  assumes "fits32 (ti_segmentOwners t)"
  shows "wf_hash (updateFromTopology t ch)"
  using assms sint_mod_length [of "length (ti_segmentOwners t)" "ti_numSegments t"]
  by (auto simp: updateFromTopology_def Let_def wf_hash_def clear_def dest: length_convertSegments split: option.splits)

text \<open>A topology with distinct hash ids and valid owner indices is taken over completely.\<close>

lemma updateFromTopology_eq:
  assumes "\<forall>os \<in> set (ti_segmentOwners t). \<forall>i \<in> set os. unat i < length (ti_servers t)"
    and "ti_numSegments t = word_of_nat (length (ti_segmentOwners t))"
    and "0 < length (ti_segmentOwners t)" and "length (ti_segmentOwners t) < 2 ^ 31"
  shows "updateFromTopology t ch = ch\<lparr>ch_numSegments := int (length (ti_segmentOwners t)),
     ch_numOwners := int (length (ti_segmentOwners t ! 0)),
     ch_segmentOwners := map (map (\<lambda>i. si_hashId (ti_servers t ! unat i))) (ti_segmentOwners t)\<rparr>"
proof -
  have "ti_numSegments t > 0" using assms by (simp add: word_of_length_eq_0 word_neq_0_conv [symmetric])
  moreover have "sint (ti_numSegments t) = int (length (ti_segmentOwners t))"
    using assms by (simp add: sint_length)
  ultimately show ?thesis
    using assms convertSegments_Some [OF assms(1)]
    by (auto simp: updateFromTopology_def hasHashTopology_def Let_def)
qed

lemma find_distinct:
  "distinct (map f xs) \<Longrightarrow> x \<in> set xs \<Longrightarrow> List.find (\<lambda>y. f y = f x) xs = Some x"
  by (induction xs) (auto simp: image_iff)

lemma findServerByHashId_member:
  "distinct (map si_hashId (ti_servers t)) \<Longrightarrow> x \<in> set (ti_servers t) \<Longrightarrow>
    findServerByHashId (si_hashId x) t = Some x"
  by (simp add: findServerByHashId_def find_distinct)

lemma distinct_hashIds_serverAt:
  "length as \<le> 2 ^ 32 \<Longrightarrow> distinct (map si_hashId (map (serverAt as) [0..<length as]))"
  by (auto simp: distinct_map serverAt_def inj_on_def word_of_nat_eq_iff take_bit_nat_eq_self)

lemma map_filter_Some: "List.map_filter (\<lambda>x. Some (f x)) xs = map f xs"
  by (induction xs) (auto simp: List.map_filter_simps)

lemma map_filter_cong: "(\<And>x. x \<in> set xs \<Longrightarrow> f x = g x) \<Longrightarrow> List.map_filter f xs = List.map_filter g xs"
  by (induction xs) (auto simp: List.map_filter_simps split: option.splits)

lemma find_in_set: "List.find P xs = Some y \<Longrightarrow> y \<in> set xs \<and> P y"
  by (auto simp: find_Some_iff)

lemma getPrimaryOwner_hd:
  assumes "getPrimaryOwner key t ch = Some s"
  shows "\<exists>rest. getOwners key t ch = s # rest"
  using assms
  by (auto simp: getPrimaryOwner_def getOwners_def Let_def neq_Nil_conv List.map_filter_simps split: if_splits)

lemma getOwners_servers: "set (getOwners key t ch) \<subseteq> set (ti_servers t)"
  by (auto simp: getOwners_def Let_def List.map_filter_def findServerByHashId_def dest: find_in_set split: if_splits)

section \<open>Reading an ownership table\<close>

lemma length_encodeHashId [simp]: "length (encodeHashId v) = 4"
  by (simp add: encodeHashId_def)

lemma hashIdAt_encode:
  assumes "drop off buf = encodeHashId v @ rest"
  shows "hashIdAt buf off = v \<and> off + 4 \<le> length buf \<and> drop (off + 4) buf = rest"
proof -
  have nth: "buf ! (off + k) = encodeHashId v ! k" if "k < 4" for k
  proof -
    from assms have "off \<le> length buf" by (metis append_is_Nil_conv drop_all encodeHashId_def list.distinct(1) nat_le_linear)
    then have "buf ! (off + k) = drop off buf ! k" by simp
    with assms that show ?thesis by (simp add: nth_append)
  qed
  have "push_bit 24 (ucast (ucast (drop_bit 24 v) :: byte)) OR push_bit 16 (ucast (ucast (drop_bit 16 v) :: byte)) OR
      push_bit 8 (ucast (ucast (drop_bit 8 v) :: byte)) OR ucast (ucast v :: byte) = v" (is "?x = v")
  proof (rule bit_word_eqI)
    fix n show "bit ?x n = bit v n"
      by (cases "n < 16"; cases "n < 24") (auto simp: bit_simps dest: bit_imp_le_length)
  qed
  moreover have "length buf - off = 4 + length rest"
    using arg_cong [OF assms, of length] by (simp add: encodeHashId_def)
  moreover have "drop (off + 4) buf = drop 4 (drop off buf)" by (simp add: add.commute)
  ultimately show ?thesis
    using nth [of 0] nth [of 1] nth [of 2] nth [of 3] assms
    by (auto simp: hashIdAt_def encodeHashId_def)
qed

lemma readOwners_encode:
  assumes "drop off buf = concat (map encodeHashId ids) @ rest"
    and "seg < length (ch_segmentOwners ch)"
    and "ch_segmentOwners ch ! seg = pre @ replicate (length ids) 0"
  shows "\<exists>off'. readOwners buf seg (length pre) (length ids) off ch =
      (Ok off', ch\<lparr>ch_segmentOwners := (ch_segmentOwners ch)[seg := pre @ ids]\<rparr>) \<and> drop off' buf = rest"
  using assms
proof (induction ids arbitrary: off ch pre)
  case Nil
  then show ?case by (auto simp: ret_def)
next
  case (Cons v ids)
  then have d: "drop off buf = encodeHashId v @ concat (map encodeHashId ids) @ rest" by simp
  let ?ch = "ch\<lparr>ch_segmentOwners := (ch_segmentOwners ch)[seg := (ch_segmentOwners ch ! seg)[length pre := v]]\<rparr>"
  from hashIdAt_encode [OF d] Cons.prems Cons.IH [of "off + 4" ?ch "pre @ [v]"] show ?case
    by (auto simp: bindM_def modifyH_def list_update_append)
qed

lemma readSegments_encode:
  assumes "drop off buf = concat (map (\<lambda>ids. concat (map encodeHashId ids)) table) @ rest"
    and "\<forall>ids \<in> set table. length ids = k"
    and "ch_segmentOwners ch = pre @ replicate (length table) []"
  shows "\<exists>off'. readSegments buf k (length pre) (length table) off ch =
      (Ok off', ch\<lparr>ch_segmentOwners := pre @ table\<rparr>) \<and> drop off' buf = rest"
  using assms
proof (induction table arbitrary: off ch pre)
  case Nil
  then show ?case by (auto simp: ret_def)
next
  case (Cons ids table)
  let ?ch = "ch\<lparr>ch_segmentOwners := (ch_segmentOwners ch)[length pre := replicate k 0]\<rparr>"
  from Cons.prems have "drop off buf = concat (map encodeHashId ids) @
      concat (map (\<lambda>ids. concat (map encodeHashId ids)) table) @ rest" and k: "length ids = k"
    and "length pre < length (ch_segmentOwners ?ch)"
    and "ch_segmentOwners ?ch ! length pre = [] @ replicate (length ids) 0" by simp_all
  from readOwners_encode [OF this(1,3,4)] Cons.prems(3) obtain off1 where o1:
    "readOwners buf (length pre) 0 k off ?ch =
      (Ok off1, ch\<lparr>ch_segmentOwners := (pre @ [ids]) @ replicate (length table) []\<rparr>)"
    "drop off1 buf = concat (map (\<lambda>ids. concat (map encodeHashId ids)) table) @ rest"
    by (auto simp: k list_update_append)
  from Cons.IH [OF o1(2), of "ch\<lparr>ch_segmentOwners := (pre @ [ids]) @ replicate (length table) []\<rparr>" "pre @ [ids]"]
    Cons.prems(2) o1(1) show ?case
    by (auto simp: bindM_def modifyH_def)
qed

section \<open>Owners of a key after an update\<close>

definition routable :: "Update \<Rightarrow> bool" where
  "routable u \<longleftrightarrow> valid_update u \<and> distinct (up_addresses u) \<and> up_owners u \<noteq> [] \<and>
     length (up_owners u) < 2 ^ 31 \<and> (\<forall>os \<in> set (up_owners u). \<forall>i \<in> set os. unat i < length (up_addresses u))"

definition wireSegment :: "Update \<Rightarrow> byteArray \<Rightarrow> nat" where
  "wireSegment u key = nat (keyHash key * int (length (up_owners u)) div 2 ^ 31)"

lemma topologyOf_hash [simp]:
  "ti_servers (topologyOf ci u t) = serversOf (up_addresses u)"
  "ti_segmentOwners (topologyOf HASH_DISTRIBUTION_AWARE u t) = up_owners u"
  "ti_numSegments (topologyOf HASH_DISTRIBUTION_AWARE u t) = word_of_nat (length (up_owners u))"
  by (simp_all add: topologyOf_def Let_def)

lemma routable_table:
  assumes "routable u"
  shows "updateFromTopology (topologyOf HASH_DISTRIBUTION_AWARE u t) ch =
    ch\<lparr>ch_numSegments := int (length (up_owners u)), ch_numOwners := int (length (up_owners u ! 0)),
       ch_segmentOwners := map (map (\<lambda>i. si_hashId (serverAt (up_addresses u) (unat i)))) (up_owners u)\<rparr>"
proof -
  from assms have s: "serversOf (up_addresses u) = map (serverAt (up_addresses u)) [0..<length (up_addresses u)]"
    by (simp add: routable_def serversOf_distinct)
  have "map (map (\<lambda>i. si_hashId (serversOf (up_addresses u) ! unat i))) (up_owners u) =
      map (map (\<lambda>i. si_hashId (serverAt (up_addresses u) (unat i)))) (up_owners u)"
    using assms by (auto simp: s routable_def)
  with assms updateFromTopology_eq [of "topologyOf HASH_DISTRIBUTION_AWARE u t" ch] show ?thesis
    by (simp add: routable_def s)
qed

lemma routable_owners:
  fixes t :: TopologyInfo and ch :: ConsistentHash
  assumes r: "routable u"
  defines "t' \<equiv> topologyOf HASH_DISTRIBUTION_AWARE u t"
  defines "ch' \<equiv> updateFromTopology t' ch"
  shows "wireSegment u key < length (up_owners u) \<and>
    getOwners key t' ch' = map (\<lambda>i. serverAt (up_addresses u) (unat i)) (up_owners u ! wireSegment u key) \<and>
    getPrimaryOwner key t' ch' = (case up_owners u ! wireSegment u key of [] \<Rightarrow> None
      | i # _ \<Rightarrow> Some (serverAt (up_addresses u) (unat i)))"
proof -
  note ch' = routable_table [OF r, of t ch, folded t'_def ch'_def]
  let ?seg = "wireSegment u key" and ?at = "serverAt (up_addresses u)"
  from r have wf: "wf_hash ch'" and ne: "ch_segmentOwners ch' \<noteq> []" and has: "ch_hasHashTopology ch'"
    by (simp_all add: ch' wf_hash_def routable_def ch_hasHashTopology_def)
  from getSegment_eq [OF wf ne, of key] getSegment_range [OF wf ne, of key]
  have g: "getSegment key ch' = int ?seg" and lt: "?seg < length (up_owners u)"
    by (simp_all add: wireSegment_def ch' nat_less_iff)
  have len: "length (ch_segmentOwners ch') = length (up_owners u)" by (simp add: ch')
  have row: "ch_segmentOwners ch' ! ?seg = map (\<lambda>i. si_hashId (?at (unat i))) (up_owners u ! ?seg)"
    using lt by (simp add: ch')
  have dist: "distinct (map si_hashId (ti_servers t'))"
    using r distinct_hashIds_serverAt [of "up_addresses u"]
    by (simp add: t'_def serversOf_distinct routable_def valid_update_def)
  have found: "findServerByHashId (si_hashId (?at (unat i))) t' = Some (?at (unat i))"
    if "i \<in> set (up_owners u ! ?seg)" for i
    using that r nth_mem [OF lt]
    by (intro findServerByHashId_member [OF dist]) (auto simp: t'_def serversOf_distinct routable_def)
  have "List.map_filter (\<lambda>hashId. findServerByHashId hashId t') (ch_segmentOwners ch' ! ?seg) =
      List.map_filter (\<lambda>i. Some (?at (unat i))) (up_owners u ! ?seg)"
    unfolding row List.map_filter_def filter_map map_map o_def using found
    by (auto intro!: map_cong filter_cong)
  then have "getOwners key t' ch' = map (\<lambda>i. ?at (unat i)) (up_owners u ! ?seg)"
    using lt by (simp add: getOwners_def has g map_filter_Some len)
  moreover have "getPrimaryOwner key t' ch' = (case up_owners u ! ?seg of [] \<Rightarrow> None | i # _ \<Rightarrow> Some (?at (unat i)))"
    using lt found row by (auto simp: getPrimaryOwner_def has g len split: list.splits)
  ultimately show ?thesis using lt by simp
qed

section \<open>Properties\<close>

text \<open>The formula of the header's comment and of the integration test, on the same hash.\<close>

definition headerSegment :: "int \<Rightarrow> byteArray \<Rightarrow> int" where
  "headerSegment numSegments key = keyHash key mod numSegments"

text \<open>
  C36: A key's segment is its normalised hash scaled by the number of segments, always a valid index of the table and growing with
  the hash. This is not what ConsistentHash.h documents and what the helper of HashAwareRoutingIntegrationTest computes, the
  hash modulo the number of segments: with 2^k segments the two agree exactly on the keys whose hash has the same k upper and lower bits
  (the witness is a key on which they differ, with the default of 256). It is what the comment in ConsistentHash.cpp asks for, the
  segment of the Java client, when the number of segments divides 2^31.
\<close>

theorem segment_of_key:
  assumes wf: "wf_hash ch" and ne: "ch_segmentOwners ch \<noteq> []"
  shows "getSegment key ch = keyHash key * ch_numSegments ch div 2 ^ 31 \<and>
    0 \<le> getSegment key ch \<and> getSegment key ch < int (length (ch_segmentOwners ch)) \<and>
    (keyHash key \<le> keyHash key' \<longrightarrow> getSegment key ch \<le> getSegment key' ch) \<and>
    (ch_numSegments ch dvd 2 ^ 31 \<longrightarrow> getSegment key ch = javaSegment (ch_numSegments ch) key) \<and>
    (ch_numSegments ch = 2 ^ k \<and> k \<le> 31 \<longrightarrow>
      (getSegment key ch = headerSegment (ch_numSegments ch) key \<longleftrightarrow> keyHash key div 2 ^ (31 - k) = keyHash key mod 2 ^ k))"
proof (intro conjI impI)
  from assms have n: "0 < ch_numSegments ch" by (simp add: wf_hash_def)
  show "getSegment key ch = keyHash key * ch_numSegments ch div 2 ^ 31" by (rule getSegment_eq [OF assms])
  show "getSegment key ch = javaSegment (ch_numSegments ch) key" if "ch_numSegments ch dvd 2 ^ 31"
    using scale_eq_div [OF _ n] getSegment_eq [OF assms] that by (simp add: javaSegment_def)
  show "0 \<le> getSegment key ch" "getSegment key ch < int (length (ch_segmentOwners ch))"
    using getSegment_range [OF assms] getSegment_eq [OF assms] by simp_all
  show "getSegment key ch \<le> getSegment key' ch" if "keyHash key \<le> keyHash key'"
    unfolding getSegment_eq [OF assms] using that n by (intro zdiv_mono1) simp_all
  assume k: "ch_numSegments ch = 2 ^ k \<and> k \<le> 31"
  have "keyHash key * 2 ^ k div 2 ^ 31 = keyHash key div 2 ^ (31 - k)"
  proof -
    have "(2 :: int) ^ 31 = 2 ^ (31 - k) * 2 ^ k" using k by (simp flip: power_add)
    moreover have "keyHash key * 2 ^ k div (2 ^ (31 - k) * 2 ^ k) = keyHash key div 2 ^ (31 - k)" by simp
    ultimately show ?thesis by (simp only:)
  qed
  with k getSegment_eq [OF assms, of key]
  show "getSegment key ch = headerSegment (ch_numSegments ch) key \<longleftrightarrow> keyHash key div 2 ^ (31 - k) = keyHash key mod 2 ^ k"
    by (simp add: headerSegment_def)
qed


theorem segment_of_key_witness:
  "let ch = \<lparr>ch_numSegments = 256, ch_numOwners = 1, ch_segmentOwners = replicate 256 [0]\<rparr>
   in getSegment [97] ch = javaSegment 256 [97] \<and> getSegment [97] ch \<noteq> headerSegment 256 [97]"
proof -
  let ?ch = "\<lparr>ch_numSegments = 256, ch_numOwners = 1, ch_segmentOwners = replicate 256 [0]\<rparr> :: ConsistentHash"
  have "wf_hash ?ch" and "ch_segmentOwners ?ch \<noteq> []" by (simp_all add: wf_hash_def)
  from segment_of_key [OF this, of "[97]" "[97]" 8]
  have "getSegment [97] ?ch = javaSegment 256 [97]"
    "getSegment [97] ?ch = headerSegment 256 [97] \<longleftrightarrow> keyHash [97] div 2 ^ 23 = keyHash [97] mod 256" by simp_all (auto simp only:)
  moreover have "keyHash [97] div 2 ^ 23 \<noteq> keyHash [97] mod 256" by code_simp
  ultimately show ?thesis by (simp add: Let_def)
qed

text \<open>
  For other numbers of segments the comment's equivalence with the Java client fails: with 100
  segments the key "AR/" is looked up in segment 71, while the division by the rounded-up segment
  size puts it into segment 70.
\<close>

theorem segment_differs_from_java:
  "getSegment (bytes_of_string ''AR/'') \<lparr>ch_numSegments = 100, ch_numOwners = 1,
     ch_segmentOwners = replicate 100 [0]\<rparr> = 71 \<and>
   javaSegment 100 (bytes_of_string ''AR/'') = 70"
  by code_simp

text \<open>
  C13: Routing follows the server's table. After a hash-distribution-aware update with distinct
  addresses and valid owner indices is parsed and taken over, whatever the client held before, the
  owners of every key are the servers the update lists for the key's segment, in that order, and the
  primary owner is the first of them.
\<close>

theorem key_owners_follow_update:
  assumes "routable u" and "holds c (encodeUpdate HASH_DISTRIBUTION_AWARE u @ rest)"
  shows "\<exists>s' c'. parseTopologyInfo HASH_DISTRIBUTION_AWARE (s, c) = (Ok (), s', c') \<and>
    (let t = ps_topology s'; ch' = updateFromTopology t ch; seg = wireSegment u key in
       seg < length (up_owners u) \<and>
       map address (getOwners key t ch') = map (\<lambda>i. up_addresses u ! unat i) (up_owners u ! seg) \<and>
       map_option address (getPrimaryOwner key t ch') =
         (case up_owners u ! seg of [] \<Rightarrow> None | i # _ \<Rightarrow> Some (up_addresses u ! unat i)))"
proof -
  from assms(1) have "valid_update u" by (simp add: routable_def)
  from parseTopologyInfo_settles [OF assms(2) this, of s] obtain s' c' where
    "parseTopologyInfo HASH_DISTRIBUTION_AWARE (s, c) = (Ok (), s', c')"
    "ps_topology s' = topologyOf HASH_DISTRIBUTION_AWARE u (ps_topology s)"
    by (auto simp: settles_def)
  with routable_owners [OF assms(1), of key "ps_topology s" ch] show ?thesis
    by (auto simp: Let_def o_def split: list.splits)
qed

theorem key_owners_follow_update_witness:
  "let u = \<lparr>up_topologyId = 1, up_addresses = [\<lparr>sa_host = ''a'', sa_port = 1\<rparr>, \<lparr>sa_host = ''b'', sa_port = 2\<rparr>],
        up_hashVersion = 3, up_owners = [[1, 0]]\<rparr>;
       c = (newConnection ''h'' 1 [RecvData (encodeUpdate HASH_DISTRIBUTION_AWARE u)] [])\<lparr>cn_connected := True\<rparr>
   in \<exists>s' c'. parseTopologyInfo HASH_DISTRIBUTION_AWARE
        (\<lparr>ps_topology = newTopologyInfo, ps_hashFunctionVersion = 0, ps_numSegments = 0, ps_segmentOwners = []\<rparr>, c) =
        (Ok (), s', c') \<and>
      map address (getOwners [97] (ps_topology s') (updateFromTopology (ps_topology s') newConsistentHash)) =
        [\<lparr>sa_host = ''b'', sa_port = 2\<rparr>, \<lparr>sa_host = ''a'', sa_port = 1\<rparr>]"
proof -
  let ?u = "\<lparr>up_topologyId = 1, up_addresses = [\<lparr>sa_host = ''a'', sa_port = 1\<rparr>, \<lparr>sa_host = ''b'', sa_port = 2\<rparr>],
        up_hashVersion = 3, up_owners = [[1, 0]]\<rparr> :: Update"
  let ?c = "(newConnection ''h'' 1 [RecvData (encodeUpdate HASH_DISTRIBUTION_AWARE ?u)] [])\<lparr>cn_connected := True\<rparr>"
  have r: "routable ?u" by (simp add: routable_def valid_update_def)
  have h: "holds ?c (encodeUpdate HASH_DISTRIBUTION_AWARE ?u @ [])"
    by (simp add: holds_def avail_def newConnection_def)
  have seg: "wireSegment ?u [97] < 1 \<Longrightarrow> wireSegment ?u [97] = 0" by simp
  from key_owners_follow_update [OF r h, of "\<lparr>ps_topology = newTopologyInfo, ps_hashFunctionVersion = 0,
      ps_numSegments = 0, ps_segmentOwners = []\<rparr>" newConsistentHash "[97]"] seg show ?thesis
    unfolding Let_def by (auto simp del: One_nat_def)
qed

text \<open>
  When an update repeats an address, the repeated entry is dropped from the server list but the
  owner indices still count it: a segment owned by the second entry (the address a, again) is routed
  to b, and one owned by the third entry (b) makes the client drop the whole ownership table.
\<close>

theorem repeated_address_shifts_owners:
  "let a = \<lparr>sa_host = ''a'', sa_port = 1\<rparr>; b = \<lparr>sa_host = ''b'', sa_port = 1\<rparr>;
       topo = (\<lambda>owner. topologyOf HASH_DISTRIBUTION_AWARE \<lparr>up_topologyId = 1, up_addresses = [a, a, b],
         up_hashVersion = 3, up_owners = [[owner]]\<rparr> newTopologyInfo)
   in map address (getOwners key (topo 1) (updateFromTopology (topo 1) newConsistentHash)) = [b] \<and>
      \<not> ch_hasHashTopology (updateFromTopology (topo 2) newConsistentHash)"
proof -
  let ?ch = "\<lparr>ch_numSegments = 1, ch_numOwners = 1, ch_segmentOwners = [[2]]\<rparr> :: ConsistentHash"
  have "getSegment key ?ch = 0"
    using getSegment_range [of ?ch key] by (simp add: wf_hash_def)
  then show ?thesis
    by (simp add: Let_def topologyOf_def newTopologyInfo_def serversOf_def serverAt_def upt_rec address_def
        updateFromTopology_def hasHashTopology_def newConsistentHash_def clear_def ch_hasHashTopology_def
        getOwners_def List.map_filter_simps findServerByHashId_def)
qed

text \<open>
  parseHashTopology reads back an ownership table: with between 1 and 255 owners per segment and
  fewer than 2^31 segments it delivers the table and stops behind it. A table announced with no
  segments (or 2^31 and more), with no owners, or cut short is refused with an exception.
\<close>

theorem owner_table_parsed:
  assumes "table \<noteq> []" and "length table < 2 ^ 31" and "\<forall>ids \<in> set table. length ids = k" and "k < 256"
    and "buf = pre @ encodeOwnerTable k table @ rest"
  shows "if k = 0
    then fst (parseHashTopology buf (length pre) ch) = Throw (RuntimeError ''ConsistentHash: invalid number of owners'')
    else \<exists>off'. parseHashTopology buf (length pre) ch =
      (Ok off', \<lparr>ch_numSegments = int (length table), ch_numOwners = int k, ch_segmentOwners = table\<rparr>) \<and>
      drop off' buf = rest"
proof -
  let ?n = "word_of_nat (length table) :: VInt" and ?off = "length pre + length (writeVInt [] (word_of_nat (length table)))"
  let ?rows = "concat (map (\<lambda>ids. concat (map encodeHashId ids)) table) @ rest"
  have buf: "buf = pre @ writeVInt [] ?n @ [word_of_nat k] @ ?rows"
    by (simp add: assms(5) encodeOwnerTable_def)
  then have r: "readVInt buf (length pre) = Ok (?n, ?off)" by (simp only: readVInt_writeVInt)
  from assms(2) have n: "sint ?n = int (length table)" by (rule sint_length)
  have "drop ?off buf = word_of_nat k # ?rows" by (simp add: buf)
  then have off: "\<not> length buf \<le> ?off" "buf ! ?off = word_of_nat k" "drop (Suc ?off) buf = ?rows"
    by (simp_all add: buf nth_append)
  from assms(4) have k: "unat (word_of_nat k :: byte) = k" by (simp add: unsigned_of_nat take_bit_nat_eq_self)
  note run = parseHashTopology_def Let_def r n off k modifyH_def bindM_def liftO_def throw_def
  show ?thesis
  proof (cases "k = 0")
    case True
    with assms(1) show ?thesis by (simp add: run)
  next
    case False
    let ?ch = "\<lparr>ch_numSegments = int (length table), ch_numOwners = int k, ch_segmentOwners = replicate (length table) []\<rparr>"
    from readSegments_encode [OF off(3) assms(3), of ?ch "[]"] assms(1) False show ?thesis
      by (cases ch) (auto simp: run)
  qed
qed

theorem owner_table_parsed_witness:
  "\<exists>off'. parseHashTopology ([7] @ encodeOwnerTable 1 [[5], [0x80000001]] @ [9]) 1 newConsistentHash =
      (Ok off', \<lparr>ch_numSegments = 2, ch_numOwners = 1, ch_segmentOwners = [[5], [0x80000001]]\<rparr>) \<and>
    drop off' ([7] @ encodeOwnerTable 1 [[5], [0x80000001]] @ [9]) = [9]"
  using owner_table_parsed [of "[[5], [0x80000001]]" 1 "[7] @ encodeOwnerTable 1 [[5], [0x80000001]] @ [9]" "[7]" "[9]"
      newConsistentHash]
  by simp

end
