(* ===== verification/RemoteCache.thy ===== *)
theory RemoteCache
  imports CacheOperations ConsistentHash
begin

text \<open>
  include/hotrod/RemoteCache.h, include/hotrod/RetryView.h and src/operations/RemoteCache.cpp: the
  client. Connections are shared between the cache, its pool and the futures handed out, so they
  live at addresses of an explicit store; \<open>rc_held\<close> lists the references held by futures. An object that
  loses its last reference is destroyed: its destructor closes the connection, and nobody is left to
  see the effect. The network a connection attempt meets is a function of the server's address and of
  the number of the attempt. The mutex stateMutex\_ is not modelled: the operations that take it run
  without interruption here.
\<close>

section \<open>State\<close>

record RemoteCache =
  rc_host :: string
  rc_port :: "16 word"
  rc_cacheName :: string
  rc_connection :: nat
  rc_protocolVersion :: byte
  rc_clientIntelligence :: ClientIntelligence
  rc_proxyToNonOwner :: bool
  rc_auth :: Authentication
  rc_topology :: TopologyInfo
  rc_consistentHash :: ConsistentHash
  rc_pool :: "(string \<times> nat) list"
  rc_store :: "nat \<rightharpoonup> MultiplexedConnection"
  rc_fresh :: nat
  rc_held :: "nat list"
  rc_attempts :: nat

type_synonym 'a client = "(RemoteCache, exn, 'a) comp"

record Environment =
  en_crypto :: Crypto
  en_network :: "string \<Rightarrow> 16 word \<Rightarrow> nat \<Rightarrow> Network"

definition newRemoteCache :: "string \<Rightarrow> 16 word \<Rightarrow> string \<Rightarrow> RemoteCache" where
  "newRemoteCache host port cacheName =
     \<lparr>rc_host = host, rc_port = port, rc_cacheName = cacheName, rc_connection = 0,
      rc_protocolVersion = VERSION_41, rc_clientIntelligence = BASIC, rc_proxyToNonOwner = True,
      rc_auth = defaultAuthentication, rc_topology = newTopologyInfo, rc_consistentHash = newConsistentHash,
      rc_pool = [], rc_store = [0 \<mapsto> newMultiplexedConnection host port True], rc_fresh = 1, rc_held = [],
      rc_attempts = 0\<rparr>"

text \<open>Calls on the connection at an address; a dangling address is undefined.\<close>

definition onObject :: "nat \<Rightarrow> 'a mux \<Rightarrow> 'a client" where
  "onObject a f = (\<lambda>s. case rc_store s a of
      None \<Rightarrow> (UB, s)
    | Some m \<Rightarrow> (case f m of (r, m) \<Rightarrow> (r, s\<lparr>rc_store := (rc_store s)(a \<mapsto> m)\<rparr>)))"

definition modifyC :: "(RemoteCache \<Rightarrow> RemoteCache) \<Rightarrow> unit client" where
  "modifyC f = (\<lambda>s. (Ok (), f s))"

definition referenced :: "RemoteCache \<Rightarrow> nat \<Rightarrow> bool" where
  "referenced s a \<longleftrightarrow> a = rc_connection s \<or> a \<in> snd ` set (rc_pool s) \<or> a \<in> set (rc_held s)"

text \<open>A shared\_ptr to \<open>a\<close> is gone.\<close>

definition release :: "RemoteCache \<Rightarrow> nat \<Rightarrow> RemoteCache" where
  "release s a = (if referenced s a then s else s\<lparr>rc_store := (rc_store s)(a := None)\<rparr>)"

section \<open>Configuration\<close>

definition setCacheName :: "string \<Rightarrow> RemoteCache \<Rightarrow> RemoteCache" where
  "setCacheName name s = s\<lparr>rc_cacheName := name\<rparr>"

definition cacheSetProtocolVersion :: "byte \<Rightarrow> RemoteCache \<Rightarrow> RemoteCache" where
  "cacheSetProtocolVersion version s = s\<lparr>rc_protocolVersion := version\<rparr>"

definition cacheSetClientIntelligence :: "ClientIntelligence \<Rightarrow> RemoteCache \<Rightarrow> RemoteCache" where
  "cacheSetClientIntelligence intelligence s = s\<lparr>rc_clientIntelligence := intelligence\<rparr>"

definition cacheSetAuthentication ::
  "string \<Rightarrow> string \<Rightarrow> string \<Rightarrow> string \<Rightarrow> string \<Rightarrow> RemoteCache \<Rightarrow> RemoteCache" where
  "cacheSetAuthentication username password realm serverName mechanism s =
     s\<lparr>rc_auth := (rc_auth s)\<lparr>au_enabled := True, au_username := username, au_password := password,
       au_realm := realm, au_serverName := serverName, au_mechanism := mechanism\<rparr>\<rparr>"

definition setProxyToNonOwner :: "bool \<Rightarrow> RemoteCache \<Rightarrow> RemoteCache" where
  "setProxyToNonOwner proxy s = s\<lparr>rc_proxyToNonOwner := proxy\<rparr>"

section \<open>Topology updates\<close>

definition poolKey :: "string \<Rightarrow> 16 word \<Rightarrow> string" where
  "poolKey host port = host @ '':'' @ to_string (unat port)"

definition cleanupStaleConnections :: "RemoteCache \<Rightarrow> RemoteCache" where
  "cleanupStaleConnections s =
     (let currentServers = map (\<lambda>server. poolKey (si_host server) (si_port server)) (ti_servers (rc_topology s));
          stale = filter (\<lambda>e. fst e \<notin> set currentServers) (rc_pool s)
      in foldl release (s\<lparr>rc_pool := filter (\<lambda>e. fst e \<in> set currentServers) (rc_pool s)\<rparr>) (map snd stale))"

text \<open>
  Runs on the read thread of the connection at \<open>self\<close>. When the last reference to that connection goes
  away here, its destructor joins the thread it runs on: the exception leaves the destructor and the
  program ends.
\<close>

definition handleTopologyUpdate :: "nat \<Rightarrow> TopologyInfo \<Rightarrow> string \<Rightarrow> unit client" where
  "handleTopologyUpdate self topo cacheName = (\<lambda>s.
     let s = s\<lparr>rc_topology := topo\<rparr>;
         s = (if rc_clientIntelligence s = HASH_DISTRIBUTION_AWARE
              then s\<lparr>rc_consistentHash := updateFromTopology topo (rc_consistentHash s)\<rparr> else s);
         s = cleanupStaleConnections s
     in if rc_store s self = None then (UB, s) else (Ok (), s))"

fun deliver :: "nat \<Rightarrow> (TopologyInfo \<times> string) list \<Rightarrow> unit client" where
  "deliver self [] = ret ()"
| "deliver self ((topo, cacheName) # rest) =
     bindM (handleTopologyUpdate self topo cacheName) (\<lambda>_. deliver self rest)"

text \<open>A computation on a connection's read thread, with the topology callbacks it makes.\<close>

definition onReadThread :: "nat \<Rightarrow> 'a mux \<Rightarrow> 'a client" where
  "onReadThread a f = (\<lambda>s. case rc_store s a of
      None \<Rightarrow> (UB, s)
    | Some m \<Rightarrow> (case f m of (r, m') \<Rightarrow>
        bindM (deliver a (drop (length (mx_callbacks m)) (mx_callbacks m'))) (\<lambda>_ s. (r, s))
          (s\<lparr>rc_store := (rc_store s)(a \<mapsto> m')\<rparr>)))"

definition clientRead :: "nat \<Rightarrow> bool client" where
  "clientRead a = onReadThread a readIteration"

section \<open>Connecting\<close>

definition connectObject :: "Environment \<Rightarrow> nat \<Rightarrow> unit client" where
  "connectObject env a = (\<lambda>s.
     bindM (onObject a (setProtocolVersion (rc_protocolVersion s))) (\<lambda>_.
     bindM (onObject a (setClientIntelligence (rc_clientIntelligence s))) (\<lambda>_.
     bindM (onObject a (setAuthentication (rc_auth s))) (\<lambda>_.
     bindM (modifyC (\<lambda>s. s\<lparr>rc_attempts := Suc (rc_attempts s)\<rparr>)) (\<lambda>_.
     onObject a (\<lambda>m. muxConnect (en_crypto env) (en_network env (mx_host m) (mx_port m) (rc_attempts s)) m))))) s)"

definition cacheConnect :: "Environment \<Rightarrow> unit client" where
  "cacheConnect env = (\<lambda>s. connectObject env (rc_connection s) s)"

definition cacheDisconnect :: "bool \<Rightarrow> unit client" where
  "cacheDisconnect inIteration = (\<lambda>s. onReadThread (rc_connection s) (muxClose inIteration) s)"

definition isConnected :: "RemoteCache \<Rightarrow> bool" where
  "isConnected s = (case rc_store s (rc_connection s) of None \<Rightarrow> False | Some m \<Rightarrow> mx_connected m)"

definition destroyRemoteCache :: "bool \<Rightarrow> unit client" where
  "destroyRemoteCache inIteration = (\<lambda>s. if isConnected s then cacheDisconnect inIteration s else ret () s)"

definition createConnection :: "Environment \<Rightarrow> ServerInfo \<Rightarrow> nat client" where
  "createConnection env server = (\<lambda>s.
     let a = rc_fresh s
     in bindM (modifyC (\<lambda>s. s\<lparr>rc_fresh := Suc a,
            rc_store := (rc_store s)(a \<mapsto> newMultiplexedConnection (si_host server) (si_port server) True)\<rparr>)) (\<lambda>_.
        bindM (catchM (connectObject env a) (\<lambda>e. bindM (modifyC (\<lambda>s. release s a)) (\<lambda>_. throw e))) (\<lambda>_.
        bindM (modifyC (\<lambda>s. s\<lparr>rc_pool := (poolKey (si_host server) (si_port server), a) #
            eraseEntry (poolKey (si_host server) (si_port server)) (rc_pool s)\<rparr>)) (\<lambda>_.
        ret a))) s)"

definition getConnectionForServer :: "Environment \<Rightarrow> ServerInfo \<Rightarrow> nat client" where
  "getConnectionForServer env server = (\<lambda>s.
     let key = poolKey (si_host server) (si_port server)
     in case map_of (rc_pool s) key of
          Some a \<Rightarrow>
            (case rc_store s a of
               None \<Rightarrow> (UB, s)
             | Some m \<Rightarrow>
                 if mx_connected m then ret a s
                 else createConnection env server (release (s\<lparr>rc_pool := eraseEntry key (rc_pool s)\<rparr>) a))
        | None \<Rightarrow> createConnection env server s)"

section \<open>Selecting a server\<close>

text \<open>The loop over the candidates: the connection to the first that can be reached, and the nodes tried.\<close>

fun tryCandidates :: "Environment \<Rightarrow> ServerAddress list \<Rightarrow> ServerAddress list \<Rightarrow> (nat option \<times> ServerAddress list) client" where
  "tryCandidates env [] tried = ret (None, tried)"
| "tryCandidates env (cand # cands) tried =
     (let tried = tried @ [cand]
      in catchM (bindM (getConnectionForServer env \<lparr>si_host = sa_host cand, si_port = sa_port cand, si_hashId = 0\<rparr>) (\<lambda>a.
           ret (Some a, tried))) (\<lambda>e. tryCandidates env cands tried))"

definition selectServerForKey :: "Environment \<Rightarrow> byteArray \<Rightarrow> RetryContext \<Rightarrow> (nat \<times> ServerAddress list) client" where
  "selectServerForKey env key ctx = (\<lambda>s.
     if rc_clientIntelligence s = HASH_DISTRIBUTION_AWARE \<and> ch_hasHashTopology (rc_consistentHash s)
     then let owners = getOwners key (rc_topology s) (rc_consistentHash s)
          in if owners \<noteq> []
             then let ownerAddrs = map address owners;
                      allAddrs = map address (ti_servers (rc_topology s));
                      candidates = orderKeyCandidates ownerAddrs allAddrs (excludeNodes ctx) (rc_proxyToNonOwner s)
                  in bindM (tryCandidates env candidates []) (\<lambda>(conn, tried).
                       case conn of
                         Some a \<Rightarrow> ret (a, tried)
                       | None \<Rightarrow>
                           let ownersExhausted = list_all (\<lambda>owner. owner \<in> set tried \<or> owner \<in> set (excludeNodes ctx)) ownerAddrs
                           in throw (hotrod_exn ''No servers available in topology'' BeforeSend None
                                (unionNodes (excludeNodes ctx) tried) ownersExhausted)) s
             else ret (rc_connection s, []) s
     else ret (rc_connection s, []) s)"

definition selectAnyServer :: "Environment \<Rightarrow> RetryContext \<Rightarrow> (nat \<times> ServerAddress list) client" where
  "selectAnyServer env ctx = (\<lambda>s.
     let allAddrs = map address (ti_servers (rc_topology s))
     in if allAddrs = [] then ret (rc_connection s, []) s
        else let candidates = orderKeyCandidates [] allAddrs (excludeNodes ctx) True
             in bindM (tryCandidates env candidates []) (\<lambda>(conn, tried).
                  case conn of
                    Some a \<Rightarrow> ret (a, tried)
                  | None \<Rightarrow> throw (hotrod_exn ''No servers available in topology'' BeforeSend None
                      (unionNodes (excludeNodes ctx) tried) False)) s)"

section \<open>Operations\<close>

text \<open>
  A future: the connection it keeps alive, the promise it waits for, and what get makes of the
  response (the deferred std::async of the source). get blocks while the promise is unset.
\<close>

record 'r Future =
  fu_conn :: nat
  fu_ticket :: nat
  fu_result :: "Response \<Rightarrow> (exn, 'r) outcome"

definition futureGet :: "'r Future \<Rightarrow> 'r client" where
  "futureGet f = (\<lambda>s. case rc_store s (fu_conn f) of
      None \<Rightarrow> (UB, s)
    | Some m \<Rightarrow> (case mx_results m (fu_ticket f) of
        None \<Rightarrow> (Block, s)
      | Some resp \<Rightarrow> (fu_result f resp, release (s\<lparr>rc_held := remove1 (fu_conn f) (rc_held s)\<rparr>) (fu_conn f))))"

definition submit :: "nat \<Rightarrow> Call \<Rightarrow> (Response \<Rightarrow> (exn, 'r) outcome) \<Rightarrow> 'r Future client" where
  "submit conn call result = bindM (onObject conn (execute call)) (\<lambda>ticket s.
     ret \<lparr>fu_conn = conn, fu_ticket = ticket, fu_result = result\<rparr> (s\<lparr>rc_held := rc_held s @ [conn]\<rparr>))"

definition previousFlag :: "bool \<Rightarrow> int32" where
  "previousFlag previousValue = (if previousValue then 1 else 0)"

definition pingImpl :: "Environment \<Rightarrow> RetryContext \<Rightarrow> unit Future client" where
  "pingImpl env ctx = bindM (selectAnyServer env ctx) (\<lambda>(conn, tried) s.
     submit conn \<lparr>cl_body = [], cl_opcode = 0x17, cl_expectedOpcode = 0x18, cl_bodyParser = pingParser,
       cl_cacheName = rc_cacheName s, cl_flags = 0\<rparr> (pingResult tried (excludeNodes ctx)) s)"

text \<open>What all operations on a key have in common: routing, sending, and the future.\<close>

definition keyed :: "Environment \<Rightarrow> byteArray \<Rightarrow> RetryContext \<Rightarrow> byteArray \<Rightarrow> byte \<Rightarrow> byte \<Rightarrow> bodyParser \<Rightarrow> int32 \<Rightarrow>
    'r transform \<Rightarrow> 'r Future client" where
  "keyed env key ctx requestBody opcode expected parser flags result =
     bindM (selectServerForKey env key ctx) (\<lambda>(conn, tried) s.
       submit conn \<lparr>cl_body = requestBody, cl_opcode = opcode, cl_expectedOpcode = expected, cl_bodyParser = parser,
         cl_cacheName = rc_cacheName s, cl_flags = flags\<rparr> (result tried (excludeNodes ctx)) s)"

definition getImpl :: "Environment \<Rightarrow> byteArray \<Rightarrow> RetryContext \<Rightarrow> byteArray option Future client" where
  "getImpl env key ctx = keyed env key ctx (keyBody key) 0x03 0x04 getParser 0 getResult"

definition getWithMetadataImpl :: "Environment \<Rightarrow> byteArray \<Rightarrow> RetryContext \<Rightarrow> EntryWithMetadata option Future client" where
  "getWithMetadataImpl env key ctx =
     keyed env key ctx (keyBody key) 0x1B 0x1C getWithMetadataParser 0 getWithMetadataResult"

definition putImpl :: "Environment \<Rightarrow> byteArray \<Rightarrow> byteArray \<Rightarrow> VLong \<Rightarrow> VLong \<Rightarrow> bool \<Rightarrow> RetryContext \<Rightarrow>
    EntryWithMetadata option Future client" where
  "putImpl env key value lifespan maxIdle previousValue ctx =
     keyed env key ctx (putBody key value lifespan maxIdle) 0x01 0x02 putParser (previousFlag previousValue) putResult"

definition removeImpl :: "Environment \<Rightarrow> byteArray \<Rightarrow> bool \<Rightarrow> RetryContext \<Rightarrow> EntryWithMetadata option Future client" where
  "removeImpl env key previousValue ctx =
     keyed env key ctx (keyBody key) 0x0B 0x0C (previousParser ''REMOVE'') (previousFlag previousValue) removeResult"

definition removeWithVersionImpl :: "Environment \<Rightarrow> byteArray \<Rightarrow> int64 \<Rightarrow> RetryContext \<Rightarrow> bool Future client" where
  "removeWithVersionImpl env key version ctx =
     keyed env key ctx (removeWithVersionBody key version) 0x0D 0x0E (previousParser ''REMOVE_WITH_VERSION'') 0 versionedResult"

definition replaceWithVersionImpl :: "Environment \<Rightarrow> byteArray \<Rightarrow> byteArray \<Rightarrow> int64 \<Rightarrow> VLong \<Rightarrow> VLong \<Rightarrow> RetryContext \<Rightarrow>
    bool Future client" where
  "replaceWithVersionImpl env key value version lifespan maxIdle ctx =
     keyed env key ctx (replaceWithVersionBody key value version lifespan maxIdle) 0x09 0x0A
       (previousParser ''REPLACE_WITH_VERSION'') 0 versionedResult"

definition putIfAbsentImpl :: "Environment \<Rightarrow> byteArray \<Rightarrow> byteArray \<Rightarrow> VLong \<Rightarrow> VLong \<Rightarrow> bool \<Rightarrow> RetryContext \<Rightarrow>
    EntryWithMetadata option Future client" where
  "putIfAbsentImpl env key value lifespan maxIdle previousValue ctx =
     keyed env key ctx (putBody key value lifespan maxIdle) 0x05 0x06 (previousParser ''PUT_IF_ABSENT'')
       (previousFlag previousValue) previousResult"

definition replaceImpl :: "Environment \<Rightarrow> byteArray \<Rightarrow> byteArray \<Rightarrow> VLong \<Rightarrow> VLong \<Rightarrow> bool \<Rightarrow> RetryContext \<Rightarrow>
    EntryWithMetadata option Future client" where
  "replaceImpl env key value lifespan maxIdle previousValue ctx =
     keyed env key ctx (putBody key value lifespan maxIdle) 0x07 0x08 (previousParser ''REPLACE'')
       (previousFlag previousValue) previousResult"

definition containsKeyImpl :: "Environment \<Rightarrow> byteArray \<Rightarrow> RetryContext \<Rightarrow> bool Future client" where
  "containsKeyImpl env key ctx = keyed env key ctx (keyBody key) 0x0F 0x10 containsKeyParser 0 containsKeyResult"

text \<open>
  The public operations pass no exclusions; a RetryView is the cache with the exclusions it was
  made with, and offers the operations under the same names.
\<close>

definition noExclusions :: RetryContext where
  "noExclusions = \<lparr>excludeNodes = []\<rparr>"

record RetryView =
  rv_ctx :: RetryContext

definition newRetryView :: "RetryContext \<Rightarrow> RetryView" where
  "newRetryView ctx = \<lparr>rv_ctx = ctx\<rparr>"

definition excluding :: "ServerAddress list \<Rightarrow> RetryView" where
  "excluding nodes = newRetryView \<lparr>excludeNodes = nodes\<rparr>"

definition excludingTried :: "HotRodClientException \<Rightarrow> RetryView" where
  "excludingTried e = newRetryView \<lparr>excludeNodes = triedNodes e\<rparr>"

definition cachePing :: "Environment \<Rightarrow> unit Future client" where
  "cachePing env = pingImpl env noExclusions"

definition cacheGet :: "Environment \<Rightarrow> byteArray \<Rightarrow> byteArray option Future client" where
  "cacheGet env key = getImpl env key noExclusions"

definition cacheGetWithMetadata :: "Environment \<Rightarrow> byteArray \<Rightarrow> EntryWithMetadata option Future client" where
  "cacheGetWithMetadata env key = getWithMetadataImpl env key noExclusions"

definition cachePut :: "Environment \<Rightarrow> byteArray \<Rightarrow> byteArray \<Rightarrow> VLong \<Rightarrow> VLong \<Rightarrow> bool \<Rightarrow> EntryWithMetadata option Future client" where
  "cachePut env key value lifespan maxIdle previousValue = putImpl env key value lifespan maxIdle previousValue noExclusions"

definition cacheRemove :: "Environment \<Rightarrow> byteArray \<Rightarrow> bool \<Rightarrow> EntryWithMetadata option Future client" where
  "cacheRemove env key previousValue = removeImpl env key previousValue noExclusions"

definition cacheRemoveWithVersion :: "Environment \<Rightarrow> byteArray \<Rightarrow> int64 \<Rightarrow> bool Future client" where
  "cacheRemoveWithVersion env key version = removeWithVersionImpl env key version noExclusions"

definition cacheReplaceWithVersion ::
  "Environment \<Rightarrow> byteArray \<Rightarrow> byteArray \<Rightarrow> int64 \<Rightarrow> VLong \<Rightarrow> VLong \<Rightarrow> bool Future client" where
  "cacheReplaceWithVersion env key value version lifespan maxIdle =
     replaceWithVersionImpl env key value version lifespan maxIdle noExclusions"

definition cachePutIfAbsent ::
  "Environment \<Rightarrow> byteArray \<Rightarrow> byteArray \<Rightarrow> VLong \<Rightarrow> VLong \<Rightarrow> bool \<Rightarrow> EntryWithMetadata option Future client" where
  "cachePutIfAbsent env key value lifespan maxIdle previousValue =
     putIfAbsentImpl env key value lifespan maxIdle previousValue noExclusions"

definition cacheReplace ::
  "Environment \<Rightarrow> byteArray \<Rightarrow> byteArray \<Rightarrow> VLong \<Rightarrow> VLong \<Rightarrow> bool \<Rightarrow> EntryWithMetadata option Future client" where
  "cacheReplace env key value lifespan maxIdle previousValue =
     replaceImpl env key value lifespan maxIdle previousValue noExclusions"

definition cacheContainsKey :: "Environment \<Rightarrow> byteArray \<Rightarrow> bool Future client" where
  "cacheContainsKey env key = containsKeyImpl env key noExclusions"

section \<open>What connections keep\<close>

text \<open>No operation changes the address a connection was made for.\<close>

definition same_place :: "MultiplexedConnection \<Rightarrow> MultiplexedConnection \<Rightarrow> bool" where
  "same_place m m' \<longleftrightarrow> mx_host m' = mx_host m \<and> mx_port m' = mx_port m"

lemma place_bind:
  assumes "same_place m (snd (f m))" and "\<And>a m'. f m = (Ok a, m') \<Longrightarrow> same_place m' (snd (g a m'))"
  shows "same_place m (snd (bindM f g m))"
proof -
  obtain r m' where "f m = (r, m')" by (cases "f m")
  with assms show ?thesis by (cases r) (auto simp: bindM_def same_place_def)
qed

lemma place_catch:
  assumes "same_place m (snd (f m))" and "\<And>e m'. f m = (Throw e, m') \<Longrightarrow> same_place m' (snd (h e m'))"
  shows "same_place m (snd (catchM f h m))"
proof -
  obtain r m' where "f m = (r, m')" by (cases "f m")
  with assms show ?thesis by (cases r) (auto simp: catchM_def same_place_def)
qed

lemma place_onMux: "same_place m (snd (onMux f m))"
proof -
  obtain r m' where o: "onMux f m = (r, m')" by (cases "onMux f m")
  from onMux_only_conn [OF this] have "same_place m m'" by (auto simp: only_conn_def same_place_def)
  with o show ?thesis by simp
qed

lemma place_basic:
  "same_place m (snd (ret a m))" "same_place m (snd (throw e m))" "same_place m (f m) \<Longrightarrow> same_place m (snd (modifyM f m))"
  by (simp_all add: ret_def throw_def modifyM_def same_place_def)

lemma place_if: "(c \<Longrightarrow> same_place m (snd x)) \<Longrightarrow> (\<not> c \<Longrightarrow> same_place m (snd y)) \<Longrightarrow> same_place m (snd (if c then x else y))"
  by simp

lemma place_if_fun:
  "(c \<Longrightarrow> same_place m (snd (f m))) \<Longrightarrow> (\<not> c \<Longrightarrow> same_place m (snd (g m))) \<Longrightarrow> same_place m (snd ((if c then f else g) m))"
  by simp

lemmas place_rules = place_bind place_catch place_onMux place_basic place_if place_if_fun

lemma dispatch_place: "same_place m (snd (dispatch st err m))"
proof (cases "map_of (mx_pending m) (st_messageId st)")
  case None
  then show ?thesis by (simp add: dispatch_def ret_def same_place_def)
next
  case (Some p)
  have t: "same_place m (taken st p m)" by (simp add: same_place_def taken_def)
  have sv: "same_place m (setValue t r n) = same_place m n" for t r n by (simp add: same_place_def setValue_def)
  obtain r n where o: "onMux (pr_bodyParser p (st_status st) (mx_protocolVersion m) (pr_flags p)) (taken st p m) = (r, n)"
    by (cases "onMux (pr_bodyParser p (st_status st) (mx_protocolVersion m) (pr_flags p)) (taken st p m)")
  from onMux_only_conn [OF o] t have n: "same_place m n" by (auto simp: only_conn_def same_place_def)
  show ?thesis unfolding dispatch_taken [OF Some] o
    using t n by (cases err; cases r) (simp_all add: ret_def sv)
qed

lemma readOne_place: "same_place m (snd (readOne m))"
  unfolding readOne_def
  by (intro place_rules dispatch_place) (simp add: same_place_def split: option.splits)

lemma readIteration_place: "same_place m (snd (readIteration m))"
proof -
  obtain r n where o: "readOne m = (r, n)" by (cases "readOne m")
  have "same_place m n" using readOne_place [of m] o by simp
  with o show ?thesis by (cases r) (simp_all add: readIteration_def closeAllPending_eq same_place_def)
qed

lemma muxClose_place: "same_place m (snd (muxClose b m))"
  unfolding muxClose_def
  by (intro place_rules readIteration_place) (simp_all add: same_place_def closeAllPending_eq)

lemma executeSend_place: "same_place m (snd (executeSend call i m))"
  unfolding executeSend_def Let_def by (intro place_rules) (simp add: same_place_def)

lemma execute_place: "same_place m (snd (execute call m))"
  unfolding execute_def Let_def
  by (intro place_rules executeSend_place) (simp_all add: executeCheck_def executeRegister_def Let_def throw_def ret_def same_place_def)

lemma muxConnect_place: "same_place m (snd (muxConnect cr net m))"
proof -
  have a: "same_place m (snd (muxAuthenticate cr m))" for m
    by (auto simp: muxAuthenticate_def ret_def same_place_def split: option.splits prod.splits outcome.splits)
  show ?thesis unfolding muxConnect_def
    by (intro place_rules a) (simp_all add: same_place_def)
qed

section \<open>The invariant of the client\<close>

lemma poolKey_inject: "poolKey h p = poolKey h' p' \<longleftrightarrow> h = h' \<and> p = p'"
proof
  assume "poolKey h p = poolKey h' p'"
  then have "h @ CHR '':'' # to_string (unat p) = h' @ CHR '':'' # to_string (unat p')" by (simp add: poolKey_def)
  from split_at_last_unique [OF this] show "h = h' \<and> p = p'"
    by (simp add: colon_notin_to_string word_eq_iff_unsigned [where 'a = nat])
qed simp

text \<open>
  The store holds exactly the referenced connections; a pool entry stands under the address its
  connection was made for, so no connection is pooled twice.
\<close>

definition pooled :: "RemoteCache \<Rightarrow> bool" where
  "pooled s \<longleftrightarrow> distinct (map fst (rc_pool s)) \<and>
     (\<forall>(k, a) \<in> set (rc_pool s). a \<noteq> rc_connection s \<and>
        (\<exists>m. rc_store s a = Some m \<and> k = poolKey (mx_host m) (mx_port m)))"

text \<open>\<open>almost X s\<close>: the objects in \<open>X\<close> may be unreferenced.\<close>

definition almost :: "nat set \<Rightarrow> RemoteCache \<Rightarrow> bool" where
  "almost X s \<longleftrightarrow> pooled s \<and> {a. referenced s a} \<subseteq> dom (rc_store s) \<and> dom (rc_store s) \<subseteq> {a. referenced s a} \<union> X \<and>
     (\<forall>a \<in> dom (rc_store s). a < rc_fresh s)"

abbreviation cache_inv :: "RemoteCache \<Rightarrow> bool" where
  "cache_inv \<equiv> almost {}"

lemma cache_inv_new: "cache_inv (newRemoteCache host port name)"
  by (auto simp: almost_def pooled_def newRemoteCache_def referenced_def)

lemma cache_inv_alive: "almost X s \<Longrightarrow> referenced s a \<Longrightarrow> \<exists>m. rc_store s a = Some m"
  unfolding almost_def by blast

lemma referenced_store [simp]: "referenced (s\<lparr>rc_store := x\<rparr>) = referenced s"
  by (simp add: fun_eq_iff referenced_def)

text \<open>Updating an object in place.\<close>

lemma almost_store:
  assumes "almost X s" and "rc_store s a = Some m" and "same_place m m'"
  shows "almost X (s\<lparr>rc_store := (rc_store s)(a \<mapsto> m')\<rparr>)"
proof -
  from assms have "pooled (s\<lparr>rc_store := (rc_store s)(a \<mapsto> m')\<rparr>)"
    unfolding pooled_def almost_def same_place_def by fastforce
  moreover have "dom ((rc_store s)(a \<mapsto> m')) = dom (rc_store s)" using assms(2) by auto
  ultimately show ?thesis using assms(1) by (simp add: almost_def)
qed

lemma almost_onObject:
  assumes "almost X s" and "onObject a f s = (r, s')" and "\<And>m. same_place m (snd (f m))"
  shows "almost X s'"
proof (cases "rc_store s a")
  case None
  with assms show ?thesis by (simp add: onObject_def)
next
  case (Some m)
  obtain r' m' where f: "f m = (r', m')" by (cases "f m")
  with assms(3) [of m] have "same_place m m'" by simp
  from almost_store [OF assms(1) Some this] assms(2) Some f show ?thesis by (auto simp: onObject_def)
qed

lemma almost_release:
  assumes "almost (insert a X) s"
  shows "almost X (release s a)"
proof (cases "referenced s a")
  case True
  with assms show ?thesis by (auto simp: release_def almost_def)
next
  case False
  then have "b \<noteq> a" if "(k, b) \<in> set (rc_pool s)" for k b using that by (force simp: referenced_def)
  with assms have "pooled (s\<lparr>rc_store := (rc_store s)(a := None)\<rparr>)" by (auto simp: pooled_def almost_def)
  moreover have "dom ((rc_store s)(a := None)) = dom (rc_store s) - {a}" by auto
  ultimately show ?thesis using assms False by (simp add: release_def almost_def) blast
qed

lemma almost_releases: "almost (set as \<union> X) s \<Longrightarrow> almost X (foldl release s as)"
  by (induction as arbitrary: s) (simp_all add: almost_release)

lemma almost_mono: "almost X s \<Longrightarrow> X \<subseteq> Y \<Longrightarrow> almost Y s"
  by (auto simp: almost_def)

text \<open>Pool entries taken out become objects that may be unreferenced.\<close>

lemma almost_filter_pool:
  assumes "almost X s"
  shows "almost (snd ` set (filter (\<lambda>e. \<not> P e) (rc_pool s)) \<union> X) (s\<lparr>rc_pool := filter P (rc_pool s)\<rparr>)"
proof -
  from assms have "pooled (s\<lparr>rc_pool := filter P (rc_pool s)\<rparr>)"
    by (auto simp: almost_def pooled_def distinct_map_filter)
  moreover have "snd ` set (rc_pool s) = snd ` {e \<in> set (rc_pool s). P e} \<union> snd ` {e \<in> set (rc_pool s). \<not> P e}"
    by (simp add: image_Un [symmetric]) (rule arg_cong [where f = "image snd"], blast)
  ultimately show ?thesis using assms unfolding almost_def referenced_def by simp blast
qed

lemma almost_cleanup:
  assumes "almost X s"
  shows "almost X (cleanupStaleConnections s)"
proof -
  let ?keys = "set (map (\<lambda>server. poolKey (si_host server) (si_port server)) (ti_servers (rc_topology s)))"
  from almost_filter_pool [OF assms, of "\<lambda>e. fst e \<in> ?keys"] show ?thesis
    unfolding cleanupStaleConnections_def Let_def by (intro almost_releases) simp
qed

lemma releases_frame:
  "\<exists>st. foldl release s as = s\<lparr>rc_store := st\<rparr>"
proof (induction as arbitrary: s)
  case Nil
  show ?case by (rule exI [of _ "rc_store s"]) simp
next
  case (Cons a as)
  obtain st where "foldl release (release s a) as = (release s a)\<lparr>rc_store := st\<rparr>" using Cons by blast
  then show ?case by (cases "referenced s a") (auto simp: release_def [of s a])
qed

lemma almost_handleTopologyUpdate:
  assumes "almost X s" and "handleTopologyUpdate self topo name s = (r, s')"
  shows "almost X s'"
proof -
  have "almost X (s\<lparr>rc_topology := topo\<rparr>)" "almost X (s\<lparr>rc_topology := topo, rc_consistentHash := h\<rparr>)" for h
    using assms(1) by (simp_all add: almost_def pooled_def referenced_def)
  then show ?thesis using assms(2) almost_cleanup
    by (auto simp: handleTopologyUpdate_def Let_def split: if_splits)
qed

lemma almost_deliver: "deliver self cbs s = (r, s') \<Longrightarrow> almost X s \<Longrightarrow> almost X s'"
proof (induction cbs arbitrary: s)
  case Nil
  then show ?case by (simp add: ret_def)
next
  case (Cons cb cbs)
  obtain topo name where cb: "cb = (topo, name)" by (cases cb)
  obtain r1 s1 where h: "handleTopologyUpdate self topo name s = (r1, s1)" by (cases "handleTopologyUpdate self topo name s")
  with almost_handleTopologyUpdate [OF Cons.prems(2) h] Cons show ?case by (cases r1) (auto simp: cb bindM_def)
qed

lemma almost_onReadThread:
  assumes "almost X s" and "onReadThread a f s = (r, s')" and "\<And>m. same_place m (snd (f m))"
  shows "almost X s'"
proof (cases "rc_store s a")
  case None
  with assms show ?thesis by (simp add: onReadThread_def)
next
  case (Some m)
  obtain r1 m' where f: "f m = (r1, m')" by (cases "f m")
  with assms(3) [of m] have p: "same_place m m'" by simp
  let ?s = "s\<lparr>rc_store := (rc_store s)(a \<mapsto> m')\<rparr>"
  let ?cbs = "drop (length (mx_callbacks m)) (mx_callbacks m')"
  obtain r2 s2 where d: "deliver a ?cbs ?s = (r2, s2)" by (cases "deliver a ?cbs ?s")
  with almost_deliver [OF d almost_store [OF assms(1) Some p]] assms(2) Some f show ?thesis
    by (cases r2) (auto simp: onReadThread_def bindM_def)
qed

section \<open>Acquiring connections\<close>

lemma place_setters:
  "same_place m (snd (setProtocolVersion v m))" "same_place m (snd (setClientIntelligence i m))"
  "same_place m (snd (setAuthentication au m))"
  by (simp_all add: setProtocolVersion_def setClientIntelligence_def setAuthentication_def throw_def ret_def same_place_def)

text \<open>Computations that keep \<open>R\<close> between the states before and after, on every outcome.\<close>

lemma bind_kept:
  assumes "bindM f g s = (r, t)" and "\<And>r s'. f s = (r, s') \<Longrightarrow> Q s'" and "\<And>a s'. f s = (Ok a, s') \<Longrightarrow> Q s' \<Longrightarrow> g a s' = (r, t) \<Longrightarrow> Q t"
  shows "Q t"
  using assms by (cases rule: bindM_cases [OF assms(1)]) auto

text \<open>What acquiring a connection leaves alone: everything but the store and the counters.\<close>

definition same_cache :: "RemoteCache \<Rightarrow> RemoteCache \<Rightarrow> bool" where
  "same_cache s s' \<longleftrightarrow> s' = s\<lparr>rc_store := rc_store s', rc_fresh := rc_fresh s', rc_attempts := rc_attempts s'\<rparr>"

lemma same_cache_refl [simp]: "same_cache s s"
  by (simp add: same_cache_def)

lemma same_cacheE:
  assumes "same_cache s s'"
  obtains st n k where "s' = s\<lparr>rc_store := st, rc_fresh := n, rc_attempts := k\<rparr>"
  using assms that unfolding same_cache_def by blast

lemma same_cacheI: "s' = s\<lparr>rc_store := st, rc_fresh := n, rc_attempts := k\<rparr> \<Longrightarrow> same_cache s s'"
  by (simp add: same_cache_def)

lemma same_cache_trans: "same_cache s t \<Longrightarrow> same_cache t u \<Longrightarrow> same_cache s u"
  by (elim same_cacheE) (auto simp: same_cache_def)

lemma onObject_frame: "onObject a f s = (r, s') \<Longrightarrow> \<exists>st. s' = s\<lparr>rc_store := st\<rparr>"
  by (auto simp: onObject_def split: option.splits prod.splits intro: exI [of _ "rc_store s"])

lemma onObject_same_cache: "onObject a f s = (r, s') \<Longrightarrow> same_cache s s'"
  by (drule onObject_frame) (auto simp: same_cache_def)

lemma onObject_there: "onObject a f s = (r, s') \<Longrightarrow> (\<And>m. same_place m (snd (f m))) \<Longrightarrow> rc_store s a = Some m \<Longrightarrow>
    \<exists>m'. rc_store s' a = Some m' \<and> same_place m m'"
  by (auto simp: onObject_def split: prod.splits) (metis snd_conv)

text \<open>The condition createConnection keeps while it sets up the new object.\<close>

definition setting_up :: "nat \<Rightarrow> nat set \<Rightarrow> string \<Rightarrow> 16 word \<Rightarrow> RemoteCache \<Rightarrow> RemoteCache \<Rightarrow> bool" where
  "setting_up a X host port s s' \<longleftrightarrow> almost X s' \<and> same_cache s s' \<and> rc_fresh s' = rc_fresh s \<and>
     (\<exists>m. rc_store s' a = Some m \<and> mx_host m = host \<and> mx_port m = port)"

lemma setting_up_onObject:
  assumes "setting_up a X h p s t" and "onObject a f t = (r, t')" and "\<And>m. same_place m (snd (f m))"
  shows "setting_up a X h p s t'"
proof -
  from assms(1) obtain m where m: "rc_store t a = Some m" "mx_host m = h" "mx_port m = p" by (auto simp: setting_up_def)
  from onObject_there [OF assms(2,3) m(1)] m(2,3) have "\<exists>m. rc_store t' a = Some m \<and> mx_host m = h \<and> mx_port m = p"
    by (auto simp: same_place_def)
  moreover from onObject_frame [OF assms(2)] have "rc_fresh t' = rc_fresh t" by auto
  ultimately show ?thesis
    using assms(1) almost_onObject [OF _ assms(2,3)] onObject_same_cache [OF assms(2)]
    by (auto simp: setting_up_def intro: same_cache_trans)
qed

lemma setting_up_attempt: "setting_up a X h p s t \<Longrightarrow> setting_up a X h p s (t\<lparr>rc_attempts := k\<rparr>)"
  unfolding setting_up_def by (elim conjE same_cacheE) (auto simp: same_cache_def almost_def pooled_def referenced_def)

lemma setting_up_connectObject:
  assumes "setting_up a X h p s t" and "connectObject env a t = (r, t')"
  shows "setting_up a X h p s t'"
proof -
  note k = bind_kept [where Q = "setting_up a X h p s"]
  show ?thesis
    by (rule k [OF assms(2) [unfolded connectObject_def]], erule setting_up_onObject [OF assms(1)], rule place_setters,
        erule k, erule setting_up_onObject, assumption, rule place_setters,
        erule k, erule setting_up_onObject, assumption, rule place_setters,
        erule k, clarsimp simp: modifyC_def setting_up_attempt,
        erule setting_up_onObject, assumption, rule muxConnect_place)
qed

lemma muxConnect_connected: "muxConnect cr net m = (Ok u, m') \<Longrightarrow> mx_connected m'"
  by (auto simp: muxConnect_def bindM_eq_Ok_iff modifyM_def throw_def split: if_splits)

lemma connectObject_connected:
  "connectObject env a s = (Ok u, s') \<Longrightarrow> \<exists>m. rc_store s' a = Some m \<and> mx_connected m"
  by (auto simp: connectObject_def bindM_eq_Ok_iff onObject_def split: option.splits prod.splits dest: muxConnect_connected)

lemma almost_fresh:
  assumes "almost X s"
  shows "almost (insert (rc_fresh s) X) (s\<lparr>rc_fresh := Suc (rc_fresh s), rc_store := (rc_store s)(rc_fresh s \<mapsto> m)\<rparr>)"
proof -
  from assms have "rc_store s (rc_fresh s) = None" by (force simp: almost_def)
  with assms have "pooled (s\<lparr>rc_fresh := Suc (rc_fresh s), rc_store := (rc_store s)(rc_fresh s \<mapsto> m)\<rparr>)"
    unfolding pooled_def almost_def by fastforce
  with assms show ?thesis by (auto simp: almost_def referenced_def less_Suc_eq)
qed

lemma almost_pool_insert:
  assumes "almost (insert a X) s" and "rc_store s a = Some m" and "map_of (rc_pool s) (poolKey (mx_host m) (mx_port m)) = None"
    and "a \<noteq> rc_connection s"
  shows "almost X (s\<lparr>rc_pool := (poolKey (mx_host m) (mx_port m), a) # rc_pool s\<rparr>)"
proof -
  from assms(3) have "poolKey (mx_host m) (mx_port m) \<notin> fst ` set (rc_pool s)" by (simp add: map_of_eq_None_iff)
  with assms have "pooled (s\<lparr>rc_pool := (poolKey (mx_host m) (mx_port m), a) # rc_pool s\<rparr>)"
    by (auto simp: almost_def pooled_def)
  with assms show ?thesis by (auto simp: almost_def referenced_def)
qed

lemma eraseEntry_absent: "map_of xs k = None \<Longrightarrow> eraseEntry k xs = xs"
  by (auto simp: eraseEntry_def filter_id_conv map_of_eq_None_iff)

text \<open>What is kept while connections are acquired: all but the pool, the store and the counters.\<close>

definition same_routing :: "RemoteCache \<Rightarrow> RemoteCache \<Rightarrow> bool" where
  "same_routing s s' \<longleftrightarrow> s' = s\<lparr>rc_store := rc_store s', rc_fresh := rc_fresh s', rc_attempts := rc_attempts s', rc_pool := rc_pool s'\<rparr>"

lemma same_routing_refl [simp]: "same_routing s s"
  by (simp add: same_routing_def)

lemma same_routingE:
  assumes "same_routing s s'"
  obtains st n k p where "s' = s\<lparr>rc_store := st, rc_fresh := n, rc_attempts := k, rc_pool := p\<rparr>"
  using assms that unfolding same_routing_def by blast

lemma same_routing_trans: "same_routing s t \<Longrightarrow> same_routing t u \<Longrightarrow> same_routing s u"
  by (elim same_routingE) (auto simp: same_routing_def)

lemma same_cache_routing: "same_cache s t \<Longrightarrow> same_routing s t"
  by (elim same_cacheE) (simp add: same_routing_def)

definition at_address :: "RemoteCache \<Rightarrow> nat \<Rightarrow> string \<Rightarrow> 16 word \<Rightarrow> bool" where
  "at_address s a host port \<longleftrightarrow> (\<exists>m. rc_store s a = Some m \<and> mx_connected m \<and> mx_host m = host \<and> mx_port m = port)"

lemma createConnection_outcomes:
  assumes inv: "cache_inv s" and key: "map_of (rc_pool s) (poolKey (si_host server) (si_port server)) = None"
    and c: "createConnection env server s = (r, s')"
  shows "(\<forall>b. r = Ok b \<longrightarrow> cache_inv s' \<and> same_routing s s' \<and> rc_pool s' = (poolKey (si_host server) (si_port server), b) # rc_pool s \<and>
        at_address s' b (si_host server) (si_port server)) \<and>
    (\<forall>e. r = Throw e \<longrightarrow> cache_inv s' \<and> same_routing s s' \<and> rc_pool s' = rc_pool s)"
proof -
  let ?a = "rc_fresh s"
  let ?k = "poolKey (si_host server) (si_port server)"
  let ?s1 = "s\<lparr>rc_fresh := Suc ?a, rc_store := (rc_store s)(?a \<mapsto> newMultiplexedConnection (si_host server) (si_port server) True)\<rparr>"
  obtain r2 s2 where c2: "connectObject env ?a ?s1 = (r2, s2)" by (cases "connectObject env ?a ?s1")
  have "setting_up ?a {?a} (si_host server) (si_port server) ?s1 ?s1"
    using almost_fresh [OF inv] by (simp add: setting_up_def newMultiplexedConnection_def)
  from setting_up_connectObject [OF this c2] obtain m where al: "almost {?a} s2" and sc: "same_cache ?s1 s2"
    and m: "rc_store s2 ?a = Some m" "mx_host m = si_host server" "mx_port m = si_port server"
    by (auto simp: setting_up_def)
  from sc have sr: "same_routing s s2" "rc_pool s2 = rc_pool s" "rc_connection s2 = rc_connection s"
    by (elim same_cacheE; simp add: same_routing_def)+
  from inv have ne: "?a \<noteq> rc_connection s" by (force simp: almost_def referenced_def)
  have run: "createConnection env server s = (case r2 of
      Ok u \<Rightarrow> (Ok ?a, s2\<lparr>rc_pool := (?k, ?a) # eraseEntry ?k (rc_pool s2)\<rparr>)
    | Throw e \<Rightarrow> (Throw e, release s2 ?a) | Block \<Rightarrow> (Block, s2) | UB \<Rightarrow> (UB, s2))"
    by (cases r2) (simp_all add: createConnection_def Let_def bindM_def modifyC_def catchM_def c2 ret_def throw_def)
  show ?thesis
  proof (cases r2)
    case (Ok u)
    with run c have r: "r = Ok ?a" and s': "s' = s2\<lparr>rc_pool := (?k, ?a) # rc_pool s\<rparr>"
      using key sr(2) by (simp_all add: eraseEntry_absent)
    have "cache_inv s'"
      using almost_pool_insert [OF al m(1)] key ne sr m(2,3) by (simp add: s')
    moreover have "same_routing s s'" by (rule same_routingE [OF sr(1)]) (simp add: s' same_routing_def)
    moreover have "at_address s' ?a (si_host server) (si_port server)"
      using connectObject_connected [OF c2 [unfolded Ok]] m by (simp add: at_address_def s')
    ultimately show ?thesis using r by (simp add: s')
  next
    case (Throw e)
    with run c have r: "r = Throw e" and s': "s' = release s2 ?a" by simp_all
    have "same_routing s2 s'" by (simp add: s' release_def same_routing_def)
    with sr(1) have "same_routing s s'" by (rule same_routing_trans)
    with almost_release [OF al] show ?thesis using r sr(2) by (simp add: s' release_def)
  qed (use run c in simp_all)
qed

lemma getConnectionForServer_outcomes:
  assumes inv: "cache_inv s" and c: "getConnectionForServer env server s = (r, s')"
  shows "(\<forall>b. r = Ok b \<longrightarrow> cache_inv s' \<and> same_routing s s' \<and> at_address s' b (si_host server) (si_port server) \<and>
        map_of (rc_pool s') (poolKey (si_host server) (si_port server)) = Some b) \<and>
    (\<forall>e. r = Throw e \<longrightarrow> cache_inv s' \<and> same_routing s s')"
proof -
  let ?k = "poolKey (si_host server) (si_port server)"
  show ?thesis
  proof (cases "map_of (rc_pool s) ?k")
    case None
    with c have "createConnection env server s = (r, s')" by (simp add: getConnectionForServer_def)
    from createConnection_outcomes [OF inv None this] show ?thesis by simp
  next
    case (Some a)
    then have ka: "(?k, a) \<in> set (rc_pool s)" by (rule map_of_SomeD)
    with inv obtain m where m: "rc_store s a = Some m" "?k = poolKey (mx_host m) (mx_port m)"
      by (auto simp: almost_def pooled_def)
    from m(2) have hp: "mx_host m = si_host server" "mx_port m = si_port server" by (simp_all add: poolKey_inject)
    show ?thesis
    proof (cases "mx_connected m")
      case True
      with c Some m(1) have "r = Ok a" "s' = s" by (simp_all add: getConnectionForServer_def ret_def)
      with inv True m hp Some show ?thesis by (simp add: at_address_def)
    next
      case False
      let ?s = "release (s\<lparr>rc_pool := eraseEntry ?k (rc_pool s)\<rparr>) a"
      from c Some m(1) False have c': "createConnection env server ?s = (r, s')" by (simp add: getConnectionForServer_def)
      have d: "distinct (map fst (rc_pool s))" using inv by (simp add: almost_def pooled_def)
      have "snd ` set (filter (\<lambda>e. \<not> fst e \<noteq> ?k) (rc_pool s)) \<subseteq> {a}"
        using ka d by (auto dest: eq_key_imp_eq_value)
      from almost_mono [OF almost_filter_pool [OF inv, of "\<lambda>e. fst e \<noteq> ?k"], of "{a}"] this
      have inv': "cache_inv ?s" by (intro almost_release) (simp add: eraseEntry_def)
      have "map_of (rc_pool ?s) ?k = None" by (simp add: release_def map_of_eraseEntry)
      note o = createConnection_outcomes [OF inv' this c']
      have "same_routing s ?s" by (simp add: release_def same_routing_def)
      with o show ?thesis by (auto intro: same_routing_trans)
    qed
  qed
qed

section \<open>Candidates in turn\<close>

definition serverOf :: "ServerAddress \<Rightarrow> ServerInfo" where
  "serverOf c = \<lparr>si_host = sa_host c, si_port = sa_port c, si_hashId = 0\<rparr>"

text \<open>Every candidate of the list, in turn, could not be reached.\<close>

inductive refused :: "Environment \<Rightarrow> ServerAddress list \<Rightarrow> RemoteCache \<Rightarrow> RemoteCache \<Rightarrow> bool" for env where
  none: "refused env [] s s"
| one: "getConnectionForServer env (serverOf c) s = (Throw e, s1) \<Longrightarrow> refused env cs s1 s2 \<Longrightarrow> refused env (c # cs) s s2"

inductive_simps refused_simps [simp]: "refused env [] s t" "refused env (c # cs) s t"

lemma tryCandidates_Cons:
  "tryCandidates env (c # cs) tried s = (case getConnectionForServer env (serverOf c) s of
      (Ok a, s1) \<Rightarrow> (Ok (Some a, tried @ [c]), s1)
    | (Throw e, s1) \<Rightarrow> tryCandidates env cs (tried @ [c]) s1
    | (Block, s1) \<Rightarrow> (Block, s1) | (UB, s1) \<Rightarrow> (UB, s1))"
  by (simp add: serverOf_def Let_def catchM_def bindM_def ret_def split: prod.splits outcome.splits)

declare tryCandidates.simps(2) [simp del]

lemma tryCandidates_never_throws: "tryCandidates env cs tried s \<noteq> (Throw e, s')"
  by (induction cs arbitrary: tried s) (auto simp: ret_def tryCandidates_Cons split: prod.splits outcome.splits)

lemma tryCandidates_first:
  "tryCandidates env cs tried s = (Ok (Some a, tried'), s') \<longleftrightarrow>
    (\<exists>pre c post s1. cs = pre @ c # post \<and> refused env pre s s1 \<and>
       getConnectionForServer env (serverOf c) s1 = (Ok a, s') \<and> tried' = tried @ pre @ [c])"
proof (induction cs arbitrary: tried s)
  case Nil
  then show ?case by (simp add: ret_def)
next
  case (Cons c cs)
  obtain r s1 where g: "getConnectionForServer env (serverOf c) s = (r, s1)" by (cases "getConnectionForServer env (serverOf c) s")
  show ?case
  proof (cases r)
    case (Throw e)
    have "(\<exists>pre d post s2. c # cs = pre @ d # post \<and> refused env pre s s2 \<and>
        getConnectionForServer env (serverOf d) s2 = (Ok a, s') \<and> tried' = tried @ pre @ [d]) \<longleftrightarrow>
      (\<exists>pre d post s2. cs = pre @ d # post \<and> refused env pre s1 s2 \<and>
        getConnectionForServer env (serverOf d) s2 = (Ok a, s') \<and> tried' = (tried @ [c]) @ pre @ [d])"
      (is "?l \<longleftrightarrow> ?r")
    proof
      assume ?l
      then obtain pre d post s2 where "c # cs = pre @ d # post" "refused env pre s s2"
        "getConnectionForServer env (serverOf d) s2 = (Ok a, s')" "tried' = tried @ pre @ [d]" by blast
      with g Throw show ?r by (cases pre) auto
    next
      assume ?r
      then obtain pre d post s2 where "cs = pre @ d # post" "refused env pre s1 s2"
        "getConnectionForServer env (serverOf d) s2 = (Ok a, s')" "tried' = (tried @ [c]) @ pre @ [d]" by blast
      then show ?l by (intro exI [of _ "c # pre"] exI [of _ d] exI [of _ post] exI [of _ s2]) (simp add: g Throw)
    qed
    then show ?thesis using Cons.IH [of "tried @ [c]" s1] by (simp add: tryCandidates_Cons g Throw)
  next
    case (Ok b)
    have "(\<exists>pre d post s2. c # cs = pre @ d # post \<and> refused env pre s s2 \<and>
        getConnectionForServer env (serverOf d) s2 = (Ok a, s') \<and> tried' = tried @ pre @ [d]) \<longleftrightarrow>
      b = a \<and> s1 = s' \<and> tried' = tried @ [c]" (is "?l \<longleftrightarrow> ?r")
    proof
      assume ?l
      then obtain pre d post s2 where "c # cs = pre @ d # post" "refused env pre s s2"
        "getConnectionForServer env (serverOf d) s2 = (Ok a, s')" "tried' = tried @ pre @ [d]" by blast
      with g Ok show ?r by (cases pre) auto
    next
      assume ?r
      with g Ok show ?l by (intro exI [of _ "[]"]) auto
    qed
    then show ?thesis by (auto simp: tryCandidates_Cons g Ok)
  qed (auto simp: tryCandidates_Cons g Cons_eq_append_conv)
qed

lemma tryCandidates_none:
  "tryCandidates env cs tried s = (Ok (None, tried'), s') \<longleftrightarrow> refused env cs s s' \<and> tried' = tried @ cs"
proof (induction cs arbitrary: tried s)
  case (Cons c cs)
  obtain r s1 where g: "getConnectionForServer env (serverOf c) s = (r, s1)" by (cases "getConnectionForServer env (serverOf c) s")
  show ?case using Cons.IH [of "tried @ [c]" s1] by (cases r) (simp_all add: tryCandidates_Cons g)
qed (auto simp: ret_def)

lemma refused_keeps: "refused env cs s s' \<Longrightarrow> cache_inv s \<Longrightarrow> cache_inv s' \<and> same_routing s s'"
proof (induction rule: refused.induct)
  case (one c s e s1 cs s2)
  from getConnectionForServer_outcomes [OF one.prems one.hyps(1)] have "cache_inv s1" "same_routing s s1" by auto
  with one.IH show ?case by (auto intro: same_routing_trans)
qed simp

lemma tryCandidates_outcomes:
  assumes "cache_inv s" and "tryCandidates env cs [] s = (Ok (res, tried), s')"
  shows "cache_inv s' \<and> same_routing s s' \<and> (case res of
      Some a \<Rightarrow> \<exists>pre c post s1. cs = pre @ c # post \<and> tried = pre @ [c] \<and> refused env pre s s1 \<and>
        at_address s' a (sa_host c) (sa_port c)
    | None \<Rightarrow> refused env cs s s' \<and> tried = cs)"
proof (cases res)
  case None
  with assms(2) have "refused env cs s s'" "tried = cs" by (simp_all add: tryCandidates_none)
  with refused_keeps assms(1) None show ?thesis by simp
next
  case (Some a)
  with assms(2) obtain pre c post s1 where r: "cs = pre @ c # post" "tried = pre @ [c]" "refused env pre s s1"
    and g: "getConnectionForServer env (serverOf c) s1 = (Ok a, s')" by (auto simp: tryCandidates_first)
  from refused_keeps [OF r(3) assms(1)] have k: "cache_inv s1" "same_routing s s1" by auto
  from getConnectionForServer_outcomes [OF k(1) g] have "cache_inv s'" "same_routing s1 s'" "at_address s' a (sa_host c) (sa_port c)"
    by (auto simp: serverOf_def)
  with k(2) r Some show ?thesis by (auto intro: same_routing_trans)
qed

text \<open>The candidates of a key: none when the request goes to the seed connection.\<close>

definition routesByHash :: "RemoteCache \<Rightarrow> byteArray \<Rightarrow> bool" where
  "routesByHash s key \<longleftrightarrow> rc_clientIntelligence s = HASH_DISTRIBUTION_AWARE \<and> ch_hasHashTopology (rc_consistentHash s) \<and>
     getOwners key (rc_topology s) (rc_consistentHash s) \<noteq> []"

definition ownerNodes :: "RemoteCache \<Rightarrow> byteArray \<Rightarrow> ServerAddress list" where
  "ownerNodes s key = map address (getOwners key (rc_topology s) (rc_consistentHash s))"

definition keyCandidates :: "RemoteCache \<Rightarrow> byteArray \<Rightarrow> RetryContext \<Rightarrow> ServerAddress list" where
  "keyCandidates s key ctx = orderKeyCandidates (ownerNodes s key) (map address (ti_servers (rc_topology s)))
     (excludeNodes ctx) (rc_proxyToNonOwner s)"

lemma selectServerForKey_routed:
  assumes "routesByHash s key"
  shows "selectServerForKey env key ctx s = bindM (tryCandidates env (keyCandidates s key ctx) []) (\<lambda>(conn, tried).
     case conn of Some a \<Rightarrow> ret (a, tried)
     | None \<Rightarrow> throw (hotrod_exn ''No servers available in topology'' BeforeSend None (unionNodes (excludeNodes ctx) tried)
         (list_all (\<lambda>owner. owner \<in> set tried \<or> owner \<in> set (excludeNodes ctx)) (ownerNodes s key)))) s"
  using assms unfolding selectServerForKey_def Let_def ownerNodes_def keyCandidates_def by (simp add: routesByHash_def)

lemma selectServerForKey_seed:
  "\<not> routesByHash s key \<Longrightarrow> selectServerForKey env key ctx s = (Ok (rc_connection s, []), s)"
  by (auto simp: selectServerForKey_def routesByHash_def Let_def ret_def)

lemma select_cases:
  assumes "bindM (tryCandidates env cs []) (\<lambda>(conn, tried). case conn of Some a \<Rightarrow> ret (a, tried) | None \<Rightarrow> throw (x tried)) s = (r, s')"
  shows "(\<exists>a tried. r = Ok (a, tried) \<and> tryCandidates env cs [] s = (Ok (Some a, tried), s')) \<or>
    r = Throw (x cs) \<and> tryCandidates env cs [] s = (Ok (None, cs), s') \<or> r = Block \<or> r = UB"
proof -
  obtain q t where q: "tryCandidates env cs [] s = (q, t)" by (cases "tryCandidates env cs [] s")
  show ?thesis
  proof (cases q)
    case (Ok p)
    obtain conn tried where p: "p = (conn, tried)" by (cases p)
    show ?thesis
    proof (cases conn)
      case None
      with q Ok p have "tryCandidates env cs [] s = (Ok (None, tried), t)" by simp
      then have "tried = cs" by (simp add: tryCandidates_none)
      with assms q Ok p None show ?thesis by (simp add: bindM_def throw_def)
    next
      case (Some a)
      with assms q Ok p show ?thesis by (simp add: bindM_def ret_def)
    qed
  next
    case (Throw e)
    with q tryCandidates_never_throws show ?thesis by blast
  qed (use assms q in \<open>simp_all add: bindM_def\<close>)
qed

lemma keyCandidates_order:
  "keyCandidates s key ctx =
     filter (\<lambda>c. c \<notin> set (excludeNodes ctx)) (firsts (ownerNodes s key)) @
     (if rc_proxyToNonOwner s
      then filter (\<lambda>c. c \<notin> set (excludeNodes ctx) \<and> c \<notin> set (ownerNodes s key)) (firsts (map address (ti_servers (rc_topology s))))
      else [])"
  unfolding keyCandidates_def by (rule orderKeyCandidates_spec [THEN conjunct1])

text \<open>
  C4: A key is routed to its owners first. With hash topology the candidates are the owners of the
  key in the order of the table, then (unless switched off) the other servers in the order of the topology, each once
  where it first occurs and none of them excluded. The connection
  returned belongs to the first candidate that can be reached, is connected, and tried lists the
  candidates up to it, none of them excluded. When none can be reached nothing has been sent: the exception is BeforeSend,
  its triedNodes are the exclusions and all candidates, and ownersExhausted holds. Topology and
  settings stay as they are and the pool stays consistent.
\<close>

theorem key_routed_to_first_reachable:
  assumes "cache_inv s" and "routesByHash s key"
  shows "(selectServerForKey env key ctx s = (Ok (a, tried), s') \<longrightarrow>
      (\<exists>pre c post s1. keyCandidates s key ctx = pre @ c # post \<and> refused env pre s s1 \<and> tried = pre @ [c] \<and>
         at_address s' a (sa_host c) (sa_port c)) \<and> set tried \<inter> set (excludeNodes ctx) = {} \<and> cache_inv s' \<and> same_routing s s') \<and>
    (selectServerForKey env key ctx s = (Throw e, s') \<longrightarrow>
      refused env (keyCandidates s key ctx) s s' \<and> cache_inv s' \<and> same_routing s s' \<and>
      (\<exists>x. e = HotRod x \<and> phase x = BeforeSend \<and> ownersExhausted x \<and>
         set (triedNodes x) = set (excludeNodes ctx) \<union> set (keyCandidates s key ctx))) \<and>
    keyCandidates s key ctx =
      filter (\<lambda>c. c \<notin> set (excludeNodes ctx)) (firsts (ownerNodes s key)) @
      (if rc_proxyToNonOwner s
       then filter (\<lambda>c. c \<notin> set (excludeNodes ctx) \<and> c \<notin> set (ownerNodes s key)) (firsts (map address (ti_servers (rc_topology s))))
       else [])"
proof (intro conjI impI)
  note sel = selectServerForKey_routed [OF assms(2), of env ctx]
  { assume ok: "selectServerForKey env key ctx s = (Ok (a, tried), s')"
    with select_cases [OF sel [symmetric, THEN trans, OF ok]]
    have t: "tryCandidates env (keyCandidates s key ctx) [] s = (Ok (Some a, tried), s')" by auto
    note o = tryCandidates_outcomes [OF assms(1) t]
    then show "cache_inv s'" and "same_routing s s'" by auto
    from o obtain pre c post s1 where pc: "keyCandidates s key ctx = pre @ c # post" "refused env pre s s1" "tried = pre @ [c]"
      "at_address s' a (sa_host c) (sa_port c)" by auto
    then have "set tried \<subseteq> set (keyCandidates s key ctx)" by auto
    then show "set tried \<inter> set (excludeNodes ctx) = {}" by (auto simp: keyCandidates_def)
    from pc show "\<exists>pre c post s1. keyCandidates s key ctx = pre @ c # post \<and> refused env pre s s1 \<and> tried = pre @ [c] \<and>
         at_address s' a (sa_host c) (sa_port c)" by blast }
  { assume thr: "selectServerForKey env key ctx s = (Throw e, s')"
    with select_cases [OF sel [symmetric, THEN trans, OF thr]]
    have t: "tryCandidates env (keyCandidates s key ctx) [] s = (Ok (None, keyCandidates s key ctx), s')"
      and e: "e = hotrod_exn ''No servers available in topology'' BeforeSend None (unionNodes (excludeNodes ctx) (keyCandidates s key ctx))
         (list_all (\<lambda>owner. owner \<in> set (keyCandidates s key ctx) \<or> owner \<in> set (excludeNodes ctx)) (ownerNodes s key))" by auto
    from tryCandidates_outcomes [OF assms(1) t]
    show "refused env (keyCandidates s key ctx) s s'" and "cache_inv s'" and "same_routing s s'" by auto
    show "\<exists>x. e = HotRod x \<and> phase x = BeforeSend \<and> ownersExhausted x \<and>
         set (triedNodes x) = set (excludeNodes ctx) \<union> set (keyCandidates s key ctx)"
      by (auto simp: e hotrod_exn_def keyCandidates_def list_all_iff) }
qed (rule keyCandidates_order)

text \<open>A client of one server that owns all keys, for the examples.\<close>

definition exampleTopology :: TopologyInfo where
  "exampleTopology = topologyOf HASH_DISTRIBUTION_AWARE \<lparr>up_topologyId = 7, up_addresses = [\<lparr>sa_host = ''a'', sa_port = 1\<rparr>],
     up_hashVersion = 3, up_owners = [[0]]\<rparr> newTopologyInfo"

definition exampleCache :: RemoteCache where
  "exampleCache = (newRemoteCache ''seed'' 9 ''c'')\<lparr>rc_clientIntelligence := HASH_DISTRIBUTION_AWARE, rc_topology := exampleTopology,
     rc_consistentHash := updateFromTopology exampleTopology newConsistentHash\<rparr>"

definition exampleEnv :: "recv_event list \<Rightarrow> Environment" where
  "exampleEnv inc = \<lparr>en_crypto = letterCrypto, en_network = (\<lambda>host port attempt.
     \<lparr>nw_resolved = Inr [Immediate], nw_incoming = inc, nw_sendScript = [SendAccepts 100, SendAccepts 100]\<rparr>)\<rparr>"

lemma example_inv: "cache_inv exampleCache"
  using cache_inv_new [of "''seed''" 9 "''c''"] by (simp add: exampleCache_def almost_def pooled_def referenced_def)

lemma example_routed: "routesByHash exampleCache [65]" "keyCandidates exampleCache [65] noExclusions = [\<lparr>sa_host = ''a'', sa_port = 1\<rparr>]"
  by code_simp+

lemma example_select: "fst (selectServerForKey (exampleEnv inc) [65] noExclusions exampleCache) = Ok (1, [\<lparr>sa_host = ''a'', sa_port = 1\<rparr>])"
  by code_simp

theorem key_routed_to_first_reachable_witness:
  "\<exists>s'. selectServerForKey (exampleEnv []) [65] noExclusions exampleCache = (Ok (1, [\<lparr>sa_host = ''a'', sa_port = 1\<rparr>]), s') \<and>
     at_address s' 1 ''a'' 1 \<and> cache_inv s'"
proof -
  obtain s' where s': "selectServerForKey (exampleEnv []) [65] noExclusions exampleCache =
      (Ok (1, [\<lparr>sa_host = ''a'', sa_port = 1\<rparr>]), s')"
    using example_select [of "[]"] by (metis prod.collapse)
  with key_routed_to_first_reachable [OF example_inv example_routed(1), of "exampleEnv []" noExclusions 1 "[\<lparr>sa_host = ''a'', sa_port = 1\<rparr>]" s']
  obtain pre c where "[\<lparr>sa_host = ''a'', sa_port = 1\<rparr>] = pre @ [c]" "at_address s' 1 (sa_host c) (sa_port c)" "cache_inv s'" by blast
  with s' show ?thesis by (cases pre) auto
qed

section \<open>Every operation keeps the invariant\<close>

definition preserves :: "'a client \<Rightarrow> bool" where
  "preserves f \<longleftrightarrow> (\<forall>s r s'. cache_inv s \<and> f s = (r, s') \<and> r \<noteq> Block \<and> r \<noteq> UB \<longrightarrow> cache_inv s')"

lemma preserves_bind: "preserves f \<Longrightarrow> (\<And>a. preserves (g a)) \<Longrightarrow> preserves (bindM f g)"
  unfolding preserves_def by (intro allI impI, elim conjE bindM_cases) blast+

lemma preserves_onObject: "(\<And>m. same_place m (snd (f m))) \<Longrightarrow> preserves (onObject a f)"
  using almost_onObject unfolding preserves_def by blast

lemma preserves_onReadThread: "(\<And>m. same_place m (snd (f m))) \<Longrightarrow> preserves (onReadThread a f)"
  using almost_onReadThread unfolding preserves_def by blast

lemma preserves_at: "(\<And>s. preserves (f s)) \<Longrightarrow> preserves (\<lambda>s. f s s)"
  unfolding preserves_def by blast

lemma preserves_selectServerForKey: "preserves (selectServerForKey env key ctx)"
  unfolding preserves_def
proof (intro allI impI, elim conjE)
  fix s r s' assume inv: "cache_inv s" and r: "selectServerForKey env key ctx s = (r, s')" "r \<noteq> Block" "r \<noteq> UB"
  show "cache_inv s'"
  proof (cases "routesByHash s key")
    case False
    with r(1) inv show ?thesis by (simp add: selectServerForKey_seed)
  next
    case True
    from select_cases [OF selectServerForKey_routed [OF True, symmetric, THEN trans, OF r(1)]] r(2,3)
    obtain res tried where "tryCandidates env (keyCandidates s key ctx) [] s = (Ok (res, tried), s')" by auto
    from tryCandidates_outcomes [OF inv this] show ?thesis by simp
  qed
qed

lemma preserves_selectAnyServer: "preserves (selectAnyServer env ctx)"
  unfolding preserves_def
proof (intro allI impI, elim conjE)
  fix s r s' assume inv: "cache_inv s" and r: "selectAnyServer env ctx s = (r, s')" "r \<noteq> Block" "r \<noteq> UB"
  show "cache_inv s'"
  proof (cases "ti_servers (rc_topology s) = []")
    case True
    with r(1) inv show ?thesis by (simp add: selectAnyServer_def ret_def)
  next
    case False
    with r(1) have "bindM (tryCandidates env (orderKeyCandidates [] (map address (ti_servers (rc_topology s))) (excludeNodes ctx) True) [])
        (\<lambda>(conn, tried). case conn of Some a \<Rightarrow> ret (a, tried) | None \<Rightarrow>
           throw (hotrod_exn ''No servers available in topology'' BeforeSend None (unionNodes (excludeNodes ctx) tried) False)) s = (r, s')"
      unfolding selectAnyServer_def Let_def by simp
    from select_cases [OF this] r(2,3) obtain res tried where
      "tryCandidates env (orderKeyCandidates [] (map address (ti_servers (rc_topology s))) (excludeNodes ctx) True) [] s = (Ok (res, tried), s')" by auto
    from tryCandidates_outcomes [OF inv this] show ?thesis by simp
  qed
qed

lemma almost_hold:
  "almost X s \<Longrightarrow> rc_store s a \<noteq> None \<Longrightarrow> almost X (s\<lparr>rc_held := rc_held s @ [a]\<rparr>)"
  by (auto simp: almost_def pooled_def referenced_def)

lemma preserves_submit: "preserves (submit conn call result)"
  unfolding preserves_def
proof (intro allI impI, elim conjE)
  fix s r s' assume inv: "cache_inv s" and r: "submit conn call result s = (r, s')" "r \<noteq> Block" "r \<noteq> UB"
  from r(1) show "cache_inv s'" unfolding submit_def
  proof (cases rule: bindM_cases)
    case (Ok ticket s1)
    have "rc_store s1 conn \<noteq> None" using Ok(1) by (auto simp: onObject_def split: option.splits prod.splits)
    from almost_hold [OF almost_onObject [OF inv Ok(1) execute_place] this] Ok(2) show ?thesis by (auto simp: ret_def)
  next
    case (Throw e)
    from almost_onObject [OF inv Throw(1) execute_place] show ?thesis .
  qed (use r in auto)
qed

lemma inv_let_go:
  assumes inv: "cache_inv s"
  shows "cache_inv (release (s\<lparr>rc_held := remove1 b (rc_held s)\<rparr>) b)"
proof -
  let ?t = "s\<lparr>rc_held := remove1 b (rc_held s)\<rparr>"
  have "set xs \<subseteq> insert b (set (remove1 b xs))" for xs by (induction xs) auto
  then have "referenced s a \<Longrightarrow> referenced ?t a \<or> a = b" for a by (auto simp: referenced_def)
  moreover have "referenced ?t a \<Longrightarrow> referenced s a" for a
    using set_remove1_subset [of b "rc_held s"] by (auto simp: referenced_def)
  moreover have "pooled ?t = pooled s" by (simp add: pooled_def)
  ultimately have "almost {b} ?t" using inv by (simp add: almost_def) blast
  from almost_release [OF this] show ?thesis by simp
qed

lemma preserves_futureGet: "preserves (futureGet f)"
  unfolding preserves_def by (auto simp: futureGet_def intro: inv_let_go split: option.splits)

lemma preserves_connectObject: "preserves (connectObject env a)"
proof -
  have m: "preserves (modifyC (\<lambda>s. s\<lparr>rc_attempts := Suc (rc_attempts s)\<rparr>))"
    by (auto simp: preserves_def modifyC_def almost_def pooled_def referenced_def)
  have "preserves (\<lambda>s. f s)" if "f = connectObject env a" for f
    unfolding that connectObject_def
    by (rule preserves_at, intro preserves_bind preserves_onObject m place_setters muxConnect_place)
  then show ?thesis by blast
qed

lemma preserves_keyed: "preserves (keyed env key ctx body opc ex parser fl result)"
  unfolding keyed_def
proof (rule preserves_bind [OF preserves_selectServerForKey])
  fix p
  show "preserves (case p of (conn, tried) \<Rightarrow> \<lambda>s. submit conn \<lparr>cl_body = body, cl_opcode = opc, cl_expectedOpcode = ex,
    cl_bodyParser = parser, cl_cacheName = rc_cacheName s, cl_flags = fl\<rparr> (result tried (excludeNodes ctx)) s)"
    using preserves_submit by (cases p) (fastforce simp: preserves_def)
qed

lemma preserves_ping: "preserves (pingImpl env ctx)"
  unfolding pingImpl_def
proof (rule preserves_bind [OF preserves_selectAnyServer])
  fix p
  show "preserves (case p of (conn, tried) \<Rightarrow> \<lambda>s. submit conn \<lparr>cl_body = [], cl_opcode = 0x17, cl_expectedOpcode = 0x18,
    cl_bodyParser = pingParser, cl_cacheName = rc_cacheName s, cl_flags = 0\<rparr> (pingResult tried (excludeNodes ctx)) s)"
    using preserves_submit by (cases p) (fastforce simp: preserves_def)
qed

text \<open>
  C7: The client's bookkeeping of connections is an invariant of every operation that returns or
  throws: a pool entry stands under the host and port its connection was made for and no key occurs twice, so
  no two pooled connections go to the same server; no reference dangles; and every connection that
  exists is referenced by the cache, its pool or a future, so none is leaked.
\<close>

theorem client_invariant:
  "cache_inv (newRemoteCache host port name) \<and> preserves (cacheConnect env) \<and> preserves (cacheDisconnect inIteration) \<and>
   preserves (clientRead a) \<and> preserves (pingImpl env ctx) \<and> preserves (getImpl env key ctx) \<and>
   preserves (getWithMetadataImpl env key ctx) \<and> preserves (putImpl env key value lifespan maxIdle previous ctx) \<and>
   preserves (putIfAbsentImpl env key value lifespan maxIdle previous ctx) \<and>
   preserves (replaceImpl env key value lifespan maxIdle previous ctx) \<and> preserves (containsKeyImpl env key ctx) \<and>
   preserves (removeImpl env key previous ctx) \<and> preserves (removeWithVersionImpl env key version ctx) \<and>
   preserves (replaceWithVersionImpl env key value version lifespan maxIdle ctx) \<and> preserves (futureGet f)"
proof -
  have "preserves (cacheConnect env)" "preserves (cacheDisconnect inIteration)"
    unfolding cacheConnect_def cacheDisconnect_def
    by (rule preserves_at, rule preserves_connectObject) (rule preserves_at, rule preserves_onReadThread, rule muxClose_place)
  then show ?thesis
    by (simp add: cache_inv_new clientRead_def preserves_onReadThread readIteration_place preserves_ping preserves_futureGet
        getImpl_def getWithMetadataImpl_def putImpl_def putIfAbsentImpl_def replaceImpl_def containsKeyImpl_def removeImpl_def
        removeWithVersionImpl_def replaceWithVersionImpl_def preserves_keyed)
qed

section \<open>Topology updates and connections in use\<close>

lemma referenced_release [simp]: "referenced (release s b) = referenced s"
  by (simp add: release_def)

lemma store_releases: "rc_store (foldl release s as) a = (if a \<in> set as \<and> \<not> referenced s a then None else rc_store s a)"
  by (induction as arbitrary: s) (auto simp: release_def [of _ "_ :: nat"] split: if_splits)

lemma referenced_releases [simp]: "referenced (foldl release s as) = referenced s"
  by (induction as arbitrary: s) simp_all

text \<open>The state in which stale connections are let go.\<close>

definition rerouted :: "TopologyInfo \<Rightarrow> RemoteCache \<Rightarrow> RemoteCache" where
  "rerouted topo s = s\<lparr>rc_topology := topo,
     rc_consistentHash := (if rc_clientIntelligence s = HASH_DISTRIBUTION_AWARE
       then updateFromTopology topo (rc_consistentHash s) else rc_consistentHash s),
     rc_pool := filter (\<lambda>e. fst e \<in> set (map (\<lambda>server. poolKey (si_host server) (si_port server)) (ti_servers topo))) (rc_pool s)\<rparr>"

lemma handleTopologyUpdate_eq:
  "handleTopologyUpdate self topo name s =
     (let s' = foldl release (rerouted topo s) (map snd (filter (\<lambda>e. fst e \<notin>
          set (map (\<lambda>server. poolKey (si_host server) (si_port server)) (ti_servers topo))) (rc_pool s)))
      in (if rc_store s' self = None then UB else Ok (), s'))"
  by (simp add: handleTopologyUpdate_def rerouted_def Let_def cleanupStaleConnections_def)

lemma handleTopologyUpdate_frame:
  "handleTopologyUpdate self topo name s = (r, s') \<Longrightarrow> \<exists>st. s' = (rerouted topo s)\<lparr>rc_store := st\<rparr>"
  using releases_frame [of "rerouted topo s"] by (auto simp: handleTopologyUpdate_eq Let_def simp del: set_map)

text \<open>
  C22: After a topology update the client routes by the new topology (and, when hash aware, by its
  ownership table), and the pool holds exactly its previous connections to servers of the new
  topology. Connections that are still pooled, that a future waits on, or the seed connection are
  untouched. The callback ends the program exactly when the connection whose read thread delivers the update
  is left without any reference.
\<close>

theorem topology_update_prunes_pool:
  assumes inv: "cache_inv s" and h: "handleTopologyUpdate self topo name s = (r, s')" and self: "rc_store s self \<noteq> None"
  shows "rc_topology s' = topo \<and>
    (rc_clientIntelligence s = HASH_DISTRIBUTION_AWARE \<longrightarrow> rc_consistentHash s' = updateFromTopology topo (rc_consistentHash s)) \<and>
    rc_pool s' = filter (\<lambda>e. \<exists>server \<in> set (ti_servers topo). fst e = poolKey (si_host server) (si_port server)) (rc_pool s) \<and>
    (\<forall>(k, a) \<in> set (rc_pool s'). \<exists>m. rc_store s' a = Some m \<and> \<lparr>sa_host = mx_host m, sa_port = mx_port m\<rparr> \<in> address ` set (ti_servers topo)) \<and>
    (\<forall>a. a = rc_connection s \<or> a \<in> set (rc_held s) \<or> a \<in> snd ` set (rc_pool s') \<longrightarrow> rc_store s' a = rc_store s a) \<and>
    (r = UB \<longleftrightarrow> \<not> referenced s' self) \<and> r \<in> {Ok (), UB}"
proof -
  let ?keys = "set (map (\<lambda>server. poolKey (si_host server) (si_port server)) (ti_servers topo))"
  let ?stale = "map snd (filter (\<lambda>e. fst e \<notin> ?keys) (rc_pool s))"
  have s': "s' = foldl release (rerouted topo s) ?stale" and r: "r = (if rc_store s' self = None then UB else Ok ())"
    using h by (auto simp: handleTopologyUpdate_eq Let_def simp del: set_map)
  from handleTopologyUpdate_frame [OF h] obtain st where fr: "s' = (rerouted topo s)\<lparr>rc_store := st\<rparr>" by blast
  then have pool: "rc_pool s' = filter (\<lambda>e. fst e \<in> ?keys) (rc_pool s)" by (simp add: rerouted_def)
  have inv': "cache_inv s'" using almost_handleTopologyUpdate [OF inv h] .
  have keep: "rc_store s' a = rc_store s a" if "referenced s' a" for a
    using that unfolding s' store_releases referenced_releases by (simp add: rerouted_def)
  have ref: "referenced s' a \<longleftrightarrow> a = rc_connection s \<or> a \<in> set (rc_held s) \<or> a \<in> snd ` set (rc_pool s')" for a
    by (simp add: fr rerouted_def referenced_def) blast
  have "rc_store s' self = None \<longleftrightarrow> \<not> referenced s' self" using inv' keep self by (auto simp: almost_def)
  then have ub: "(r = UB \<longleftrightarrow> \<not> referenced s' self) \<and> r \<in> {Ok (), UB}" by (simp add: r)
  have "\<exists>m. rc_store s' a = Some m \<and> \<lparr>sa_host = mx_host m, sa_port = mx_port m\<rparr> \<in> address ` set (ti_servers topo)"
    if "(k, a) \<in> set (rc_pool s')" for k a
  proof -
    from that inv' obtain m where m: "rc_store s' a = Some m" "k = poolKey (mx_host m) (mx_port m)" by (auto simp: almost_def pooled_def)
    from that pool obtain server where "server \<in> set (ti_servers topo)" "k = poolKey (si_host server) (si_port server)" by auto
    with m show ?thesis by (force simp: poolKey_inject address_def)
  qed
  moreover have "rc_topology s' = topo"
    "rc_clientIntelligence s = HASH_DISTRIBUTION_AWARE \<longrightarrow> rc_consistentHash s' = updateFromTopology topo (rc_consistentHash s)"
    by (simp_all add: fr rerouted_def)
  moreover have "rc_pool s' = filter (\<lambda>e. \<exists>server \<in> set (ti_servers topo). fst e = poolKey (si_host server) (si_port server)) (rc_pool s)"
    unfolding pool by (intro filter_cong refl) auto
  ultimately show ?thesis using ub keep ref by blast
qed

definition exampleStale :: RemoteCache where
  "exampleStale = exampleCache\<lparr>rc_fresh := 2, rc_store := (rc_store exampleCache)(1 \<mapsto> newMultiplexedConnection ''b'' 2 True),
     rc_pool := [(''b:2'', 1)]\<rparr>"

lemma example_keys: "poolKey ''b'' 2 = ''b:2''"
  "map (\<lambda>server. poolKey (si_host server) (si_port server)) (ti_servers exampleTopology) = [''a:1'']"
  by code_simp+

lemma example_fields: "rc_fresh exampleCache = 1" "rc_pool exampleCache = []" "rc_connection exampleCache = 0" "rc_held exampleCache = []"
  by (simp_all add: exampleCache_def newRemoteCache_def)

lemma exampleStale_inv: "cache_inv exampleStale"
proof -
  have n: "mx_host (newMultiplexedConnection ''b'' 2 True) = ''b''" "mx_port (newMultiplexedConnection ''b'' 2 True) = 2"
    by (simp_all add: newMultiplexedConnection_def)
  show ?thesis
    using almost_pool_insert [OF almost_fresh [OF example_inv, of "newMultiplexedConnection ''b'' 2 True"], of "newMultiplexedConnection ''b'' 2 True"]
    by (simp add: example_fields n example_keys exampleStale_def numeral_2_eq_2)
qed

theorem topology_update_prunes_pool_witness:
  "\<exists>s'. handleTopologyUpdate 1 exampleTopology ''c'' exampleStale = (UB, s') \<and> rc_pool s' = []"
proof -
  obtain r s' where h: "handleTopologyUpdate 1 exampleTopology ''c'' exampleStale = (r, s')"
    by (cases "handleTopologyUpdate 1 exampleTopology ''c'' exampleStale")
  have self: "rc_store exampleStale 1 \<noteq> None" by (simp add: exampleStale_def)
  note t = topology_update_prunes_pool [OF exampleStale_inv h self]
  from handleTopologyUpdate_frame [OF h] have fr: "rc_pool s' = []" "rc_connection s' = 0" "rc_held s' = []"
    by (auto simp: rerouted_def exampleStale_def example_fields example_keys(2) simp del: set_map)
  then have "\<not> referenced s' 1" by (simp add: referenced_def)
  with t have "r = UB" by blast
  with h fr show ?thesis by blast
qed

end
