(* ===== verification/Retry.thy ===== *)
theory Retry
  imports RemoteCache
begin

text \<open>
  RetryView (include/hotrod/RetryView.h): the operations of a cache under a bound set of excluded nodes.
  examples/quickstart/retry.cpp: the retry loops the documentation recommends to callers, over the
  operations of RemoteCache and RetryView. While a caller waits in get, the read thread of the
  connection goes on: \<open>patience\<close> bounds how many iterations it makes before the model gives the wait up as
  blocking.
\<close>

section \<open>The retry view\<close>

text \<open>
  A RetryView holds the cache it views, which the model passes as the state, and the context it binds; each
  of its operations is the implementation of the cache's operation under that context.
\<close>

definition viewPing :: "Environment \<Rightarrow> RetryView \<Rightarrow> unit Future client" where
  "viewPing env view = pingImpl env (rv_ctx view)"

definition viewGet :: "Environment \<Rightarrow> RetryView \<Rightarrow> byteArray \<Rightarrow> byteArray option Future client" where
  "viewGet env view key = getImpl env key (rv_ctx view)"

definition viewGetWithMetadata :: "Environment \<Rightarrow> RetryView \<Rightarrow> byteArray \<Rightarrow> EntryWithMetadata option Future client" where
  "viewGetWithMetadata env view key = getWithMetadataImpl env key (rv_ctx view)"

definition viewPut ::
  "Environment \<Rightarrow> RetryView \<Rightarrow> byteArray \<Rightarrow> byteArray \<Rightarrow> VLong \<Rightarrow> VLong \<Rightarrow> bool \<Rightarrow> EntryWithMetadata option Future client" where
  "viewPut env view key value lifespan maxIdle previousValue = putImpl env key value lifespan maxIdle previousValue (rv_ctx view)"

definition viewPutIfAbsent ::
  "Environment \<Rightarrow> RetryView \<Rightarrow> byteArray \<Rightarrow> byteArray \<Rightarrow> VLong \<Rightarrow> VLong \<Rightarrow> bool \<Rightarrow> EntryWithMetadata option Future client" where
  "viewPutIfAbsent env view key value lifespan maxIdle previousValue =
     putIfAbsentImpl env key value lifespan maxIdle previousValue (rv_ctx view)"

definition viewReplace ::
  "Environment \<Rightarrow> RetryView \<Rightarrow> byteArray \<Rightarrow> byteArray \<Rightarrow> VLong \<Rightarrow> VLong \<Rightarrow> bool \<Rightarrow> EntryWithMetadata option Future client" where
  "viewReplace env view key value lifespan maxIdle previousValue =
     replaceImpl env key value lifespan maxIdle previousValue (rv_ctx view)"

definition viewContainsKey :: "Environment \<Rightarrow> RetryView \<Rightarrow> byteArray \<Rightarrow> bool Future client" where
  "viewContainsKey env view key = containsKeyImpl env key (rv_ctx view)"

definition viewRemove :: "Environment \<Rightarrow> RetryView \<Rightarrow> byteArray \<Rightarrow> bool \<Rightarrow> EntryWithMetadata option Future client" where
  "viewRemove env view key previousValue = removeImpl env key previousValue (rv_ctx view)"

definition viewRemoveWithVersion :: "Environment \<Rightarrow> RetryView \<Rightarrow> byteArray \<Rightarrow> int64 \<Rightarrow> bool Future client" where
  "viewRemoveWithVersion env view key version = removeWithVersionImpl env key version (rv_ctx view)"

definition viewReplaceWithVersion ::
  "Environment \<Rightarrow> RetryView \<Rightarrow> byteArray \<Rightarrow> byteArray \<Rightarrow> int64 \<Rightarrow> VLong \<Rightarrow> VLong \<Rightarrow> bool Future client" where
  "viewReplaceWithVersion env view key value version lifespan maxIdle =
     replaceWithVersionImpl env key value version lifespan maxIdle (rv_ctx view)"

section \<open>Waiting for an answer\<close>

fun awaitAnswer :: "nat \<Rightarrow> 'r Future \<Rightarrow> unit client" where
  "awaitAnswer 0 f = ret ()"
| "awaitAnswer (Suc patience) f = (\<lambda>s. case rc_store s (fu_conn f) of
      None \<Rightarrow> (UB, s)
    | Some m \<Rightarrow>
        if mx_results m (fu_ticket f) = None \<and> mx_readThread m
        then bindM (clientRead (fu_conn f)) (\<lambda>_. awaitAnswer patience f) s
        else ret () s)"

definition blockingGet :: "nat \<Rightarrow> 'r Future \<Rightarrow> 'r client" where
  "blockingGet patience f = bindM (awaitAnswer patience f) (\<lambda>_. futureGet f)"

section \<open>The loops\<close>

text \<open>The loop the three functions share; \<open>op\<close> is one attempt, given the nodes to exclude.\<close>

function retryLoop :: "(ServerAddress list \<Rightarrow> ('s, exn, 'r) comp) \<Rightarrow> int \<Rightarrow> int \<Rightarrow> ServerAddress list \<Rightarrow> ('s, exn, 'r) comp" where
  "retryLoop op maxAttempts attempt excluded =
     catchM (op excluded) (\<lambda>ex. case ex of
         HotRod e \<Rightarrow>
           if \<not> isTransient e then throw ex
           else if attempt \<ge> maxAttempts then throw ex
           else retryLoop op maxAttempts (attempt + 1) (triedNodes e)
       | _ \<Rightarrow> throw ex)"
  by pat_completeness auto

termination retryLoop
  by (relation "measure (\<lambda>(op, maxAttempts, attempt, excluded). nat (maxAttempts - attempt))") auto

declare retryLoop.simps [simp del]

definition getWithRetry :: "Environment \<Rightarrow> nat \<Rightarrow> byteArray \<Rightarrow> int \<Rightarrow> byteArray option client" where
  "getWithRetry env patience key maxAttempts = retryLoop (\<lambda>excluded.
     bindM (if excluded = [] then cacheGet env key else viewGet env (RemoteCache.excluding excluded) key) (blockingGet patience))
     maxAttempts 1 []"

definition pingWithRetry :: "Environment \<Rightarrow> nat \<Rightarrow> int \<Rightarrow> unit client" where
  "pingWithRetry env patience maxAttempts = retryLoop (\<lambda>excluded.
     bindM (if excluded = [] then cachePing env else viewPing env (RemoteCache.excluding excluded)) (blockingGet patience))
     maxAttempts 1 []"

definition putWithRetry :: "Environment \<Rightarrow> nat \<Rightarrow> byteArray \<Rightarrow> byteArray \<Rightarrow> int \<Rightarrow> EntryWithMetadata option client" where
  "putWithRetry env patience key value maxAttempts = retryLoop (\<lambda>excluded.
     bindM (if excluded = [] then cachePut env key value 0 0 False
            else viewPut env (RemoteCache.excluding excluded) key value 0 0 False) (blockingGet patience))
     maxAttempts 1 []"

section \<open>How often the loop tries\<close>

text \<open>An attempt that also keeps a log: the nodes it was told to exclude, and how it ended.\<close>

type_synonym 'r attemptLog = "(ServerAddress list \<times> (exn, 'r) outcome) list"

definition logged :: "(ServerAddress list \<Rightarrow> ('s, exn, 'r) comp) \<Rightarrow> ServerAddress list \<Rightarrow> ('r attemptLog \<times> 's, exn, 'r) comp" where
  "logged op excluded = (\<lambda>(log, s). case op excluded s of (r, s) \<Rightarrow> (r, log @ [(excluded, r)], s))"

text \<open>A chain of attempts: each but the last failed transiently and hands its tried nodes to the next.\<close>

fun chained :: "ServerAddress list \<Rightarrow> 'r attemptLog \<Rightarrow> (exn, 'r) outcome \<Rightarrow> bool" where
  "chained excluded [] r \<longleftrightarrow> False"
| "chained excluded [(excl, q)] r \<longleftrightarrow> excl = excluded \<and> q = r"
| "chained excluded ((excl, q) # rest) r \<longleftrightarrow> excl = excluded \<and>
     (case q of Throw (HotRod e) \<Rightarrow> isTransient e \<and> chained (triedNodes e) rest r | _ \<Rightarrow> False)"

lemma chained_Cons: "rest \<noteq> [] \<Longrightarrow> chained excluded ((excluded, Throw (HotRod e)) # rest) r \<longleftrightarrow> isTransient e \<and> chained (triedNodes e) rest r"
  by (cases rest) simp_all

lemma retryLoop_logged:
  "retryLoop (logged op) maxAttempts attempt excluded (log, s) = (r, log', s') \<Longrightarrow>
    \<exists>new. log' = log @ new \<and> retryLoop op maxAttempts attempt excluded s = (r, s') \<and> chained excluded new r \<and>
      int (length new) \<le> max 1 (maxAttempts - attempt + 1) \<and>
      (\<forall>e. r = Throw (HotRod e) \<and> isTransient e \<longrightarrow> int (length new) = max 1 (maxAttempts - attempt + 1))"
proof (induction op maxAttempts attempt excluded arbitrary: log s r log' s' rule: retryLoop.induct)
  case (1 op maxAttempts attempt excluded)
  obtain q t where q: "op excluded s = (q, t)" by (cases "op excluded s")
  then have c: "logged op excluded (log, s) = (q, log @ [(excluded, q)], t)" by (simp add: logged_def)
  note step = retryLoop.simps [of op maxAttempts attempt excluded, THEN fun_cong, of s]
    retryLoop.simps [of "logged op" maxAttempts attempt excluded, THEN fun_cong, of "(log, s)"]
  show ?case
  proof (cases "\<exists>e. q = Throw (HotRod e) \<and> isTransient e \<and> attempt < maxAttempts")
    case True
    then obtain e where e: "q = Throw (HotRod e)" "isTransient e" "attempt < maxAttempts" by blast
    then have "retryLoop (logged op) maxAttempts (attempt + 1) (triedNodes e) (log @ [(excluded, q)], t) = (r, log', s')"
      using "1.prems" step(2) c by (simp add: catchM_def)
    with "1.IH" [of "HotRod e" e "log @ [(excluded, q)]" t r log' s'] e obtain new where
      new: "log' = log @ (excluded, q) # new" "retryLoop op maxAttempts (attempt + 1) (triedNodes e) t = (r, s')"
        "chained (triedNodes e) new r" "int (length new) \<le> maxAttempts - attempt"
        "\<forall>e. r = Throw (HotRod e) \<and> isTransient e \<longrightarrow> int (length new) = maxAttempts - attempt"
      by auto
    then have "new \<noteq> []" by auto
    with new e have "chained excluded ((excluded, q) # new) r" by (simp add: chained_Cons)
    with new e q step(1) show ?thesis by (intro exI [of _ "(excluded, q) # new"]) (auto simp: catchM_def)
  next
    case False
    with "1.prems" step q c have "r = q \<and> log' = log @ [(excluded, q)] \<and> s' = t \<and> retryLoop op maxAttempts attempt excluded s = (q, t)"
      by (cases q) (auto simp: catchM_def throw_def split: exn.splits if_splits)
    with False show ?thesis by (intro exI [of _ "[(excluded, q)]"]) auto
  qed
qed

text \<open>
  C25: The recommended retry loop ends: it makes at least one attempt and at most maxAttempts (one if
  that is less than one). The first attempt excludes nothing and each later one the nodes the failure before
  it reports as tried; the loop goes on only after a transient client exception, so it never repeats a
  call that returned or failed permanently; its outcome is that of the last attempt, and it passes a
  transient failure on to the caller only when the attempts are used up.
\<close>

theorem retry_loop_bounded:
  "let (r, log, s') = retryLoop (logged attempt) maxAttempts 1 [] ([], s) in
   retryLoop attempt maxAttempts 1 [] s = (r, s') \<and> chained [] log r \<and> int (length log) \<le> max 1 maxAttempts \<and>
   (\<forall>e. r = Throw (HotRod e) \<and> isTransient e \<longrightarrow> int (length log) = max 1 maxAttempts)"
proof -
  obtain r log s' where l: "retryLoop (logged attempt) maxAttempts 1 [] ([], s) = (r, log, s')"
    by (cases "retryLoop (logged attempt) maxAttempts 1 [] ([], s)")
  from retryLoop_logged [OF this] show ?thesis by (auto simp: l)
qed

definition unreachable :: "ServerAddress list \<Rightarrow> (unit, exn, unit) comp" where
  "unreachable excluded = throw (hotrod_exn ''Not connected'' BeforeSend None (\<lparr>sa_host = ''a'', sa_port = 1\<rparr> # excluded) False)"

lemma unreachable_loop:
  "(case fst (retryLoop (logged unreachable) 3 1 [] ([], ())) of Throw (HotRod e) \<Rightarrow> isTransient e | _ \<Rightarrow> False)"
  by code_simp

theorem retry_loop_bounded_witness:
  "\<exists>log. fst (snd (retryLoop (logged unreachable) 3 1 [] ([], ()))) = log \<and> length log = 3 \<and>
     chained [] log (fst (retryLoop unreachable 3 1 [] ()))"
proof -
  obtain r log s' where l: "retryLoop (logged unreachable) 3 1 [] ([], ()) = (r, log, s')"
    by (cases "retryLoop (logged unreachable) 3 1 [] ([], ())")
  from unreachable_loop have "\<exists>e. r = Throw (HotRod e) \<and> isTransient e" by (auto simp: l split: outcome.splits exn.splits)
  with retry_loop_bounded [of unreachable 3 "()"] show ?thesis by (auto simp: l)
qed

section \<open>Failures of the send itself\<close>

lemma execute_throws: "execute call m = (Throw e, m') \<Longrightarrow> \<exists>x. e = HotRod x \<and> triedNodes x = muxNode m"
proof -
  assume ex: "execute call m = (Throw e, m')"
  show ?thesis
  proof (cases "mx_connected m")
    case False
    with ex show ?thesis by (auto simp: execute_def executeCheck_def bindM_def throw_def hotrod_exn_def)
  next
    case True
    show ?thesis
    proof (cases "mx_connection m")
      case None
      with ex True show ?thesis
        by (simp add: execute_def executeCheck_def executeRegister_def executeSend_def Let_def bindM_def catchM_def onMux_def ret_def)
    next
      case (Some c)
      obtain q c' where q: "send (writeRequestHeader [] (requestHeader (mx_nextMessageId m) call m) @ cl_body call) c = (q, c')"
        by (cases "send (writeRequestHeader [] (requestHeader (mx_nextMessageId m) call m) @ cl_body call) c")
      from execute_connected [OF True Some, of call, unfolded q ex Let_def prod.case]
      show ?thesis by (cases q) (simp_all add: hotrod_exn_def)
    qed
  qed
qed

text \<open>
  C39: When the send itself fails, the exclusions are forgotten. The exception execute throws passes
  through the operation unchanged: its triedNodes name the one node the request was for, not the nodes
  excluded so far. A retry that excludes the exception's triedNodes therefore considers every other owner of the
  key again, also those an earlier attempt had excluded.
\<close>

theorem send_failure_forgets_exclusions:
  assumes sel: "selectServerForKey env key ctx s = (Ok (a, tried), s0)" and m: "rc_store s0 a = Some m"
    and ex: "execute \<lparr>cl_body = request, cl_opcode = opc, cl_expectedOpcode = expected, cl_bodyParser = parser,
      cl_cacheName = rc_cacheName s0, cl_flags = flags\<rparr> m = (Throw e, m')"
  shows "\<exists>x s'. keyed env key ctx request opc expected parser flags result s = (Throw (HotRod x), s') \<and>
    triedNodes x = muxNode m \<and>
    set (ownerNodes s' key) - set (muxNode m) \<subseteq> set (keyCandidates s' key (rv_ctx (excludingTried x)))"
proof -
  from execute_throws [OF ex] obtain x where x: "e = HotRod x" "triedNodes x = muxNode m" by blast
  have "keyed env key ctx request opc expected parser flags result s = (Throw (HotRod x), s0\<lparr>rc_store := (rc_store s0)(a \<mapsto> m')\<rparr>)"
    using sel m ex x by (simp add: keyed_def bindM_def submit_def onObject_def)
  moreover have "set (ownerNodes s' key) - set (muxNode m) \<subseteq> set (keyCandidates s' key (rv_ctx (excludingTried x)))" for s'
    by (auto simp: keyCandidates_def excludingTried_def newRetryView_def x)
  ultimately show ?thesis using x(2) by blast
qed

definition failingEnv :: Environment where
  "failingEnv = \<lparr>en_crypto = letterCrypto, en_network = (\<lambda>host port attempt.
     \<lparr>nw_resolved = Inr [Immediate], nw_incoming = [], nw_sendScript = [SendError ''x'']\<rparr>)\<rparr>"

definition failingCall :: Call where
  "failingCall = \<lparr>cl_body = [1], cl_opcode = 3, cl_expectedOpcode = 4, cl_bodyParser = getParser, cl_cacheName = ''c'', cl_flags = 0\<rparr>"

definition excludesOther :: RetryContext where
  "excludesOther = \<lparr>excludeNodes = [\<lparr>sa_host = ''b'', sa_port = 2\<rparr>]\<rparr>"

lemma failing_send:
  "fst (selectServerForKey failingEnv [65] excludesOther exampleCache) = Ok (1, [\<lparr>sa_host = ''a'', sa_port = 1\<rparr>])"
  "rc_cacheName (snd (selectServerForKey failingEnv [65] excludesOther exampleCache)) = ''c''"
  "(case rc_store (snd (selectServerForKey failingEnv [65] excludesOther exampleCache)) 1 of
     None \<Rightarrow> False | Some m \<Rightarrow> (case fst (execute failingCall m) of Throw e \<Rightarrow> muxNode m = [\<lparr>sa_host = ''a'', sa_port = 1\<rparr>] | _ \<Rightarrow> False))"
  by code_simp+

theorem send_failure_forgets_exclusions_witness:
  "\<exists>x s'. keyed failingEnv [65] excludesOther [1] 3 4 getParser 0 getResult exampleCache = (Throw (HotRod x), s') \<and>
     triedNodes x = [\<lparr>sa_host = ''a'', sa_port = 1\<rparr>]"
proof -
  obtain s0 where s0: "selectServerForKey failingEnv [65] excludesOther exampleCache = (Ok (1, [\<lparr>sa_host = ''a'', sa_port = 1\<rparr>]), s0)"
    using failing_send(1) by (metis prod.collapse)
  note f = failing_send(2,3) [unfolded s0 snd_conv]
  from f(2) obtain m where m: "rc_store s0 1 = Some m" by (cases "rc_store s0 1") simp_all
  obtain q m' where q: "execute failingCall m = (q, m')" by (cases "execute failingCall m")
  from f(2) [unfolded m option.case q fst_conv] obtain e where e: "q = Throw e" "muxNode m = [\<lparr>sa_host = ''a'', sa_port = 1\<rparr>]"
    by (cases q) simp_all
  have "execute \<lparr>cl_body = [1], cl_opcode = 3, cl_expectedOpcode = 4, cl_bodyParser = getParser,
      cl_cacheName = rc_cacheName s0, cl_flags = 0\<rparr> m = (Throw e, m')"
    using q e(1) f(1) by (simp add: failingCall_def)
  from send_failure_forgets_exclusions [OF s0 m this, of getResult] show ?thesis unfolding e(2) by blast
qed

end
