(* ===== verification/Exchange.thy ===== *)
theory Exchange
  imports Retry
begin

text \<open>
  One exchange between the client and a server: what submitting a request leaves behind, how its answer
  reaches the future that waits for it, and the special case of a client whose seed connection has nothing else
  in flight. The theories about whole sessions and programs build on these lemmas.
\<close>

section \<open>A request and its answer\<close>

lemma execute_no_connection: "mx_connection m = None \<Longrightarrow> fst (execute call m) \<noteq> Ok t"
  by (simp add: execute_def executeCheck_def executeRegister_def executeSend_def Let_def bindM_def catchM_def onMux_def ret_def throw_def)

lemma execute_not_connected: "\<not> mx_connected m \<Longrightarrow> fst (execute call m) \<noteq> Ok t"
  by (simp add: execute_def executeCheck_def bindM_def throw_def)

lemma submit_returns:
  assumes "submit a call res s = (Ok f, s1)"
  obtains m c ticket where "f = \<lparr>fu_conn = a, fu_ticket = ticket, fu_result = res\<rparr>" "rc_store s1 a = Some m"
    "mx_connection m = Some c" "a \<in> set (rc_held s1)"
    "map_of (mx_pending m) (mx_nextMessageId m - 1) = Some \<lparr>pr_ticket = ticket, pr_bodyParser = cl_bodyParser call,
       pr_expectedOpcode = cl_expectedOpcode call, pr_cacheName = cl_cacheName call, pr_flags = cl_flags call\<rparr>"
proof -
  from assms obtain ticket s0 where ex: "onObject a (execute call) s = (Ok ticket, s0)"
    and f: "f = \<lparr>fu_conn = a, fu_ticket = ticket, fu_result = res\<rparr>" "s1 = s0\<lparr>rc_held := rc_held s0 @ [a]\<rparr>"
    by (auto simp: submit_def bindM_eq_Ok_iff ret_def)
  from ex obtain m0 m where m: "rc_store s a = Some m0" "execute call m0 = (Ok ticket, m)" "rc_store s0 a = Some m"
    by (auto simp: onObject_def split: option.splits prod.splits)
  have con: "mx_connected m0" using execute_not_connected [of m0 call ticket] m(2) by (cases "mx_connected m0") simp_all
  obtain c0 where c0: "mx_connection m0 = Some c0"
    using execute_no_connection [of m0 call ticket] m(2) by (cases "mx_connection m0") simp_all
  obtain q c where q: "send (writeRequestHeader [] (requestHeader (mx_nextMessageId m0) call m0) @ cl_body call) c0 = (q, c)"
    by (cases "send (writeRequestHeader [] (requestHeader (mx_nextMessageId m0) call m0) @ cl_body call) c0")
  note e = execute_connected [OF con c0, of call, unfolded q m(2) Let_def prod.case]
  then obtain u where u: "q = Ok u" by (cases q) simp_all
  from e [unfolded u outcome.case] have "ticket = mx_issued m0" "mx_connection m = Some c" "mx_nextMessageId m = mx_nextMessageId m0 + 1"
    "map_of (mx_pending m) (mx_nextMessageId m0) = Some \<lparr>pr_ticket = mx_issued m0, pr_bodyParser = cl_bodyParser call,
       pr_expectedOpcode = cl_expectedOpcode call, pr_cacheName = cl_cacheName call, pr_flags = cl_flags call\<rparr>"
    by simp_all
  with f m(3) that [of ticket m c] show ?thesis by simp
qed

lemma topology_callback_keeps_held:
  assumes "handleTopologyUpdate a topo name s = (r, s')" and "a \<in> set (rc_held s)" and "rc_store s a \<noteq> None"
  shows "r = Ok () \<and> rc_store s' a = rc_store s a \<and> a \<in> set (rc_held s')"
proof -
  let ?stale = "map snd (filter (\<lambda>e. fst e \<notin> set (map (\<lambda>server. poolKey (si_host server) (si_port server)) (ti_servers topo))) (rc_pool s))"
  have s': "s' = foldl release (rerouted topo s) ?stale" and r: "r = (if rc_store s' a = None then UB else Ok ())"
    using assms(1) by (auto simp: handleTopologyUpdate_eq Let_def simp del: set_map)
  from assms(2) have "referenced (rerouted topo s) a" by (simp add: rerouted_def referenced_def)
  then have "rc_store s' a = rc_store s a" unfolding s' store_releases by (simp add: rerouted_def)
  moreover from handleTopologyUpdate_frame [OF assms(1)] assms(2) have "a \<in> set (rc_held s')" by (auto simp: rerouted_def)
  ultimately show ?thesis using r assms(3) by simp
qed

lemma deliver_keeps_held:
  "a \<in> set (rc_held s) \<Longrightarrow> rc_store s a \<noteq> None \<Longrightarrow>
    \<exists>s'. deliver a cbs s = (Ok (), s') \<and> rc_store s' a = rc_store s a \<and> a \<in> set (rc_held s')"
proof (induction cbs arbitrary: s)
  case Nil
  then show ?case by (simp add: ret_def)
next
  case (Cons cb cbs)
  obtain topo name where cb: "cb = (topo, name)" by (cases cb)
  obtain r s1 where h: "handleTopologyUpdate a topo name s = (r, s1)" by (cases "handleTopologyUpdate a topo name s")
  from topology_callback_keeps_held [OF h Cons.prems] Cons.IH [of s1] Cons.prems(2) show ?case by (auto simp: cb bindM_def h)
qed

lemma held_answer_arrives:
  assumes inv: "cache_inv s" and held: "a \<in> set (rc_held s)" and m: "rc_store s a = Some m"
    and it: "readIteration m = (Ok True, m')" and res: "mx_results m' ticket = Some resp"
  shows "\<exists>s2 s3. clientRead a s = (Ok True, s2) \<and>
    futureGet \<lparr>fu_conn = a, fu_ticket = ticket, fu_result = f\<rparr> s2 = (f resp, s3) \<and> (f resp \<noteq> Block \<and> f resp \<noteq> UB \<longrightarrow> cache_inv s3)"
proof -
  let ?s = "s\<lparr>rc_store := (rc_store s)(a \<mapsto> m')\<rparr>"
  from deliver_keeps_held [of a ?s "drop (length (mx_callbacks m)) (mx_callbacks m')"] held obtain s2 where
    d: "deliver a (drop (length (mx_callbacks m)) (mx_callbacks m')) ?s = (Ok (), s2)" "rc_store s2 a = Some m'" by auto
  have read: "clientRead a s = (Ok True, s2)" using m it d(1) by (simp add: clientRead_def onReadThread_def bindM_def)
  have inv2: "cache_inv s2" using almost_onReadThread [OF inv read [unfolded clientRead_def] readIteration_place] .
  obtain r s3 where g: "futureGet \<lparr>fu_conn = a, fu_ticket = ticket, fu_result = f\<rparr> s2 = (r, s3)"
    by (cases "futureGet \<lparr>fu_conn = a, fu_ticket = ticket, fu_result = f\<rparr> s2")
  with d(2) res have r: "r = f resp" by (simp add: futureGet_def)
  with preserves_futureGet inv2 g have "f resp \<noteq> Block \<and> f resp \<noteq> UB \<longrightarrow> cache_inv s3" unfolding preserves_def by blast
  with read g r show ?thesis by blast
qed

section \<open>A client with nothing in flight\<close>

text \<open>
  A client that has not learned of any owners, so that every operation on a key uses the seed connection; that
  connection is up, with its read thread running, and has no request outstanding.
\<close>

definition seedOnly :: "RemoteCache \<Rightarrow> bool" where
  "seedOnly s \<longleftrightarrow> \<not> ch_hasHashTopology (rc_consistentHash s) \<and> ti_servers (rc_topology s) = []"

definition idle :: "RemoteCache \<Rightarrow> MultiplexedConnection \<Rightarrow> Connection \<Rightarrow> bool" where
  "idle s m c \<longleftrightarrow> cache_inv s \<and> seedOnly s \<and> rc_store s (rc_connection s) = Some m \<and>
     mx_connected m \<and> mx_readThread m \<and> mx_protocolVersion m \<ge> VERSION_40 \<and>
     mx_pending m = [] \<and> (\<forall>t \<ge> mx_issued m. mx_results m t = None) \<and> mx_connection m = Some c \<and> cn_connected c"

abbreviation theCall :: "RemoteCache \<Rightarrow> byteArray \<Rightarrow> byte \<Rightarrow> byte \<Rightarrow> bodyParser \<Rightarrow> int32 \<Rightarrow> Call" where
  "theCall s request opc expected parser flags \<equiv> \<lparr>cl_body = request, cl_opcode = opc, cl_expectedOpcode = expected,
     cl_bodyParser = parser, cl_cacheName = rc_cacheName s, cl_flags = flags\<rparr>"

abbreviation requestBytes :: "RemoteCache \<Rightarrow> MultiplexedConnection \<Rightarrow> byteArray \<Rightarrow> byte \<Rightarrow> int32 \<Rightarrow> byteArray" where
  "requestBytes s m request opc flags \<equiv>
     writeRequestHeader [] (requestHeader (mx_nextMessageId m) (theCall s request opc 0 getParser flags) m) @ request"

text \<open>The connection once the request is on its way: one entry is pending.\<close>

definition waiting :: "RemoteCache \<Rightarrow> MultiplexedConnection \<Rightarrow> byte \<Rightarrow> bodyParser \<Rightarrow> int32 \<Rightarrow> Connection \<Rightarrow> MultiplexedConnection" where
  "waiting s m expected parser flags c = m\<lparr>mx_nextMessageId := mx_nextMessageId m + 1, mx_issued := Suc (mx_issued m),
     mx_pending := [(mx_nextMessageId m, \<lparr>pr_ticket = mx_issued m, pr_bodyParser = parser, pr_expectedOpcode = expected,
       pr_cacheName = rc_cacheName s, pr_flags = flags\<rparr>)], mx_connection := Some c\<rparr>"

lemma requestHeader_call:
  "requestHeader i (theCall s request opc expected parser flags) m = requestHeader i (theCall s request opc 0 getParser flags) m"
  by (simp add: requestHeader_def)

lemma seed_operations:
  assumes "idle s m c"
  shows "keyed env key ctx request opc expected parser flags result s =
      submit (rc_connection s) (theCall s request opc expected parser flags) (result [] (excludeNodes ctx)) s"
    and "pingImpl env ctx s = submit (rc_connection s) (theCall s [] 0x17 0x18 pingParser 0) (pingResult [] (excludeNodes ctx)) s"
  using assms
  by (simp_all add: idle_def seedOnly_def keyed_def pingImpl_def selectServerForKey_def selectAnyServer_def bindM_def ret_def)

lemma submit_free:
  assumes m: "mx_connected m" "mx_connection m = Some c" "mx_pending m = []" "rc_store s a = Some m"
    and sd: "send (requestBytes s m request opc flags) c = (Ok (), d)"
  shows "submit a (theCall s request opc expected parser flags) result s =
    (Ok \<lparr>fu_conn = a, fu_ticket = mx_issued m, fu_result = result\<rparr>,
     s\<lparr>rc_store := (rc_store s)(a \<mapsto> waiting s m expected parser flags d), rc_held := rc_held s @ [a]\<rparr>)"
proof -
  have "execute (theCall s request opc expected parser flags) m = (Ok (mx_issued m), waiting s m expected parser flags d)"
    by (simp add: execute_connected [OF m(1,2)] requestHeader_call [where expected = expected and parser = parser] sd waiting_def m(3) eraseEntry_def Let_def)
  with m show ?thesis by (simp add: bindM_def ret_def submit_def onObject_def)
qed

lemma answer_read:
  assumes m: "mx_pending m = []" and d: "cn_connected d"
    and h: "avail d = encodeResponseStart (mx_clientIntelligence m) (mx_nextMessageId m) expected st update @ bodyBytes @ rest"
    and u: "\<forall>u. update = Some u \<longrightarrow> valid_update u"
    and y: "\<And>e. holds e (bodyBytes @ rest) \<Longrightarrow> yields e (parser st (mx_protocolVersion m) flags) body rest" and ex: "expected \<noteq> ERROR_RESPONSE"
  obtains m' e where "readIteration (waiting s m expected parser flags d) = (Ok True, m')"
    "mx_results m' = (mx_results m)(mx_issued m \<mapsto> answered st body (announced (mx_clientIntelligence m) update))"
    "mx_issued m' = Suc (mx_issued m)" "mx_pending m' = []" "mx_connection m' = Some e" "same_conn d e" "avail e = rest"
    "mx_connected m' = mx_connected m" "mx_readThread m' = mx_readThread m" "mx_hasCallback m' = mx_hasCallback m"
    "mx_clientIntelligence m' = mx_clientIntelligence m" "mx_protocolVersion m' = mx_protocolVersion m"
    "mx_nextMessageId m' = mx_nextMessageId m + 1"
    "mx_callbacks m' = mx_callbacks m @ (case announced (mx_clientIntelligence m) update of
       Some t \<Rightarrow> if mx_hasCallback m then [(t, rc_cacheName s)] else [] | None \<Rightarrow> [])"
proof -
  let ?m = "waiting s m expected parser flags d"
  let ?p = "\<lparr>pr_ticket = mx_issued m, pr_bodyParser = parser, pr_expectedOpcode = expected,
       pr_cacheName = rc_cacheName s, pr_flags = flags\<rparr>"
  have f: "mx_connection ?m = Some d" "map_of (mx_pending ?m) (mx_nextMessageId m) = Some ?p"
    "mx_protocolVersion ?m = mx_protocolVersion m" "mx_clientIntelligence ?m = mx_clientIntelligence m"
    by (simp_all add: waiting_def)
  have hd: "holds d (encodeResponseStart (mx_clientIntelligence ?m) (mx_nextMessageId m) expected st update @ bodyBytes @ rest)"
    using h d by (simp add: holds_def f(4))
  have y': "\<forall>e. holds e (bodyBytes @ rest) \<longrightarrow> yields e (pr_bodyParser ?p st (mx_protocolVersion ?m) (pr_flags ?p)) body rest"
    using y by (simp add: f)
  obtain d1 e where it: "readIteration ?m = (Ok True, setValue (mx_issued m) (answered st body (announced (mx_clientIntelligence m) update))
        ((taken \<lparr>st_messageId = mx_nextMessageId m, st_opcode = expected, st_status = st, st_topology = announced (mx_clientIntelligence m) update\<rparr> ?p
          ((afterTopology (announced (mx_clientIntelligence m) update) ?m)\<lparr>mx_connection := Some d1\<rparr>))\<lparr>mx_connection := Some e\<rparr>))"
      and e: "holds e rest" "same_conn d e"
    by (rule response_delivered [OF f(1) hd u f(2) _ ex y']) (simp_all add: f answered_def)
  show ?thesis
    by (rule that [OF it]) (use e [unfolded holds_def] m in \<open>auto simp: setValue_def taken_def waiting_def eraseEntry_def afterTopology_def split: option.splits\<close>)
qed

lemma idle_submit:
  assumes i: "idle s m c" and sd: "send (requestBytes s m request opc flags) c = (Ok (), d)"
  shows "submit (rc_connection s) (theCall s request opc expected parser flags) result s =
    (Ok \<lparr>fu_conn = rc_connection s, fu_ticket = mx_issued m, fu_result = result\<rparr>,
     s\<lparr>rc_store := (rc_store s)(rc_connection s \<mapsto> waiting s m expected parser flags d), rc_held := rc_held s @ [rc_connection s]\<rparr>)"
  using i by (intro submit_free [OF _ _ _ _ sd]) (simp_all add: idle_def)

lemma awaitAnswer_answered:
  "rc_store s (fu_conn f) = Some m \<Longrightarrow> mx_results m (fu_ticket f) \<noteq> None \<Longrightarrow> awaitAnswer patience f s = (Ok (), s)"
  by (cases patience) (auto simp: ret_def)

lemma deliver_announced:
  assumes held: "a \<in> set (rc_held s)" and st: "rc_store s a \<noteq> None"
  shows "\<exists>st. deliver a (case topo of Some t \<Rightarrow> [(t, name)] | None \<Rightarrow> []) s =
      (Ok (), (case topo of None \<Rightarrow> s | Some t \<Rightarrow> rerouted t s)\<lparr>rc_store := st\<rparr>) \<and>
    st a = rc_store s a \<and> (\<forall>b. st b = None \<or> st b = rc_store s b)"
proof (cases topo)
  case None
  then show ?thesis by (intro exI [of _ "rc_store s"]) (simp add: ret_def)
next
  case (Some t)
  obtain r s' where h: "handleTopologyUpdate a t name s = (r, s')" by (cases "handleTopologyUpdate a t name s")
  from topology_callback_keeps_held [OF h held st] have k: "r = Ok ()" "rc_store s' a = rc_store s a" by auto
  from handleTopologyUpdate_frame [OF h] obtain st where s': "s' = (rerouted t s)\<lparr>rc_store := st\<rparr>" by blast
  from h have "s' = foldl release (rerouted t s) (map snd (filter (\<lambda>e. fst e \<notin>
      set (map (\<lambda>server. poolKey (si_host server) (si_port server)) (ti_servers t))) (rc_pool s)))"
    by (auto simp: handleTopologyUpdate_eq Let_def simp del: set_map)
  then have "rc_store s' b = None \<or> rc_store s' b = rc_store s b" for b
    by (auto simp: store_releases rerouted_def)
  with k s' h Some show ?thesis by (intro exI [of _ st]) (simp add: bindM_def ret_def)
qed

lemma blockingGet_reads:
  assumes m: "rc_store s a = Some m" "mx_results m ticket = None" "mx_readThread m" and held: "a \<in> set (rc_held s)"
    and it: "readIteration m = (Ok True, m')" and res: "mx_results m' ticket = Some resp" "f resp = Ok v"
    and cb: "mx_callbacks m' = mx_callbacks m @ (case topo of Some t \<Rightarrow> [(t, name)] | None \<Rightarrow> [])" and inv: "cache_inv s"
  shows "\<exists>s'. blockingGet (Suc patience) \<lparr>fu_conn = a, fu_ticket = ticket, fu_result = f\<rparr> s = (Ok v, s') \<and> cache_inv s' \<and>
    (\<exists>st. s' = (case topo of None \<Rightarrow> s | Some t \<Rightarrow> rerouted t s)\<lparr>rc_store := st, rc_held := remove1 a (rc_held s)\<rparr> \<and>
       (\<forall>b. st b = None \<or> st b = ((rc_store s)(a \<mapsto> m')) b))"
proof -
  let ?s = "s\<lparr>rc_store := (rc_store s)(a \<mapsto> m')\<rparr>" and ?f = "\<lparr>fu_conn = a, fu_ticket = ticket, fu_result = f\<rparr>"
  let ?t = "case topo of None \<Rightarrow> ?s | Some t \<Rightarrow> rerouted t ?s"
  obtain st where d: "deliver a (case topo of Some t \<Rightarrow> [(t, name)] | None \<Rightarrow> []) ?s = (Ok (), ?t\<lparr>rc_store := st\<rparr>)"
    "st a = Some m'" "\<And>b. st b = None \<or> st b = rc_store ?s b"
    using deliver_announced [where a = a and s = ?s and topo = topo and name = name] held by auto
  let ?u = "?t\<lparr>rc_store := st\<rparr>"
  have read: "clientRead a s = (Ok True, ?u)"
    using m(1) it d(1) cb by (simp add: clientRead_def onReadThread_def bindM_def)
  have inv2: "cache_inv ?u" using almost_onReadThread [OF inv read [unfolded clientRead_def] readIteration_place] .
  let ?w = "release (?u\<lparr>rc_held := remove1 a (rc_held s)\<rparr>) a"
  have h: "rc_held ?u = rc_held s" by (simp add: rerouted_def split: option.split)
  then have g: "futureGet ?f ?u = (Ok v, ?w)" using d(2) res by (simp add: futureGet_def)
  have "awaitAnswer (Suc patience) ?f s = (Ok (), ?u)"
    using m read awaitAnswer_answered [of ?u ?f m' patience] d(2) res(1) by (simp add: bindM_def)
  with g have get: "blockingGet (Suc patience) ?f s = (Ok v, ?w)" by (simp add: blockingGet_def bindM_def)
  have "cache_inv ?w" using preserves_futureGet g inv2 unfolding preserves_def by blast
  moreover have "\<exists>st. ?w = (case topo of None \<Rightarrow> s | Some t \<Rightarrow> rerouted t s)\<lparr>rc_store := st, rc_held := remove1 a (rc_held s)\<rparr> \<and>
       (\<forall>b. st b = None \<or> st b = ((rc_store s)(a \<mapsto> m')) b)"
  proof -
    have "?w = (case topo of None \<Rightarrow> s | Some t \<Rightarrow> rerouted t s)\<lparr>rc_store := rc_store ?w, rc_held := remove1 a (rc_held s)\<rparr>"
      by (simp add: release_def rerouted_def split: option.split)
    moreover have "rc_store ?w b = None \<or> rc_store ?w b = ((rc_store s)(a \<mapsto> m')) b" for b
      using d(3) [of b] by (auto simp: release_def)
    ultimately show ?thesis by blast
  qed
  ultimately show ?thesis using get by blast
qed

lemma idle_answer:
  assumes i: "idle s m c" and d: "cn_connected d"
    and h: "avail d = encodeResponseStart ci (mx_nextMessageId m) expected st None @ bodyBytes @ rest"
    and inv: "cache_inv t" and t: "rc_store t (rc_connection t) = Some (waiting s m expected parser flags d)" "seedOnly t"
    and y: "\<And>e. holds e (bodyBytes @ rest) \<Longrightarrow> yields e (parser st (mx_protocolVersion m) flags) body rest" and ex: "expected \<noteq> ERROR_RESPONSE"
    and res: "result (answered st body None) = Ok v"
  shows "\<exists>m' d'. blockingGet (Suc patience) \<lparr>fu_conn = rc_connection t, fu_ticket = mx_issued m, fu_result = result\<rparr> t =
      (Ok v, t\<lparr>rc_store := (rc_store t)(rc_connection t \<mapsto> m'), rc_held := remove1 (rc_connection t) (rc_held t)\<rparr>) \<and>
    idle (t\<lparr>rc_store := (rc_store t)(rc_connection t \<mapsto> m'), rc_held := remove1 (rc_connection t) (rc_held t)\<rparr>) m' d' \<and>
    same_conn d d' \<and> avail d' = rest \<and> mx_nextMessageId m' = mx_nextMessageId m + 1 \<and>
    mx_protocolVersion m' = mx_protocolVersion m \<and> mx_clientIntelligence m' = mx_clientIntelligence m"
proof -
  let ?m = "waiting s m expected parser flags d"
  let ?f = "\<lparr>fu_conn = rc_connection t, fu_ticket = mx_issued m, fu_result = result\<rparr>"
  from i have m: "mx_connected m" "mx_readThread m" "mx_protocolVersion m \<ge> VERSION_40"
    "mx_pending m = []" "\<forall>t \<ge> mx_issued m. mx_results m t = None" by (simp_all add: idle_def)
  have h': "avail d = encodeResponseStart (mx_clientIntelligence m) (mx_nextMessageId m) expected st None @ bodyBytes @ rest"
    using h by (simp add: encodeResponseStart_def)
  obtain m' e where it: "readIteration ?m = (Ok True, m')" and e: "mx_connection m' = Some e" "same_conn d e" "avail e = rest"
    and m': "mx_results m' = (mx_results m)(mx_issued m \<mapsto> answered st body (announced (mx_clientIntelligence m) None))"
      "mx_issued m' = Suc (mx_issued m)" "mx_pending m' = []" "mx_connected m' = mx_connected m" "mx_readThread m' = mx_readThread m"
      "mx_clientIntelligence m' = mx_clientIntelligence m" "mx_protocolVersion m' = mx_protocolVersion m"
      "mx_nextMessageId m' = mx_nextMessageId m + 1"
    and cb: "mx_callbacks m' = mx_callbacks m @ (case announced (mx_clientIntelligence m) None of
      Some t \<Rightarrow> if mx_hasCallback m then [(t, rc_cacheName s)] else [] | None \<Rightarrow> [])"
    by (rule answer_read [where s = s and parser = parser and flags = flags and body = body, OF m(4) d h' _ y ex]) simp_all
  have n: "announced (mx_clientIntelligence m) None = None" by (simp add: announced_def)
  let ?t1 = "t\<lparr>rc_store := (rc_store t)(rc_connection t \<mapsto> m')\<rparr>"
  let ?t2 = "t\<lparr>rc_store := (rc_store t)(rc_connection t \<mapsto> m'), rc_held := remove1 (rc_connection t) (rc_held t)\<rparr>"
  have "mx_callbacks m' = mx_callbacks ?m" using cb n by (simp add: waiting_def)
  with t(1) it have read: "clientRead (rc_connection t) t = (Ok True, ?t1)"
    by (simp add: clientRead_def onReadThread_def bindM_def ret_def)
  have get: "futureGet ?f ?t1 = (Ok v, ?t2)"
    by (simp add: futureGet_def m' n res release_def referenced_def)
  have w: "mx_results ?m (mx_issued m) = None" "mx_readThread ?m" using m by (simp_all add: waiting_def)
  have "awaitAnswer (Suc patience) ?f t = (Ok (), ?t1)"
    using t(1) w read awaitAnswer_answered [of ?t1 ?f m' patience] by (simp add: bindM_def m'(1))
  with get have "blockingGet (Suc patience) ?f t = (Ok v, ?t2)" by (simp add: blockingGet_def bindM_def)
  moreover have "cache_inv ?t1" using almost_onReadThread [OF inv read [unfolded clientRead_def] readIteration_place] .
  with get have "cache_inv ?t2" using preserves_futureGet [of ?f] unfolding preserves_def by blast
  then have "idle ?t2 m' e" using t(2) e m m' d by (auto simp: idle_def seedOnly_def same_conn_connected)
  ultimately show ?thesis using e m' by auto
qed

text \<open>Connecting a fresh client with default settings.\<close>

lemma tryAddresses_script: "sendScript (tryAddresses as c) = sendScript c"
  by (induction as c rule: tryAddresses.induct) auto

lemma settings_inv: "cache_inv (setProxyToNonOwner proxy (cacheSetClientIntelligence ci (newRemoteCache host port name)))"
  using cache_inv_new [of host port name]
  by (simp add: setProxyToNonOwner_def cacheSetClientIntelligence_def almost_def pooled_def referenced_def)

lemma connect_idle:
  assumes net: "en_network env host port 0 = net" "nw_resolved net = Inr as" "\<exists>a \<in> set as. attemptSucceeds a"
  shows "\<exists>s m c. cacheConnect env (setProxyToNonOwner proxy (cacheSetClientIntelligence ci (newRemoteCache host port name))) = (Ok (), s) \<and> idle s m c \<and> rc_cacheName s = name \<and>
    incoming c = nw_incoming net \<and> sendScript c = nw_sendScript net \<and> sent c = [] \<and> mx_nextMessageId m = 0 \<and> mx_clientIntelligence m = ci \<and> cn_socket c"
proof -
  let ?c = "tryAddresses as (newConnection host port (nw_incoming net) (nw_sendScript net))"
  let ?m = "(newMultiplexedConnection host port True)\<lparr>mx_clientIntelligence := ci, mx_connection := Some ?c, mx_connected := True, mx_readThread := True,
    mx_joinable := True\<rparr>"
  let ?s = "(newRemoteCache host port name)\<lparr>rc_clientIntelligence := ci, rc_proxyToNonOwner := proxy, rc_store := [0 \<mapsto> ?m], rc_attempts := 1\<rparr>"
  have c: "cn_connected ?c" using net(3) by (simp add: tryAddresses_connected)
  then have so: "cn_socket ?c" using tryAddresses_socket [of "newConnection host port (nw_incoming net) (nw_sendScript net)" as]
    by (simp add: newConnection_def)
  have run: "cacheConnect env (setProxyToNonOwner proxy (cacheSetClientIntelligence ci (newRemoteCache host port name))) = (Ok (), ?s)"
    using net(1,2) c by (simp add: setProxyToNonOwner_def cacheSetClientIntelligence_def cacheConnect_def connectObject_def newRemoteCache_def newMultiplexedConnection_def onObject_def bindM_def
        setProtocolVersion_def setClientIntelligence_def setAuthentication_def modifyC_def muxConnect_def modifyM_def onMux_def connect_def
        muxAuthenticate_def defaultAuthentication_def ret_def newConnection_def Let_def)
  then have "cache_inv ?s"
    using preserves_at [of "\<lambda>s. connectObject env (rc_connection s)", OF preserves_connectObject] settings_inv
    unfolding preserves_def cacheConnect_def by blast
  with c have "idle ?s ?m ?c"
    by (simp add: idle_def seedOnly_def newRemoteCache_def newMultiplexedConnection_def VERSION_40_def VERSION_41_def
        ch_hasHashTopology_def newConsistentHash_def newTopologyInfo_def)
  with run so show ?thesis
    by (intro exI [of _ ?s] exI [of _ ?m] exI [of _ ?c])
      (simp add: tryAddresses_frame tryAddresses_script newConnection_def newRemoteCache_def newMultiplexedConnection_def)
qed

text \<open>With the settings left as they are.\<close>

lemma default_settings: "setProxyToNonOwner True (cacheSetClientIntelligence BASIC (newRemoteCache host port name)) = newRemoteCache host port name"
  by (simp add: setProxyToNonOwner_def cacheSetClientIntelligence_def newRemoteCache_def)

lemmas connect_idle_default = connect_idle [where ci = BASIC and proxy = True, unfolded default_settings]


end
