(* ===== verification/Cluster.thy ===== *)
theory Cluster
  imports Exchange
begin

text \<open>
  The client of a cluster between two operations: connections come and go with the topology, and each of them
  has nothing in flight. What acquiring a connection, submitting a request and taking in its answer make of
  such a client.
\<close>

section \<open>What a network takes\<close>

lemma send_accepted:
  assumes "cn_connected c" and "sendScript c = map SendAccepts (k # ks)" and "data \<noteq> []" and "length data \<le> k"
  shows "send data c = (Ok (), c\<lparr>sent := sent c @ data, sendScript := map SendAccepts ks\<rparr>)"
  using assms by (cases data) (simp_all add: send_def)

lemma length_var: "length (writeVInt [] v) \<le> 5" "length (writeVLong [] l) \<le> 10"
  using varint_minimal_length [of v 0 l] by simp_all

lemma length_lp: "length (writeByteArray [] b) \<le> 5 + length b" "length (writeString [] x) \<le> 5 + length x"
  using length_var(1) [of "word_of_nat (length b)"] length_var(1) [of "word_of_nat (length x)"] length_var(1) [of 0]
  by (auto simp: writeByteArray_def writeString_def bytes_of_string_def)

lemma length_header:
  assumes "fits32 (rq_cacheName h)" and "rq_otherParams h = []"
  shows "length (writeRequestHeader [] h) \<le> 2 ^ 34"
  using assms length_var(2) [of "rq_messageId h"] length_lp(2) [of "rq_cacheName h"] length_var(1) [of "rq_flags h"]
    length_var(1) [of "rq_topologyId h"] length_var(1) [of 0]
  by (auto simp: writeRequestHeader_eq encodeTail40_def)

text \<open>A network that takes 2^35 bytes at a time takes any request at once.\<close>

lemma request_accepted:
  assumes "cn_connected c" and "fits32 (rc_cacheName s)" and "sendScript c = map SendAccepts (k # ks)" and "2 ^ 35 \<le> k" and "length request \<le> 2 ^ 34"
  shows "send (requestBytes s m request opc flags) c =
    (Ok (), c\<lparr>sent := sent c @ requestBytes s m request opc flags, sendScript := map SendAccepts ks\<rparr>)"
proof -
  let ?h = "requestHeader (mx_nextMessageId m) (theCall s request opc 0 getParser flags) m"
  have "length (writeRequestHeader [] ?h @ request) \<le> k"
    using length_header [of ?h] assms(2,4,5) by (simp add: requestHeader_def)
  with assms(1,3) show ?thesis by (intro send_accepted) (simp_all add: writeRequestHeader_eq)
qed

text \<open>A stream that has been read to its open end, and then gets more.\<close>

lemma stream_append: "ending evs = [] \<Longrightarrow> stream (evs @ [RecvData xs]) = stream evs @ xs \<and> ending (evs @ [RecvData xs]) = []"
  by (induction evs rule: ending.induct) auto

section \<open>A client between two operations\<close>

text \<open>A connection with nothing in flight, on a network that takes \<open>n\<close> more requests at once.\<close>

definition flowing :: "nat \<Rightarrow> Connection \<Rightarrow> bool" where
  "flowing n c \<longleftrightarrow> cn_connected c \<and> avail c = [] \<and> ending (incoming c) = [] \<and>
     (\<exists>ns. sendScript c = map SendAccepts ns \<and> n \<le> length ns \<and> (\<forall>k \<in> set ns. 2 ^ 35 \<le> k))"

definition resting :: "ClientIntelligence \<Rightarrow> nat \<Rightarrow> nat \<Rightarrow> MultiplexedConnection \<Rightarrow> bool" where
  "resting ci n rd m \<longleftrightarrow> mx_connected m \<and> mx_readThread m \<and> mx_hasCallback m \<and> mx_protocolVersion m = VERSION_41 \<and>
     mx_clientIntelligence m = ci \<and> mx_pending m = [] \<and> (\<forall>t \<ge> mx_issued m. mx_results m t = None) \<and>
     (\<exists>c. mx_connection m = Some c \<and> flowing n c \<and> rd = length (sent c))"

definition openNetwork :: "Environment \<Rightarrow> nat \<Rightarrow> bool" where
  "openNetwork env n \<longleftrightarrow> (\<forall>host port attempt. nw_incoming (en_network env host port attempt) = [] \<and>
     (\<exists>ns. nw_sendScript (en_network env host port attempt) = map SendAccepts ns \<and> n \<le> length ns \<and> (\<forall>k \<in> set ns. 2 ^ 35 \<le> k)))"

definition attemptWorks :: "Environment \<Rightarrow> string \<Rightarrow> 16 word \<Rightarrow> nat \<Rightarrow> bool" where
  "attemptWorks env host port attempt \<longleftrightarrow>
     (case nw_resolved (en_network env host port attempt) of Inl e \<Rightarrow> False | Inr as \<Rightarrow> list_ex attemptSucceeds as)"

definition accepting :: "Environment \<Rightarrow> ServerAddress \<Rightarrow> bool" where
  "accepting env a \<longleftrightarrow> (\<forall>attempt. attemptWorks env (sa_host a) (sa_port a) attempt)"

definition someAccepting :: "Environment \<Rightarrow> ServerAddress list \<Rightarrow> bool" where
  "someAccepting env as \<longleftrightarrow> list_ex (accepting env) as"

text \<open>A client between two operations; \<open>rd a\<close> is the number of bytes the server has read from the connection at \<open>a\<close>.\<close>

definition tidy :: "Environment \<Rightarrow> bool \<Rightarrow> nat \<Rightarrow> (nat \<Rightarrow> nat) \<Rightarrow> RemoteCache \<Rightarrow> bool" where
  "tidy env available n rd s \<longleftrightarrow> cache_inv s \<and> rc_held s = [] \<and> openNetwork env n \<and>
     (\<forall>a m. rc_store s a = Some m \<longrightarrow> resting (rc_clientIntelligence s) n (rd a) m) \<and> (\<forall>a \<ge> rc_fresh s. rd a = 0) \<and>
     rc_protocolVersion s = VERSION_41 \<and> \<not> au_enabled (rc_auth s) \<and> fits32 (rc_cacheName s) \<and>
     (available \<longrightarrow> rc_proxyToNonOwner s \<and> (ti_servers (rc_topology s) = [] \<or> someAccepting env (map address (ti_servers (rc_topology s)))))"

lemma resting_mono: "resting ci n rd m \<Longrightarrow> k \<le> n \<Longrightarrow> resting ci k rd m"
  unfolding resting_def flowing_def by (auto intro: order.trans)

lemma createConnection_runs:
  "createConnection env server s = (let a = rc_fresh s; 
      (r, t) = connectObject env a (s\<lparr>rc_fresh := Suc a, rc_store := (rc_store s)(a \<mapsto> newMultiplexedConnection (si_host server) (si_port server) True)\<rparr>)
    in case r of
      Ok u \<Rightarrow> (Ok a, t\<lparr>rc_pool := (poolKey (si_host server) (si_port server), a) # eraseEntry (poolKey (si_host server) (si_port server)) (rc_pool t)\<rparr>)
    | Throw e \<Rightarrow> (Throw e, release t a) | Block \<Rightarrow> (Block, t) | UB \<Rightarrow> (UB, t))"
  by (simp add: createConnection_def Let_def bindM_def modifyC_def catchM_def ret_def throw_def split: prod.splits outcome.splits)

text \<open>Connecting an object that was just made: it fails, or is resting.\<close>

lemma connectObject_new:
  assumes net: "openNetwork env n" and m: "rc_store s a = Some (newMultiplexedConnection host port True)"
    and s: "rc_protocolVersion s = VERSION_41" "\<not> au_enabled (rc_auth s)"
  shows "(\<exists>m e. connectObject env a s = (Throw e, s\<lparr>rc_store := (rc_store s)(a \<mapsto> m), rc_attempts := Suc (rc_attempts s)\<rparr>) \<and>
      \<not> attemptWorks env host port (rc_attempts s)) \<or>
    (\<exists>m. connectObject env a s = (Ok (), s\<lparr>rc_store := (rc_store s)(a \<mapsto> m), rc_attempts := Suc (rc_attempts s)\<rparr>) \<and>
      resting (rc_clientIntelligence s) n 0 m)"
proof -
  let ?net = "en_network env host port (rc_attempts s)"
  obtain ns where ns: "nw_incoming ?net = []" "nw_sendScript ?net = map SendAccepts ns" "n \<le> length ns" "\<forall>k \<in> set ns. 2 ^ 35 \<le> k"
    using net unfolding openNetwork_def by blast
  let ?m = "(newMultiplexedConnection host port True)\<lparr>mx_clientIntelligence := rc_clientIntelligence s, mx_auth := rc_auth s\<rparr>"
  let ?new = "newConnection host port [] (map SendAccepts ns)"
  have run: "connectObject env a s = (case muxConnect (en_crypto env) ?net ?m of
     (r, m) \<Rightarrow> (r, s\<lparr>rc_store := (rc_store s)(a \<mapsto> m), rc_attempts := Suc (rc_attempts s)\<rparr>))"
    using m s by (simp add: connectObject_def onObject_def bindM_def setProtocolVersion_def setClientIntelligence_def setAuthentication_def
      modifyC_def newMultiplexedConnection_def ret_def split: prod.split)
  obtain r d where c: "connect (nw_resolved ?net) ?new = (r, d)" by (cases "connect (nw_resolved ?net) ?new")
  have m': "mx_host ?m = host" "mx_port ?m = port" "\<not> mx_connected ?m" "\<not> mx_joinable ?m" "mx_auth ?m = rc_auth s"
    by (simp_all add: newMultiplexedConnection_def)
  have mux: "muxConnect (en_crypto env) ?net ?m = (case r of
      Ok u \<Rightarrow> (Ok (), ?m\<lparr>mx_connection := Some d, mx_connected := True, mx_stopReadLoop := False, mx_readThread := True, mx_joinable := True\<rparr>)
    | Throw e \<Rightarrow> (Throw e, ?m\<lparr>mx_connection := Some d\<rparr>) | Block \<Rightarrow> (Block, ?m\<lparr>mx_connection := Some d\<rparr>) | UB \<Rightarrow> (UB, ?m\<lparr>mx_connection := Some d\<rparr>))"
    using c m' s(2) ns(1,2) by (cases r) (simp_all add: muxConnect_def bindM_def modifyM_def onMux_def muxAuthenticate_def ret_def)
  show ?thesis
  proof (cases "attemptWorks env host port (rc_attempts s)")
    case True
    then obtain as where as: "nw_resolved ?net = Inr as" "\<exists>x \<in> set as. attemptSucceeds x"
      by (auto simp: attemptWorks_def list_ex_iff split: sum.splits)
    then have "cn_connected (tryAddresses as ?new)" by (simp add: tryAddresses_connected)
    with c as(1) have "r = Ok ()" "d = tryAddresses as ?new" "cn_connected d"
      by (auto simp: connect_def newConnection_def Let_def ret_def)
    moreover have "resting (rc_clientIntelligence s) n 0
      (?m\<lparr>mx_connection := Some d, mx_connected := True, mx_stopReadLoop := False, mx_readThread := True, mx_joinable := True\<rparr>)"
      using ns calculation by (auto simp: resting_def flowing_def newMultiplexedConnection_def tryAddresses_frame tryAddresses_script newConnection_def avail_def)
    moreover have "connectObject env a s = (Ok (), s\<lparr>rc_store := (rc_store s)(a \<mapsto>
      ?m\<lparr>mx_connection := Some d, mx_connected := True, mx_stopReadLoop := False, mx_readThread := True, mx_joinable := True\<rparr>),
      rc_attempts := Suc (rc_attempts s)\<rparr>)" unfolding run mux using calculation(1) by simp
    ultimately show ?thesis by blast
  next
    case False
    then have "\<exists>e. r = Throw e" using c
      by (cases "nw_resolved ?net") (auto simp: attemptWorks_def list_ex_iff connect_def newConnection_def Let_def throw_def tryAddresses_connected split: if_splits)
    with False show ?thesis unfolding run mux by auto
  qed
qed

lemma createConnection_tidy:
  assumes t: "tidy env available n rd s" and key: "map_of (rc_pool s) (poolKey (si_host server) (si_port server)) = None"
    and c: "createConnection env server s = (r, s')"
  shows "tidy env available n rd s' \<and> same_routing s s' \<and> ((\<exists>e. r = Throw e) \<and> \<not> accepting env (address server) \<or> (\<exists>a. r = Ok a))"
proof -
  let ?a = "rc_fresh s"
  let ?s1 = "s\<lparr>rc_fresh := Suc ?a, rc_store := (rc_store s)(?a \<mapsto> newMultiplexedConnection (si_host server) (si_port server) True)\<rparr>"
  from t have inv: "cache_inv s" and net: "openNetwork env n" and set: "rc_protocolVersion ?s1 = VERSION_41" "\<not> au_enabled (rc_auth ?s1)"
    by (simp_all add: tidy_def)
  note out = createConnection_outcomes [OF inv key c]
  have old: "resting (rc_clientIntelligence s) n (rd b) m" if "rc_store s b = Some m" for b m using t that by (simp add: tidy_def)
  have "rc_store ?s1 ?a = Some (newMultiplexedConnection (si_host server) (si_port server) True)" by simp
  from connectObject_new [OF net this set] consider
    (no) m e where "connectObject env ?a ?s1 = (Throw e, ?s1\<lparr>rc_store := (rc_store ?s1)(?a \<mapsto> m), rc_attempts := Suc (rc_attempts ?s1)\<rparr>)"
      "\<not> accepting env (address server)"
  | (yes) m where "connectObject env ?a ?s1 = (Ok (), ?s1\<lparr>rc_store := (rc_store ?s1)(?a \<mapsto> m), rc_attempts := Suc (rc_attempts ?s1)\<rparr>)"
      "resting (rc_clientIntelligence s) n 0 m"
    by (auto simp: address_def accepting_def)
  then show ?thesis
  proof cases
    case no
    let ?t = "?s1\<lparr>rc_store := (rc_store ?s1)(?a \<mapsto> m), rc_attempts := Suc (rc_attempts ?s1)\<rparr>"
    from no(1) c have r: "r = Throw e" "s' = release ?t ?a" by (simp_all add: createConnection_runs Let_def)
    with out have k: "cache_inv s'" "same_routing s s'" by auto
    have "\<not> referenced ?t ?a" using inv by (auto simp: almost_def referenced_def)
    with r(2) have s': "s' = ?t\<lparr>rc_store := (rc_store ?t)(?a := None)\<rparr>" by (simp add: release_def)
    have "tidy env available n rd s'" using t k(1) old unfolding tidy_def s' by auto
    then show ?thesis using k r no(2) by simp
  next
    case yes
    from yes(1) c have r: "r = Ok ?a" "s' = ?s1\<lparr>rc_store := (rc_store s)(?a \<mapsto> m), rc_attempts := Suc (rc_attempts s),
        rc_pool := (poolKey (si_host server) (si_port server), ?a) # rc_pool s\<rparr>"
      using key by (simp_all add: createConnection_runs Let_def eraseEntry_absent)
    with out have k: "cache_inv s'" "same_routing s s'" by auto
    have "tidy env available n rd s'" using t k(1) old yes(2) unfolding tidy_def r(2) by (auto simp: fun_upd_apply)
    then show ?thesis using k r by simp
  qed
qed

lemma getConnection_tidy:
  assumes t: "tidy env available n rd s" and c: "getConnectionForServer env server s = (r, s')"
  shows "tidy env available n rd s' \<and> same_routing s s' \<and>
    ((\<exists>e. r = Throw e) \<and> \<not> accepting env (address server) \<or> (\<exists>a m. r = Ok a \<and> rc_store s' a = Some m))"
proof (cases "map_of (rc_pool s) (poolKey (si_host server) (si_port server))")
  case None
  with c have c': "createConnection env server s = (r, s')" by (simp add: getConnectionForServer_def)
  have "cache_inv s" using t by (simp add: tidy_def)
  from createConnection_tidy [OF t None c'] getConnectionForServer_outcomes [OF this c] show ?thesis by (auto simp: at_address_def)
next
  case (Some a)
  then have "(poolKey (si_host server) (si_port server), a) \<in> set (rc_pool s)" by (rule map_of_SomeD)
  with t obtain m where m: "rc_store s a = Some m" by (auto simp: tidy_def almost_def pooled_def)
  with t have "mx_connected m" by (auto simp: tidy_def resting_def)
  with c Some m have "r = Ok a" "s' = s" by (simp_all add: getConnectionForServer_def ret_def)
  with m t show ?thesis by simp
qed

lemma tryCandidates_tidy:
  "tidy env available n rd s \<Longrightarrow> tryCandidates env cs tried s = (r, s') \<Longrightarrow>
    tidy env available n rd s' \<and> same_routing s s' \<and> ((\<exists>a m tried'. r = Ok (Some a, tried') \<and> rc_store s' a = Some m) \<or>
      r = Ok (None, tried @ cs) \<and> \<not> someAccepting env cs)"
proof (induction cs arbitrary: tried s)
  case Nil
  then show ?case by (simp add: ret_def someAccepting_def)
next
  case (Cons c cs)
  obtain q s1 where g: "getConnectionForServer env (serverOf c) s = (q, s1)" by (cases "getConnectionForServer env (serverOf c) s")
  have ad: "address (serverOf c) = c" by (simp add: address_def serverOf_def)
  from getConnection_tidy [OF Cons.prems(1) g] have t1: "tidy env available n rd s1" "same_routing s s1"
    and o: "(\<exists>e. q = Throw e) \<and> \<not> accepting env c \<or> (\<exists>a m. q = Ok a \<and> rc_store s1 a = Some m)" unfolding ad by auto
  from o show ?case
  proof (elim disjE conjE exE)
    fix e assume "q = Throw e" and no: "\<not> accepting env c"
    with Cons.prems(2) g have "tryCandidates env cs (tried @ [c]) s1 = (r, s')" by (simp add: tryCandidates_Cons)
    from Cons.IH [OF t1(1) this] t1(2) no show ?case by (auto simp: someAccepting_def intro: same_routing_trans)
  next
    fix a m assume "q = Ok a" "rc_store s1 a = Some m"
    with Cons.prems(2) g t1 show ?case by (auto simp: tryCandidates_Cons)
  qed
qed

lemma select_tidy:
  assumes t: "tidy env available n rd s" and sel: "selectServerForKey env key noExclusions s = (r, s')"
  shows "tidy env available n rd s' \<and> same_routing s s' \<and> ((\<exists>a m tried. r = Ok (a, tried) \<and> rc_store s' a = Some m) \<or>
    \<not> available \<and> (\<exists>x. r = Throw (HotRod x) \<and> phase x = BeforeSend))"
proof (cases "routesByHash s key")
  case False
  from selectServerForKey_seed [OF this] sel have "(r, s') = (Ok (rc_connection s, []), s)" by metis
  then have "r = Ok (rc_connection s, [])" "s' = s" by simp_all
  moreover from t have "\<exists>m. rc_store s (rc_connection s) = Some m" by (intro cache_inv_alive) (auto simp: tidy_def referenced_def)
  ultimately show ?thesis using t by auto
next
  case True
  note run = selectServerForKey_routed [OF True, symmetric, THEN trans, OF sel]
  let ?cs = "keyCandidates s key noExclusions"
  obtain q u where q: "tryCandidates env ?cs [] s = (q, u)" by (cases "tryCandidates env ?cs [] s")
  note tr = tryCandidates_tidy [OF t q]
  have "someAccepting env ?cs" if available
  proof -
    have "ti_servers (rc_topology s) \<noteq> []" using True getOwners_servers [of key "rc_topology s" "rc_consistentHash s"]
      by (auto simp: routesByHash_def)
    with t that show ?thesis by (auto simp: tidy_def someAccepting_def list_ex_iff keyCandidates_def noExclusions_def)
  qed
  moreover from tr have "(\<exists>a tried. r = Ok (a, tried) \<and> q = Ok (Some a, tried) \<and> s' = u) \<or>
      (\<exists>x. r = Throw (HotRod x) \<and> phase x = BeforeSend \<and> q = Ok (None, ?cs) \<and> s' = u)"
    using run q by (auto simp: bindM_def ret_def throw_def hotrod_exn_def)
  ultimately show ?thesis using tr by auto
qed

lemma same_routing_settings: "same_routing s t \<Longrightarrow> rc_clientIntelligence t = rc_clientIntelligence s"
  by (erule same_routingE) simp

lemma tidy_less: "tidy env available (Suc n) rd s \<Longrightarrow> tidy env available n rd s"
proof -
  have "openNetwork env (Suc n) \<Longrightarrow> openNetwork env n" unfolding openNetwork_def by (meson Suc_leD)
  then show "tidy env available (Suc n) rd s \<Longrightarrow> tidy env available n rd s"
    using resting_mono [of _ "Suc n" _ _ n] by (fastforce simp: tidy_def)
qed
lemma tidy_rerouted:
  assumes t: "tidy env available (Suc n) rd s" and a: "rc_store s a \<noteq> None" and inv: "cache_inv s'"
    and s': "s' = (case announced (rc_clientIntelligence s) update of None \<Rightarrow> s | Some topo \<Rightarrow> rerouted topo s)\<lparr>rc_store := st, rc_held := []\<rparr>"
    and st: "\<And>b. st b = None \<or> st b = ((rc_store s)(a \<mapsto> m')) b" and m': "resting (rc_clientIntelligence s) n k m'"
    and u: "\<forall>u. update = Some u \<longrightarrow> available \<longrightarrow> someAccepting env (up_addresses u)"
  shows "tidy env available n (rd(a := k)) s' \<and> rc_clientIntelligence s' = rc_clientIntelligence s"
proof -
  let ?ci = "rc_clientIntelligence s"
  have f: "rc_clientIntelligence s' = ?ci" "rc_held s' = []" "rc_store s' = st" "rc_fresh s' = rc_fresh s"
    "rc_protocolVersion s' = rc_protocolVersion s" "rc_auth s' = rc_auth s" "rc_cacheName s' = rc_cacheName s"
    "rc_proxyToNonOwner s' = rc_proxyToNonOwner s"
    by (simp_all add: s' rerouted_def split: option.split)
  have tp: "rc_topology s' = (case announced ?ci update of None \<Rightarrow> rc_topology s | Some topo \<Rightarrow> topo)"
    by (simp add: s' rerouted_def split: option.split)
  note t' = tidy_less [OF t]
  have "a < rc_fresh s" using t a by (auto simp: tidy_def almost_def)
  then have fresh: "\<forall>b \<ge> rc_fresh s'. (rd(a := k)) b = 0" using t' f(4) by (auto simp: tidy_def)
  have rest: "resting ?ci n ((rd(a := k)) b) m" if "st b = Some m" for b m
    using st [of b] that t' m' by (auto simp: tidy_def split: if_splits)
  have "ti_servers (rc_topology s') = [] \<or> someAccepting env (map address (ti_servers (rc_topology s')))" if available
  proof (cases "announced ?ci update")
    case None
    with t' that show ?thesis by (auto simp: tidy_def tp)
  next
    case (Some topo)
    then obtain u where "update = Some u" "topo = topologyOf ?ci u newTopologyInfo" by (auto simp: announced_def split: if_splits)
    moreover have "ti_servers (topologyOf ?ci u newTopologyInfo) = serversOf (up_addresses u)" by (simp add: topologyOf_def Let_def)
    ultimately show ?thesis using u that Some
      by (simp add: tp someAccepting_def list_ex_iff address_serversOf)
  qed
  with t' f fresh rest inv show ?thesis unfolding tidy_def by simp
qed


lemma resting_accepts:
  assumes m: "resting ci (Suc n) rd m" and name: "fits32 (rc_cacheName s)" and len: "length request \<le> 2 ^ 34"
  obtains c d where "mx_connection m = Some c" "send (requestBytes s m request opc flags) c = (Ok (), d)"
    "flowing n d" "drop rd (sent d) = requestBytes s m request opc flags"
proof -
  from m obtain c k ks where c: "mx_connection m = Some c" "cn_connected c" "avail c = []" "ending (incoming c) = []" "rd = length (sent c)"
    "sendScript c = map SendAccepts (k # ks)" "n \<le> length ks" "\<forall>k \<in> set (k # ks). 2 ^ 35 \<le> k"
    unfolding resting_def flowing_def by (fastforce simp: Suc_le_length_iff)
  with request_accepted [OF c(2) name c(6) _ len, of m opc flags] show ?thesis by (intro that) (auto simp: flowing_def avail_def)
qed

lemma submit_tidy:
  assumes t: "tidy env available (Suc n) rd s" and a: "rc_store s a = Some m" and len: "length request \<le> 2 ^ 34"
  obtains d where "submit a (theCall s request opc expected parser flags) result s =
      (Ok \<lparr>fu_conn = a, fu_ticket = mx_issued m, fu_result = result\<rparr>,
       s\<lparr>rc_store := (rc_store s)(a \<mapsto> waiting s m expected parser flags d), rc_held := [a]\<rparr>)"
    "flowing n d" "drop (rd a) (sent d) = requestBytes s m request opc flags"
proof -
  from t a have m: "resting (rc_clientIntelligence s) (Suc n) (rd a) m" and s: "fits32 (rc_cacheName s)" "rc_held s = []" by (auto simp: tidy_def)
  then have mm: "mx_connected m" "mx_pending m = []" by (simp_all add: resting_def)
  obtain c d where c: "mx_connection m = Some c" and d: "send (requestBytes s m request opc flags) c = (Ok (), d)"
    "flowing n d" "drop (rd a) (sent d) = requestBytes s m request opc flags"
    by (rule resting_accepts [OF m s(1) len])
  from submit_free [OF mm(1) c mm(2) a d(1), of expected parser result] s(2) d(2,3) show ?thesis by (intro that) simp_all
qed

lemma answer_tidy:
  assumes t: "tidy env available (Suc n) rd s" and a: "rc_store s a = Some m" and d: "flowing n d"
    and resp: "resp = encodeResponseStart (rc_clientIntelligence s) (mx_nextMessageId m) expected st update @ encodeBody body"
    and u: "\<forall>u. update = Some u \<longrightarrow> valid_update u \<and> (available \<longrightarrow> someAccepting env (up_addresses u))"
    and legal: "legal opn st body" and ex: "expected \<noteq> ERROR_RESPONSE" and res: "\<And>topo. result (answered st body topo) = Ok v"
    and w: "w = s\<lparr>rc_store := (rc_store s)(a \<mapsto> waiting s m expected (parserOf opn) flags (d\<lparr>incoming := incoming d @ [RecvData resp]\<rparr>)), rc_held := [a]\<rparr>"
    and inv: "cache_inv w"
  shows "\<exists>s'. blockingGet (Suc patience) \<lparr>fu_conn = a, fu_ticket = mx_issued m, fu_result = result\<rparr> w = (Ok v, s') \<and>
    tidy env available n (rd(a := length (sent d))) s' \<and> rc_clientIntelligence s' = rc_clientIntelligence s"
proof -
  let ?e = "d\<lparr>incoming := incoming d @ [RecvData resp]\<rparr>" and ?ci = "rc_clientIntelligence s"
  let ?m = "waiting s m expected (parserOf opn) flags ?e"
  from t a have m: "resting ?ci (Suc n) (rd a) m" by (simp add: tidy_def)
  then have mm: "mx_pending m = []" "mx_readThread m" "mx_hasCallback m" "mx_clientIntelligence m = ?ci" "mx_protocolVersion m = VERSION_41"
    "mx_results m (mx_issued m) = None" by (auto simp: resting_def)
  have av: "avail ?e = encodeResponseStart (mx_clientIntelligence m) (mx_nextMessageId m) expected st update @ encodeBody body @ []"
    "ending (incoming ?e) = []" "cn_connected ?e"
    using stream_append [of "incoming d" resp] d by (simp_all add: flowing_def avail_def resp mm(4))
  have y: "\<And>d. holds d (encodeBody body @ []) \<Longrightarrow> yields d (parserOf opn st (mx_protocolVersion m) flags) body []"
    using legal_body_consumed [OF legal] by (simp add: mm(5) VERSION_40_def VERSION_41_def)
  have u': "\<forall>u. update = Some u \<longrightarrow> valid_update u" using u by blast
  obtain m' e where it: "readIteration ?m = (Ok True, m')"
    and m': "mx_results m' = (mx_results m)(mx_issued m \<mapsto> answered st body (announced (mx_clientIntelligence m) update))"
      "mx_issued m' = Suc (mx_issued m)" "mx_pending m' = []" "mx_connection m' = Some e" "same_conn ?e e" "avail e = []"
      "mx_connected m' = mx_connected m" "mx_readThread m' = mx_readThread m" "mx_hasCallback m' = mx_hasCallback m"
      "mx_clientIntelligence m' = mx_clientIntelligence m" "mx_protocolVersion m' = mx_protocolVersion m"
    and cb: "mx_callbacks m' = mx_callbacks m @ (case announced (mx_clientIntelligence m) update of
      Some t \<Rightarrow> if mx_hasCallback m then [(t, rc_cacheName s)] else [] | None \<Rightarrow> [])"
    by (rule answer_read [where s = s and parser = "parserOf opn" and flags = flags and body = body and bodyBytes = "encodeBody body" and rest = "[]", OF mm(1) av(3,1) u' y ex])
  have cb': "mx_callbacks m' = mx_callbacks ?m @ (case announced ?ci update of Some t \<Rightarrow> [(t, rc_cacheName s)] | None \<Rightarrow> [])"
    using cb mm(3,4) by (simp add: waiting_def cong: option.case_cong)
  have rm: "resting ?ci n (length (sent d)) m'"
    using m'(5) m d av(2) by (auto simp: resting_def flowing_def m' same_conn_def)
  have w2: "rc_store w a = Some ?m" "mx_results ?m (mx_issued m) = None" "mx_readThread ?m" "a \<in> set (rc_held w)"
    using mm by (simp_all add: w waiting_def)
  have r2: "mx_results m' (mx_issued m) = Some (answered st body (announced (mx_clientIntelligence m) update))" by (simp add: m'(1))
  obtain s' stt where get: "blockingGet (Suc patience) \<lparr>fu_conn = a, fu_ticket = mx_issued m, fu_result = result\<rparr> w = (Ok v, s')" and inv': "cache_inv s'"
    and s': "s' = (case announced ?ci update of None \<Rightarrow> w | Some t \<Rightarrow> rerouted t w)\<lparr>rc_store := stt, rc_held := remove1 a (rc_held w)\<rparr>"
      "\<And>b. stt b = None \<or> stt b = ((rc_store w)(a \<mapsto> m')) b"
    using blockingGet_reads [where f = result, OF w2 it r2 res cb' inv] by blast
  have "s' = (case announced ?ci update of None \<Rightarrow> s | Some topo \<Rightarrow> rerouted topo s)\<lparr>rc_store := stt, rc_held := []\<rparr>"
    using s'(1) by (simp add: w rerouted_def split: option.split)
  from tidy_rerouted [OF t _ inv' this, of a m' "length (sent d)"] s'(2) rm u a get show ?thesis by (fastforce simp: w)
qed

text \<open>A fresh client, connected.\<close>

lemma connect_tidy:
  assumes net: "openNetwork env n" and name: "fits32 name" and first: "attemptWorks env host port 0" and proxy: "available \<longrightarrow> proxy"
  shows "\<exists>s. cacheConnect env (setProxyToNonOwner proxy (cacheSetClientIntelligence ci (newRemoteCache host port name))) = (Ok (), s) \<and>
    tidy env available n (\<lambda>_. 0) s \<and> rc_clientIntelligence s = ci"
proof -
  let ?s = "(newRemoteCache host port name)\<lparr>rc_clientIntelligence := ci, rc_proxyToNonOwner := proxy\<rparr>"
  have s: "setProxyToNonOwner proxy (cacheSetClientIntelligence ci (newRemoteCache host port name)) = ?s"
    by (simp add: setProxyToNonOwner_def cacheSetClientIntelligence_def)
  have "rc_store ?s 0 = Some (newMultiplexedConnection host port True)" "rc_attempts ?s = 0"
    "rc_protocolVersion ?s = VERSION_41" "\<not> au_enabled (rc_auth ?s)"
    by (simp_all add: newRemoteCache_def defaultAuthentication_def)
  from connectObject_new [OF net this(1,3,4)] this(2) first obtain m where
    con: "connectObject env 0 ?s = (Ok (), ?s\<lparr>rc_store := (rc_store ?s)(0 \<mapsto> m), rc_attempts := Suc (rc_attempts ?s)\<rparr>)" (is "_ = (_, ?t)")
    and m: "resting ci n 0 m" by (auto simp: newRemoteCache_def)
  have "cache_inv ?s" using settings_inv [of proxy ci host port name] unfolding s .
  with con preserves_connectObject have "cache_inv ?t" unfolding preserves_def by blast
  then have "tidy env available n (\<lambda>_. 0) ?t" using net name proxy m
    by (simp add: tidy_def newRemoteCache_def newTopologyInfo_def defaultAuthentication_def)
  moreover have "cacheConnect env ?s = connectObject env 0 ?s" by (simp add: cacheConnect_def newRemoteCache_def)
  ultimately show ?thesis using con unfolding s by auto
qed

end
