(* ===== verification/Session.thy ===== *)
theory Session
  imports Cluster
begin

text \<open>
  A session of a client with a cluster of Hot Rod servers, against an abstract specification of the cache: a map
  from keys to entries. The servers are not part of the repository; they are a parameter, and what the client
  relies on is the predicate \<open>hotrod_cluster\<close>. The locale \<open>stepwise\<close> is the refinement argument; the client
  interprets it.
\<close>

section \<open>Requests as a server reads them\<close>

datatype Request = GetR byteArray | GetWithMetadataR byteArray | ContainsKeyR byteArray
  | PutR byteArray byteArray VLong VLong | PutIfAbsentR byteArray byteArray VLong VLong | ReplaceR byteArray byteArray VLong VLong
  | RemoveR byteArray | RemoveWithVersionR byteArray int64 | ReplaceWithVersionR byteArray byteArray int64 VLong VLong

fun requestOpcode :: "Request \<Rightarrow> byte" where
  "requestOpcode (GetR k) = 0x03"
| "requestOpcode (GetWithMetadataR k) = 0x1B"
| "requestOpcode (ContainsKeyR k) = 0x0F"
| "requestOpcode (PutR k v l i) = 0x01"
| "requestOpcode (PutIfAbsentR k v l i) = 0x05"
| "requestOpcode (ReplaceR k v l i) = 0x07"
| "requestOpcode (RemoveR k) = 0x0B"
| "requestOpcode (RemoveWithVersionR k ver) = 0x0D"
| "requestOpcode (ReplaceWithVersionR k v ver l i) = 0x09"

fun requestBody :: "Request \<Rightarrow> byteArray" where
  "requestBody (GetR k) = keyBody k"
| "requestBody (GetWithMetadataR k) = keyBody k"
| "requestBody (ContainsKeyR k) = keyBody k"
| "requestBody (PutR k v l i) = putBody k v l i"
| "requestBody (PutIfAbsentR k v l i) = putBody k v l i"
| "requestBody (ReplaceR k v l i) = putBody k v l i"
| "requestBody (RemoveR k) = keyBody k"
| "requestBody (RemoveWithVersionR k ver) = removeWithVersionBody k ver"
| "requestBody (ReplaceWithVersionR k v ver l i) = replaceWithVersionBody k v ver l i"

fun sendableRequest :: "Request \<Rightarrow> bool" where
  "sendableRequest (PutR k v l i) = (fits32 k \<and> fits32 v)"
| "sendableRequest (PutIfAbsentR k v l i) = (fits32 k \<and> fits32 v)"
| "sendableRequest (ReplaceR k v l i) = (fits32 k \<and> fits32 v)"
| "sendableRequest (ReplaceWithVersionR k v ver l i) = (fits32 k \<and> fits32 v)"
| "sendableRequest (GetR k) = fits32 k"
| "sendableRequest (GetWithMetadataR k) = fits32 k"
| "sendableRequest (ContainsKeyR k) = fits32 k"
| "sendableRequest (RemoveR k) = fits32 k"
| "sendableRequest (RemoveWithVersionR k ver) = fits32 k"

definition orDefault :: "VLong option \<Rightarrow> VLong" where
  "orDefault d = (case d of None \<Rightarrow> 0 | Some d \<Rightarrow> d)"

definition putRequest :: "(byteArray \<Rightarrow> byteArray \<Rightarrow> VLong \<Rightarrow> VLong \<Rightarrow> Request) \<Rightarrow> byteArray \<Rightarrow> nat \<Rightarrow> (exn, Request \<times> nat) outcome" where
  "putRequest mk buf off = bindO (parsePut False buf off) (\<lambda>(p, off).
     Ok (mk (pq_key p) (pq_value p) (orDefault (pq_lifespan p)) (orDefault (pq_maxIdle p)), off))"

definition keyRequest :: "(byteArray \<Rightarrow> Request) \<Rightarrow> byteArray \<Rightarrow> nat \<Rightarrow> (exn, Request \<times> nat) outcome" where
  "keyRequest mk buf off = bindO (readByteArray buf off) (\<lambda>(key, off). Ok (mk key, off))"

text \<open>The server's parser of a whole request.\<close>

definition parseBody :: "byte \<Rightarrow> byteArray \<Rightarrow> nat \<Rightarrow> (exn, Request \<times> nat) outcome" where
  "parseBody opc buf off =
     (if opc = 0x03 then keyRequest GetR buf off
      else if opc = 0x1B then keyRequest GetWithMetadataR buf off
      else if opc = 0x0F then keyRequest ContainsKeyR buf off
      else if opc = 0x0B then keyRequest RemoveR buf off
      else if opc = 0x01 then putRequest PutR buf off
      else if opc = 0x05 then putRequest PutIfAbsentR buf off
      else if opc = 0x07 then putRequest ReplaceR buf off
      else if opc = 0x0D then bindO (parseVersioned buf off) (\<lambda>((key, version), off). Ok (RemoveWithVersionR key version, off))
      else if opc = 0x09 then bindO (parsePut True buf off) (\<lambda>(p, off).
        Ok (ReplaceWithVersionR (pq_key p) (pq_value p) (orDefault (pq_version p)) (orDefault (pq_lifespan p)) (orDefault (pq_maxIdle p)), off))
      else Throw (RuntimeError ''unknown opcode''))"

definition parseRequest :: "byteArray \<Rightarrow> (exn, RequestHeader \<times> Request) outcome" where
  "parseRequest buf = bindO (parseRequestHeader buf 0) (\<lambda>(h, off).
     bindO (parseBody (rq_opcode h) buf off) (\<lambda>(r, off). Ok (h, r)))"

lemma orDefault_duration [simp]: "orDefault (duration d) = d" "orDefault (Some d) = d"
  by (simp_all add: orDefault_def duration_def)

lemma keyRequest_at: "fits32 k \<Longrightarrow> at_input buf off (keyBody k) \<Longrightarrow> reads buf (keyRequest mk buf off) (mk k) []"
  using request_body_at(1) [of k buf off "[]"] unfolding keyRequest_def by (auto intro: reads_bind reads_Ok)

lemma putRequest_at:
  "fits32 k \<Longrightarrow> fits32 v \<Longrightarrow> at_input buf off (putBody k v l i) \<Longrightarrow> reads buf (putRequest mk buf off) (mk k v l i) []"
  using request_body_at(3) [of k v buf off l i "[]"] unfolding putRequest_def
  by (auto intro!: reads_bind reads_Ok_eq)

lemma parseBody_at:
  assumes "sendableRequest r" and "at_input buf off (requestBody r)"
  shows "reads buf (parseBody (requestOpcode r) buf off) r []"
proof (cases r)
  case (RemoveWithVersionR k ver)
  with assms request_body_at(2) [of k buf off ver "[]"] show ?thesis
    by (auto simp: parseBody_def intro!: reads_bind reads_Ok)
next
  case (ReplaceWithVersionR k v ver l i)
  with assms request_body_at(4) [of k v buf off ver l i "[]"] show ?thesis
    by (auto simp: parseBody_def intro!: reads_bind reads_Ok_eq)
qed (use assms in \<open>auto simp: parseBody_def intro: keyRequest_at putRequest_at\<close>)

lemma parseRequest_written:
  assumes "sendable_header h" and "sendableRequest r" and "rq_opcode h = requestOpcode r"
  shows "parseRequest (writeRequestHeader [] h @ requestBody r) = Ok (h, r)"
proof -
  let ?buf = "writeRequestHeader [] h @ requestBody r"
  have "at_input ?buf 0 ?buf" by (simp add: at_input_def)
  then have "reads ?buf (parseRequestHeader ?buf 0) h (requestBody r)" using assms(1) by (intro parseRequestHeader_at)
  then obtain off where off: "parseRequestHeader ?buf 0 = Ok (h, off)" "at_input ?buf off (requestBody r)" by (auto simp: reads_def)
  from parseBody_at [OF assms(2) off(2)] obtain o2 where "parseBody (requestOpcode r) ?buf off = Ok (r, o2)" by (auto simp: reads_def)
  with off(1) assms(3) show ?thesis by (simp add: parseRequest_def)
qed

section \<open>The cache a caller sees\<close>

type_synonym entries = "byteArray \<rightharpoonup> EntryWithMetadata"

datatype Reply = ValueReply "byteArray option" | EntryReply "EntryWithMetadata option" | BoolReply bool

definition hasVersion :: "int64 \<Rightarrow> EntryWithMetadata option \<Rightarrow> bool" where
  "hasVersion version entry \<longleftrightarrow> (\<exists>e. entry = Some e \<and> md_version (ew_metadata e) = Some version)"

text \<open>
  The abstract specification: a map from keys to entries. \<open>previous\<close>: the caller asked for the previous entry;
  \<open>md\<close>: the metadata the server gives an entry it writes.
\<close>

fun cacheSpec :: "bool \<Rightarrow> EntryMetadata \<Rightarrow> Request \<Rightarrow> entries \<Rightarrow> Reply \<times> entries" where
  "cacheSpec previous md (GetR k) M = (ValueReply (map_option ew_value (M k)), M)"
| "cacheSpec previous md (GetWithMetadataR k) M = (EntryReply (M k), M)"
| "cacheSpec previous md (ContainsKeyR k) M = (BoolReply (k \<in> dom M), M)"
| "cacheSpec previous md (PutR k v l i) M =
     (EntryReply (if previous then M k else None), M(k \<mapsto> \<lparr>ew_metadata = md, ew_value = v\<rparr>))"
| "cacheSpec previous md (PutIfAbsentR k v l i) M =
     (EntryReply (if previous then M k else None), if k \<in> dom M then M else M(k \<mapsto> \<lparr>ew_metadata = md, ew_value = v\<rparr>))"
| "cacheSpec previous md (ReplaceR k v l i) M =
     (EntryReply (if previous then M k else None), if k \<in> dom M then M(k \<mapsto> \<lparr>ew_metadata = md, ew_value = v\<rparr>) else M)"
| "cacheSpec previous md (RemoveR k) M = (EntryReply (if previous then M k else None), M(k := None))"
| "cacheSpec previous md (RemoveWithVersionR k ver) M =
     (BoolReply (hasVersion ver (M k)), if hasVersion ver (M k) then M(k := None) else M)"
| "cacheSpec previous md (ReplaceWithVersionR k v ver l i) M =
     (BoolReply (hasVersion ver (M k)), if hasVersion ver (M k) then M(k \<mapsto> \<lparr>ew_metadata = md, ew_value = v\<rparr>) else M)"

text \<open>What a server answers, as the protocol defines it: the status and the body that goes with it.\<close>

definition withPrevious :: "bool \<Rightarrow> byte \<Rightarrow> byte \<Rightarrow> EntryWithMetadata \<Rightarrow> byte \<times> Body" where
  "withPrevious previous plain status e = (if previous then (status, EntryBody e) else (plain, NoBody))"

definition versionAnswer :: "int64 \<Rightarrow> EntryWithMetadata option \<Rightarrow> byte \<times> Body" where
  "versionAnswer ver entry = (case entry of None \<Rightarrow> (2, NoBody) | Some e \<Rightarrow> (if hasVersion ver (Some e) then 0 else 1, NoBody))"

fun protocolAnswer :: "bool \<Rightarrow> Request \<Rightarrow> entries \<Rightarrow> byte \<times> Body" where
  "protocolAnswer previous (GetR k) M = (case M k of None \<Rightarrow> (2, NoBody) | Some e \<Rightarrow> (0, ValueBody (ew_value e)))"
| "protocolAnswer previous (GetWithMetadataR k) M = (case M k of None \<Rightarrow> (2, NoBody) | Some e \<Rightarrow> (0, EntryBody e))"
| "protocolAnswer previous (ContainsKeyR k) M = (if M k = None then 2 else 0, NoBody)"
| "protocolAnswer previous (PutR k v l i) M = (case M k of None \<Rightarrow> (0, NoBody) | Some e \<Rightarrow> withPrevious previous 0 3 e)"
| "protocolAnswer previous (PutIfAbsentR k v l i) M = (case M k of None \<Rightarrow> (0, NoBody) | Some e \<Rightarrow> withPrevious previous 1 4 e)"
| "protocolAnswer previous (ReplaceR k v l i) M = (case M k of None \<Rightarrow> (1, NoBody) | Some e \<Rightarrow> withPrevious previous 0 3 e)"
| "protocolAnswer previous (RemoveR k) M = (case M k of None \<Rightarrow> (2, NoBody) | Some e \<Rightarrow> withPrevious previous 0 3 e)"
| "protocolAnswer previous (RemoveWithVersionR k ver) M = versionAnswer ver (M k)"
| "protocolAnswer previous (ReplaceWithVersionR k v ver l i) M = versionAnswer ver (M k)"

definition valid_entries :: "entries \<Rightarrow> bool" where
  "valid_entries M \<longleftrightarrow> (\<forall>e \<in> ran M. valid_entry e)"

text \<open>
  Hot Rod servers are outside the repository: a function from the address of a server, the bytes of a request
  and the state of the cluster to the bytes of the response and the next state, and the entries a state holds. What the
  client relies on: to a request with client intelligence \<open>ci\<close> each server answers under the request's message id with
  the opcode next to the request's, with the status and body the protocol defines, with or without a topology update,
  and then the cluster holds the entries the operation leaves; the entries are always ones the protocol can carry. The
  updates satisfy \<open>good\<close>.
\<close>

record 'st Cluster =
  cu_serve :: "string \<Rightarrow> 16 word \<Rightarrow> byteArray \<Rightarrow> 'st \<Rightarrow> byteArray \<times> 'st"
  cu_entries :: "'st \<Rightarrow> entries"

definition hotrod_cluster :: "ClientIntelligence \<Rightarrow> (Update \<Rightarrow> bool) \<Rightarrow> 'st Cluster \<Rightarrow> bool" where
  "hotrod_cluster ci good cl \<longleftrightarrow> (\<forall>host port request h r st.
     parseRequest request = Ok (h, r) \<and> rq_clientIntelligence h = ci \<and> sendableRequest r \<and> valid_entries (cu_entries cl st) \<longrightarrow>
     (let previous = rq_flags h AND 1 \<noteq> 0; (status, body) = protocolAnswer previous r (cu_entries cl st)
      in (\<exists>update. (\<forall>u. update = Some u \<longrightarrow> valid_update u \<and> good u) \<and> fst (cu_serve cl host port request st) =
           encodeResponseStart ci (rq_messageId h) (requestOpcode r + 1) status update @ encodeBody body) \<and>
         (\<exists>md. valid_metadata md \<and>
            cu_entries cl (snd (cu_serve cl host port request st)) = snd (cacheSpec previous md r (cu_entries cl st)))))"

section \<open>Conversations\<close>

record 'st World =
  wo_client :: RemoteCache
  wo_servers :: 'st
  wo_read :: "nat \<Rightarrow> nat"

type_synonym ('st, 'a) world = "('st World, exn, 'a) comp"

definition onClient :: "'a client \<Rightarrow> ('st, 'a) world" where
  "onClient f = (\<lambda>w. case f (wo_client w) of (r, s) \<Rightarrow> (r, w\<lparr>wo_client := s\<rparr>))"

definition serverTurn :: "'st Cluster \<Rightarrow> nat \<Rightarrow> ('st, unit) world" where
  "serverTurn cl a = (\<lambda>w.
     let s = wo_client w in
     case rc_store s a of
       None \<Rightarrow> (UB, w)
     | Some m \<Rightarrow> (case mx_connection m of
         None \<Rightarrow> (UB, w)
       | Some c \<Rightarrow>
           (case cu_serve cl (mx_host m) (mx_port m) (drop (wo_read w a) (sent c)) (wo_servers w) of (response, st) \<Rightarrow>
             (Ok (), w\<lparr>wo_client := s\<lparr>rc_store := (rc_store s)(a \<mapsto>
                         m\<lparr>mx_connection := Some (c\<lparr>incoming := incoming c @ [RecvData response]\<rparr>)\<rparr>)\<rparr>,
                       wo_servers := st, wo_read := (wo_read w)(a := length (sent c))\<rparr>))))"

definition exchange :: "'st Cluster \<Rightarrow> 'r Future client \<Rightarrow> ('r \<Rightarrow> Reply) \<Rightarrow> ('st, Reply option) world" where
  "exchange cl operation reply =
     catchM (bindM (onClient operation) (\<lambda>f.
             bindM (serverTurn cl (fu_conn f)) (\<lambda>_.
             bindM (onClient (blockingGet 1 f)) (\<lambda>r. ret (Some (reply r))))))
       (\<lambda>e. case e of HotRod x \<Rightarrow> if phase x = BeforeSend then ret None else throw e | _ \<Rightarrow> throw e)"

text \<open>A caller's request through the public operations of the cache.\<close>

fun perform :: "Environment \<Rightarrow> 'st Cluster \<Rightarrow> Request \<times> bool \<Rightarrow> ('st, Reply option) world" where
  "perform env cl (GetR k, previous) = exchange cl (cacheGet env k) ValueReply"
| "perform env cl (GetWithMetadataR k, previous) = exchange cl (cacheGetWithMetadata env k) EntryReply"
| "perform env cl (ContainsKeyR k, previous) = exchange cl (cacheContainsKey env k) BoolReply"
| "perform env cl (PutR k v l i, previous) = exchange cl (cachePut env k v l i previous) EntryReply"
| "perform env cl (PutIfAbsentR k v l i, previous) = exchange cl (cachePutIfAbsent env k v l i previous) EntryReply"
| "perform env cl (ReplaceR k v l i, previous) = exchange cl (cacheReplace env k v l i previous) EntryReply"
| "perform env cl (RemoveR k, previous) = exchange cl (cacheRemove env k previous) EntryReply"
| "perform env cl (RemoveWithVersionR k ver, previous) = exchange cl (cacheRemoveWithVersion env k ver) BoolReply"
| "perform env cl (ReplaceWithVersionR k v ver l i, previous) =
     exchange cl (cacheReplaceWithVersion env k v ver l i) BoolReply"

fun runAll :: "('q \<Rightarrow> ('w, 'e, 'r) comp) \<Rightarrow> 'q list \<Rightarrow> ('w, 'e, 'r list) comp" where
  "runAll run [] = ret []"
| "runAll run (q # qs) = bindM (run q) (\<lambda>r. bindM (runAll run qs) (\<lambda>rs. ret (r # rs)))"

section \<open>Stepwise refinement\<close>

text \<open>A run of a specification, which relates a request and a state to a reply and a state.\<close>

inductive specRun :: "('q \<Rightarrow> 'a \<Rightarrow> 'r \<Rightarrow> 'a \<Rightarrow> bool) \<Rightarrow> 'q list \<Rightarrow> 'a \<Rightarrow> 'r list \<Rightarrow> 'a \<Rightarrow> bool" for step where
  finished: "specRun step [] a [] a"
| further: "step q a r b \<Longrightarrow> specRun step qs b rs c \<Longrightarrow> specRun step (q # qs) a (r # rs) c"

locale stepwise =
  fixes run :: "'q \<Rightarrow> ('w, 'e, 'r) comp" and step :: "'q \<Rightarrow> 'a \<Rightarrow> 'r \<Rightarrow> 'a \<Rightarrow> bool"
    and R :: "nat \<Rightarrow> 'w \<Rightarrow> 'a \<Rightarrow> bool" and ok :: "'q \<Rightarrow> bool"
  assumes simulates: "R (Suc n) w a \<Longrightarrow> ok q \<Longrightarrow> \<exists>r b w'. run q w = (Ok r, w') \<and> step q a r b \<and> R n w' b"
begin

lemma refines:
  "R (length qs + n) w a \<Longrightarrow> list_all ok qs \<Longrightarrow> \<exists>rs b w'. runAll run qs w = (Ok rs, w') \<and> specRun step qs a rs b \<and> R n w' b"
proof (induction qs arbitrary: w a)
  case Nil
  then show ?case by (auto simp: ret_def intro: specRun.finished)
next
  case (Cons q qs)
  from simulates [of "length qs + n" w a q] Cons.prems obtain r b w1 where
    q: "run q w = (Ok r, w1)" "step q a r b" "R (length qs + n) w1 b" by auto
  from Cons.IH [OF q(3)] Cons.prems obtain rs d w2 where
    "runAll run qs w1 = (Ok rs, w2)" "specRun step qs b rs d" "R n w2 d" by auto
  with q show ?case by (auto simp: bindM_def ret_def intro: specRun.further)
qed

end

text \<open>
  The steps of the abstract cache. It performs the operation, with any metadata for what it writes; unless
  it is \<open>available\<close> it may also refuse, and then nothing changes.
\<close>

inductive cacheStep :: "bool \<Rightarrow> Request \<times> bool \<Rightarrow> entries \<Rightarrow> Reply option \<Rightarrow> entries \<Rightarrow> bool" for available where
  performed: "valid_metadata md \<Longrightarrow> cacheSpec previous md r M = (reply, M') \<Longrightarrow> cacheStep available (r, previous) M (Some reply) M'"
| unavailable: "\<not> available \<Longrightarrow> cacheStep available q M None M"

section \<open>The client simulates the cache\<close>

definition synced :: "Environment \<Rightarrow> bool \<Rightarrow> 'st Cluster \<Rightarrow> ClientIntelligence \<Rightarrow> nat \<Rightarrow> 'st World \<Rightarrow> entries \<Rightarrow> bool" where
  "synced env available cl ci n w M \<longleftrightarrow> cu_entries cl (wo_servers w) = M \<and> valid_entries M \<and> 
     hotrod_cluster ci (\<lambda>u. available \<longrightarrow> someAccepting env (up_addresses u)) cl \<and>
     tidy env available n (wo_read w) (wo_client w) \<and> rc_clientIntelligence (wo_client w) = ci"

lemma length_body: "sendableRequest r \<Longrightarrow> length (requestBody r) \<le> 2 ^ 34"
proof -
  have d: "length (encodeDuration d) \<le> 10" for d using length_var(2) [of d] by (simp add: encodeDuration_def)
  have k: "length (keyBody k) \<le> 5 + length k" for k using length_lp(1) [of k] by (simp add: keyBody_def)
  have v: "length (removeWithVersionBody k ver) \<le> 13 + length k" for k ver
    using length_lp(1) [of k] by (simp add: body_eqs)
  have p: "length (putBody k v l i) \<le> 31 + length k + length v" for k v l i
    using length_lp(1) [of k] length_lp(1) [of v] d [of l] d [of i] by (simp add: body_eqs)
  have r: "length (replaceWithVersionBody k v ver l i) \<le> 39 + length k + length v" for k v ver l i
    using length_lp(1) [of k] length_lp(1) [of v] d [of l] d [of i] by (simp add: body_eqs)
  show "sendableRequest r \<Longrightarrow> length (requestBody r) \<le> 2 ^ 34"
    by (cases r) (auto intro: order.trans [OF k] order.trans [OF v] order.trans [OF p] order.trans [OF r])
qed

lemma valid_entries_spec:
  assumes "valid_entries M" and "valid_metadata md" and "sendableRequest r"
  shows "valid_entries (snd (cacheSpec previous md r M))"
  using assms by (cases r) (auto simp: valid_entries_def valid_entry_def ran_def split: if_splits)

lemma request_served:
  assumes "hotrod_cluster ci good cl" and "sendable_header h" and "sendableRequest r" and "rq_opcode h = requestOpcode r"
    and "rq_clientIntelligence h = ci" and "valid_entries (cu_entries cl st)"
    and "protocolAnswer (rq_flags h AND 1 \<noteq> 0) r (cu_entries cl st) = (status, body)"
  shows "\<exists>st' md update. cu_serve cl host port (writeRequestHeader [] h @ requestBody r) st =
      (encodeResponseStart ci (rq_messageId h) (requestOpcode r + 1) status update @ encodeBody body, st') \<and>
    (\<forall>u. update = Some u \<longrightarrow> valid_update u \<and> good u) \<and>
    valid_metadata md \<and> cu_entries cl st' = snd (cacheSpec (rq_flags h AND 1 \<noteq> 0) md r (cu_entries cl st))"
  using assms(1) [unfolded hotrod_cluster_def, rule_format, of "writeRequestHeader [] h @ requestBody r" h r st host port]
    parseRequest_written [OF assms(2-4)] assms(3,5-7)
  by (cases "cu_serve cl host port (writeRequestHeader [] h @ requestBody r) st") (auto simp: Let_def)


lemma exchange_keyed:
  assumes sy: "synced env available cl ci (Suc n) w M" and r: "sendableRequest r"
    and ans: "protocolAnswer (flags AND 1 \<noteq> 0) r M = (st, body)" and legal: "legal opn st body"
    and res: "\<And>tried topo. result tried [] (answered st body topo) = Ok v"
  shows "\<exists>rep w'. exchange cl (keyed env key noExclusions (requestBody r) (requestOpcode r) (requestOpcode r + 1) (parserOf opn)
      flags result) reply w = (Ok rep, w') \<and>
    (rep = None \<and> \<not> available \<and> synced env available cl ci n w' M \<or>
     (\<exists>md. valid_metadata md \<and> rep = Some (reply v) \<and> synced env available cl ci n w' (snd (cacheSpec (flags AND 1 \<noteq> 0) md r M))))"
proof -
  let ?s = "wo_client w" and ?rd = "wo_read w" and ?opc = "requestOpcode r + 1"
  let ?op = "keyed env key noExclusions (requestBody r) (requestOpcode r) ?opc (parserOf opn) flags result"
  from sy have t: "tidy env available (Suc n) ?rd ?s" and cl: "hotrod_cluster ci (\<lambda>u. available \<longrightarrow> someAccepting env (up_addresses u)) cl"
    and ci: "rc_clientIntelligence ?s = ci" and M: "cu_entries cl (wo_servers w) = M" "valid_entries M" by (simp_all add: synced_def)
  obtain q s0 where sel: "selectServerForKey env key noExclusions ?s = (q, s0)" by (cases "selectServerForKey env key noExclusions ?s")
  from select_tidy [OF t sel] have t0: "tidy env available (Suc n) ?rd s0" and ci0: "rc_clientIntelligence s0 = ci"
    using ci same_routing_settings by auto
  from select_tidy [OF t sel] consider (no) x where "\<not> available" "q = Throw (HotRod x)" "phase x = BeforeSend"
    | (yes) a m tried where "q = Ok (a, tried)" "rc_store s0 a = Some m" by auto
  then show ?thesis
  proof cases
    case no
    then have "exchange cl ?op reply w = (Ok None, w\<lparr>wo_client := s0\<rparr>)"
      using sel by (simp add: exchange_def keyed_def onClient_def bindM_def catchM_def ret_def)
    then show ?thesis using tidy_less [OF t0] ci0 cl M no(1) by (simp add: synced_def)
  next
    case yes
    let ?data = "requestBytes s0 m (requestBody r) (requestOpcode r) flags"
    obtain d where sub: "submit a (theCall s0 (requestBody r) (requestOpcode r) ?opc (parserOf opn) flags) (result tried []) s0 =
        (Ok \<lparr>fu_conn = a, fu_ticket = mx_issued m, fu_result = result tried []\<rparr>,
         s0\<lparr>rc_store := (rc_store s0)(a \<mapsto> waiting s0 m ?opc (parserOf opn) flags d), rc_held := [a]\<rparr>)"
      (is "_ = (Ok ?f, ?s1)") and d: "flowing n d" "drop (?rd a) (sent d) = ?data"
      by (rule submit_tidy [OF t0 yes(2) length_body [OF r]])
    have op: "?op ?s = (Ok ?f, ?s1)" using sel yes sub by (simp add: keyed_def bindM_def noExclusions_def)
    have inv1: "cache_inv ?s1" using preserves_keyed op t unfolding preserves_def tidy_def by blast
    let ?h = "requestHeader (mx_nextMessageId m) (theCall s0 (requestBody r) (requestOpcode r) 0 getParser flags) m"
    have "resting ci (Suc n) (?rd a) m" "fits32 (rc_cacheName s0)" using t0 yes(2) ci0 by (auto simp: tidy_def)
    then have h: "rq_flags ?h = flags" "rq_opcode ?h = requestOpcode r" "rq_messageId ?h = mx_nextMessageId m" "rq_clientIntelligence ?h = ci" "sendable_header ?h"
      by (auto simp: resting_def requestHeader_def sendable_header_def VERSION_41_def)
    obtain st' md update where serve: "cu_serve cl (mx_host m) (mx_port m) ?data (wo_servers w) =
        (encodeResponseStart ci (mx_nextMessageId m) ?opc st update @ encodeBody body, st')" (is "_ = (?resp, _)")
      and u: "\<forall>u. update = Some u \<longrightarrow> valid_update u \<and> (available \<longrightarrow> someAccepting env (up_addresses u))" and md: "valid_metadata md"
        "cu_entries cl st' = snd (cacheSpec (flags AND 1 \<noteq> 0) md r M)"
      using request_served [OF cl h(5) r h(2,4), of "wo_servers w" st body "mx_host m" "mx_port m"] M ans h(1,3) by auto
    let ?s2 = "s0\<lparr>rc_store := (rc_store s0)(a \<mapsto> waiting s0 m ?opc (parserOf opn) flags (d\<lparr>incoming := incoming d @ [RecvData ?resp]\<rparr>)), rc_held := [a]\<rparr>"
    have turn: "serverTurn cl a (w\<lparr>wo_client := ?s1\<rparr>) = (Ok (), w\<lparr>wo_client := ?s2, wo_servers := st', wo_read := ?rd(a := length (sent d))\<rparr>)"
      using d(2) serve by (simp add: serverTurn_def Let_def waiting_def)
    have "?s2 = ?s1\<lparr>rc_store := (rc_store ?s1)(a \<mapsto> waiting s0 m ?opc (parserOf opn) flags (d\<lparr>incoming := incoming d @ [RecvData ?resp]\<rparr>))\<rparr>" by simp
    moreover have "cache_inv \<dots>" by (rule almost_store [OF inv1, of a "waiting s0 m ?opc (parserOf opn) flags d"]) (simp_all add: same_place_def waiting_def)
    ultimately have inv2: "cache_inv ?s2" by (simp only:)
    have ex: "?opc \<noteq> ERROR_RESPONSE" by (cases r) (simp_all add: ERROR_RESPONSE_def)
    obtain s3 where get: "blockingGet (Suc 0) ?f ?s2 = (Ok v, s3)" and
      t3: "tidy env available n (?rd(a := length (sent d))) s3" "rc_clientIntelligence s3 = ci"
      using answer_tidy [where result = "result tried []", OF t0 yes(2) d(1) _ u legal ex res refl inv2] ci0 by auto
    let ?w' = "w\<lparr>wo_client := s3, wo_servers := st', wo_read := ?rd(a := length (sent d))\<rparr>"
    have "exchange cl ?op reply w = (Ok (Some (reply v)), ?w')"
      unfolding exchange_def using op turn get by (simp add: bindM_def catchM_def onClient_def ret_def)
    moreover have "synced env available cl ci n ?w' (snd (cacheSpec (flags AND 1 \<noteq> 0) md r M))"
      using t3 cl md valid_entries_spec [OF M(2) md(1) r] by (simp add: synced_def)
    ultimately show ?thesis using md(1) by blast
  qed
qed
text \<open>The flag byte of the operations and what a server makes of it.\<close>

lemma previousFlag_set: "(previousFlag b AND 1 \<noteq> 0) = b"
  by (simp add: previousFlag_def)

fun operationOf :: "Request \<Rightarrow> Operation" where
  "operationOf (GetR k) = Get"
| "operationOf (GetWithMetadataR k) = GetWithMetadata"
| "operationOf (ContainsKeyR k) = ContainsKey"
| "operationOf (PutR k v l i) = Put"
| "operationOf (PutIfAbsentR k v l i) = PutIfAbsent"
| "operationOf (ReplaceR k v l i) = Replace"
| "operationOf (RemoveR k) = Remove"
| "operationOf (RemoveWithVersionR k ver) = RemoveWithVersion"
| "operationOf (ReplaceWithVersionR k v ver l i) = ReplaceWithVersion"

lemma answer_legal:
  assumes "valid_entries M"
  shows "legal (operationOf r) (fst (protocolAnswer previous r M)) (snd (protocolAnswer previous r M))"
proof -
  from assms have e: "\<And>k e. M k = Some e \<Longrightarrow> valid_entry e \<and> fits32 (ew_value e)" by (auto simp: valid_entries_def ran_def valid_entry_def)
  show ?thesis
    by (cases r) (auto simp: legal_def conditional_def withPrevious_def versionAnswer_def dest!: e split: option.splits)
qed

text \<open>What the caller's side makes of the answer is the reply of the specification.\<close>

lemma results_of_answers:
  "getResult tried ex (case protocolAnswer p (GetR k) M of (st, b) \<Rightarrow> answered st b topo) = Ok (map_option ew_value (M k))"
  "getWithMetadataResult tried ex (case protocolAnswer p (GetWithMetadataR k) M of (st, b) \<Rightarrow> answered st b topo) = Ok (M k)"
  "containsKeyResult tried ex (case protocolAnswer p (ContainsKeyR k) M of (st, b) \<Rightarrow> answered st b topo) = Ok (k \<in> dom M)"
  "putResult tried ex (case protocolAnswer p (PutR k v l i) M of (st, b) \<Rightarrow> answered st b topo) = Ok (if p then M k else None)"
  "previousResult tried ex (case protocolAnswer p (PutIfAbsentR k v l i) M of (st, b) \<Rightarrow> answered st b topo) = Ok (if p then M k else None)"
  "previousResult tried ex (case protocolAnswer p (ReplaceR k v l i) M of (st, b) \<Rightarrow> answered st b topo) = Ok (if p then M k else None)"
  "removeResult tried ex (case protocolAnswer p (RemoveR k) M of (st, b) \<Rightarrow> answered st b topo) = Ok (if p then M k else None)"
  "versionedResult tried ex (case protocolAnswer p (RemoveWithVersionR k ver) M of (st, b) \<Rightarrow> answered st b topo) = Ok (hasVersion ver (M k))"
  "versionedResult tried ex (case protocolAnswer p (ReplaceWithVersionR k v ver l i) M of (st, b) \<Rightarrow> answered st b topo) = Ok (hasVersion ver (M k))"
  by (auto simp: result_defs withPrevious_def versionAnswer_def hasVersion_def split: option.splits)

lemma perform_keyed:
  assumes sy: "synced env available cl ci (Suc n) w M" and r: "sendableRequest r"
    and op: "perform env cl (r, previous) = exchange cl (keyed env key noExclusions (requestBody r) (requestOpcode r)
      (requestOpcode r + 1) (parserOf (operationOf r)) flags result) reply"
    and res: "\<And>tried topo. result tried [] (case protocolAnswer (flags AND 1 \<noteq> 0) r M of (st, b) \<Rightarrow> answered st b topo) = Ok v"
    and spec: "\<And>md. cacheSpec previous md r M = (reply v, snd (cacheSpec (flags AND 1 \<noteq> 0) md r M))"
  shows "\<exists>rep M' w'. perform env cl (r, previous) w = (Ok rep, w') \<and> cacheStep available (r, previous) M rep M' \<and>
    synced env available cl ci n w' M'"
proof -
  let ?a = "protocolAnswer (flags AND 1 \<noteq> 0) r M"
  have v: "valid_entries M" using sy by (simp add: synced_def)
  have "result tried [] (answered (fst ?a) (snd ?a) topo) = Ok v" for tried topo using res by (simp add: case_prod_beta)
  from exchange_keyed [where result = result and flags = flags, OF sy r prod.collapse [symmetric] answer_legal [OF v, where r = r] this]
  obtain rep w' where "perform env cl (r, previous) w = (Ok rep, w')" and "rep = None \<and> \<not> available \<and> synced env available cl ci n w' M \<or>
    (\<exists>md. valid_metadata md \<and> rep = Some (reply v) \<and> synced env available cl ci n w' (snd (cacheSpec (flags AND 1 \<noteq> 0) md r M)))"
    unfolding op by blast
  then show ?thesis using spec by (blast intro: cacheStep.intros)
qed

lemmas public_defs = cacheGet_def cacheGetWithMetadata_def cacheContainsKey_def cachePut_def cachePutIfAbsent_def cacheReplace_def
  cacheRemove_def cacheRemoveWithVersion_def cacheReplaceWithVersion_def getImpl_def getWithMetadataImpl_def containsKeyImpl_def
  putImpl_def putIfAbsentImpl_def replaceImpl_def removeImpl_def removeWithVersionImpl_def replaceWithVersionImpl_def

lemma perform_simulates:
  assumes "synced env available cl ci (Suc n) w M" and "sendableRequest r"
  shows "\<exists>rep M' w'. perform env cl (r, previous) w = (Ok rep, w') \<and> cacheStep available (r, previous) M rep M' \<and> synced env available cl ci n w' M'"
proof (cases r)
  case (GetR k)
  show ?thesis
    by (rule perform_keyed [OF assms, where flags = 0 and result = getResult and reply = ValueReply and key = k and v = "map_option ew_value (M k)"])
      (simp_all only: GetR results_of_answers, simp_all add: public_defs)
next
  case (GetWithMetadataR k)
  show ?thesis
    by (rule perform_keyed [OF assms, where flags = 0 and result = getWithMetadataResult and reply = EntryReply and key = k])
      (simp_all only: GetWithMetadataR results_of_answers, simp_all add: public_defs)
next
  case (ContainsKeyR k)
  show ?thesis
    by (rule perform_keyed [OF assms, where flags = 0 and result = containsKeyResult and reply = BoolReply and key = k])
      (simp_all only: ContainsKeyR results_of_answers, simp_all add: public_defs)
next
  case (PutR k v l i)
  show ?thesis
    by (rule perform_keyed [OF assms, where flags = "previousFlag previous" and result = putResult and reply = EntryReply and key = k])
      (simp_all only: PutR results_of_answers previousFlag_set, simp_all add: public_defs)
next
  case (PutIfAbsentR k v l i)
  show ?thesis
    by (rule perform_keyed [OF assms, where flags = "previousFlag previous" and result = previousResult and reply = EntryReply and key = k])
      (simp_all only: PutIfAbsentR results_of_answers previousFlag_set, simp_all add: public_defs)
next
  case (ReplaceR k v l i)
  show ?thesis
    by (rule perform_keyed [OF assms, where flags = "previousFlag previous" and result = previousResult and reply = EntryReply and key = k])
      (simp_all only: ReplaceR results_of_answers previousFlag_set, simp_all add: public_defs)
next
  case (RemoveR k)
  show ?thesis
    by (rule perform_keyed [OF assms, where flags = "previousFlag previous" and result = removeResult and reply = EntryReply and key = k])
      (simp_all only: RemoveR results_of_answers previousFlag_set, simp_all add: public_defs)
next
  case (RemoveWithVersionR k ver)
  show ?thesis
    by (rule perform_keyed [OF assms, where flags = 0 and result = versionedResult and reply = BoolReply and key = k])
      (simp_all only: RemoveWithVersionR results_of_answers, simp_all add: public_defs)
next
  case (ReplaceWithVersionR k v ver l i)
  show ?thesis
    by (rule perform_keyed [OF assms, where flags = 0 and result = versionedResult and reply = BoolReply and key = k])
      (simp_all only: ReplaceWithVersionR results_of_answers, simp_all add: public_defs)
qed

interpretation client: stepwise "perform env cl" "cacheStep available" "synced env available cl ci" "\<lambda>(r, previous :: bool). sendableRequest r"
proof unfold_locales
  fix n w M and q :: "Request \<times> bool"
  assume "synced env available cl ci (Suc n) w M" and "case q of (r, previous) \<Rightarrow> sendableRequest r"
  then show "\<exists>rep M' w'. perform env cl q w = (Ok rep, w') \<and> cacheStep available q M rep M' \<and> synced env available cl ci n w' M'"
    using perform_simulates by (cases q) auto
qed

text \<open>
  C1: A session with a cluster of Hot Rod servers behaves like a map. A fresh client with any client
  intelligence connects whenever its first server accepts, and then every sequence of get, getWithMetadata, containsKey,
  put, putIfAbsent, replace, remove, removeWithVersion and replaceWithVersion, each answered by the server it was
  routed to, gives the caller exactly the replies of the abstract cache, a map from keys to entries, and leaves the
  cluster with the entries of that map. This holds while topology updates come with the answers, owners move, connections
  are opened and pruned, and servers refuse connections: an operation that finds no server throws before anything is sent
  and changes nothing, and that does not happen as long as requests may go to non-owners and each topology has a
  server that accepts. The servers are any that answer as the protocol defines.
\<close>

theorem session_refines_cache:
  assumes cl: "hotrod_cluster ci (\<lambda>u. available \<longrightarrow> someAccepting env (up_addresses u)) cl" and st: "valid_entries (cu_entries cl st)"
    and net: "openNetwork env (length qs)" "attemptWorks env host port 0" and proxy: "available \<longrightarrow> proxy"
    and name: "fits32 name" and qs: "list_all (\<lambda>(r, previous). sendableRequest r) qs"
  shows "\<exists>s replies w'. cacheConnect env (setProxyToNonOwner proxy (cacheSetClientIntelligence ci (newRemoteCache host port name))) = (Ok (), s) \<and>
    runAll (perform env cl) qs \<lparr>wo_client = s, wo_servers = st, wo_read = \<lambda>_. 0\<rparr> = (Ok replies, w') \<and>
    specRun (cacheStep available) qs (cu_entries cl st) replies (cu_entries cl (wo_servers w'))"
proof -
  from connect_tidy [OF net(1) name net(2) proxy, of ci] obtain s where
    s: "cacheConnect env (setProxyToNonOwner proxy (cacheSetClientIntelligence ci (newRemoteCache host port name))) = (Ok (), s)"
      "tidy env available (length qs) (\<lambda>_. 0) s" "rc_clientIntelligence s = ci" by blast
  then have "synced env available cl ci (length qs + 0) \<lparr>wo_client = s, wo_servers = st, wo_read = \<lambda>_. 0\<rparr> (cu_entries cl st)"
    using cl st by (simp add: synced_def)
  from client.refines [OF this qs] s(1) show ?thesis by (auto simp: synced_def)
qed

section \<open>A cluster to talk to\<close>

definition referenceCluster :: "(nat \<Rightarrow> Update option) \<Rightarrow> (entries \<times> nat) Cluster" where
  "referenceCluster updates = \<lparr>cu_serve = (\<lambda>host port request (M, n). case parseRequest request of
       Ok (h, r) \<Rightarrow>
         (let previous = rq_flags h AND 1 \<noteq> 0; (status, body) = protocolAnswer previous r M
          in (encodeResponseStart (rq_clientIntelligence h) (rq_messageId h) (requestOpcode r + 1) status (updates n) @ encodeBody body,
              snd (cacheSpec previous (noMetadata\<lparr>md_version := Some (word_of_nat n)\<rparr>) r M), Suc n))
     | _ \<Rightarrow> ([], M, n)), cu_entries = fst\<rparr>"

lemma referenceCluster_serves:
  "parseRequest request = Ok (h, r) \<Longrightarrow> protocolAnswer (rq_flags h AND 1 \<noteq> 0) r M = (status, body) \<Longrightarrow>
    cu_serve (referenceCluster updates) host port request (M, n) =
      (encodeResponseStart (rq_clientIntelligence h) (rq_messageId h) (requestOpcode r + 1) status (updates n) @ encodeBody body,
       snd (cacheSpec (rq_flags h AND 1 \<noteq> 0) (noMetadata\<lparr>md_version := Some (word_of_nat n)\<rparr>) r M), Suc n)"
  by (simp add: referenceCluster_def)

lemma referenceCluster_entries: "cu_entries (referenceCluster updates) = fst"
  by (simp add: referenceCluster_def)

lemma referenceCluster_ok:
  assumes "\<forall>n u. updates n = Some u \<longrightarrow> valid_update u \<and> good u"
  shows "hotrod_cluster ci good (referenceCluster updates)"
  unfolding hotrod_cluster_def
proof (intro allI impI, elim conjE)
  fix host port request h r and st :: "entries \<times> nat"
  assume p: "parseRequest request = Ok (h, r)" and ci: "rq_clientIntelligence h = ci"
  obtain M n where st: "st = (M, n)" by (cases st)
  obtain status body where a: "protocolAnswer (rq_flags h AND 1 \<noteq> 0) r M = (status, body)"
    by (cases "protocolAnswer (rq_flags h AND 1 \<noteq> 0) r M")
  have "valid_metadata (noMetadata\<lparr>md_version := Some v\<rparr>)" for v by (simp add: valid_metadata_def noMetadata_def)
  moreover have "\<forall>u. updates n = Some u \<longrightarrow> valid_update u \<and> good u" using assms by blast
  ultimately show "let previous = rq_flags h AND 1 \<noteq> 0; (status, body) = protocolAnswer previous r (cu_entries (referenceCluster updates) st)
      in (\<exists>update. (\<forall>u. update = Some u \<longrightarrow> valid_update u \<and> good u) \<and> fst (cu_serve (referenceCluster updates) host port request st) =
           encodeResponseStart ci (rq_messageId h) (requestOpcode r + 1) status update @ encodeBody body) \<and>
         (\<exists>md. valid_metadata md \<and> cu_entries (referenceCluster updates) (snd (cu_serve (referenceCluster updates) host port request st)) =
            snd (cacheSpec previous md r (cu_entries (referenceCluster updates) st)))"
    unfolding Let_def st referenceCluster_entries fst_conv a prod.case referenceCluster_serves [OF p a] snd_conv ci by blast
qed

inductive_simps specRun_simps: "specRun st [] a rs b" "specRun st (q # qs) a rs b"
inductive_simps cacheStep_simps: "cacheStep True q M rep M'"

text \<open>The first answer makes a the owner of everything, and a is down; b is up.\<close>

definition sessionEnv :: Environment where
  "sessionEnv = \<lparr>en_crypto = letterCrypto, en_network = (\<lambda>host port attempt.
     \<lparr>nw_resolved = Inr (if host = ''a'' then [Refused] else [Refused, Immediate]), nw_incoming = [],
      nw_sendScript = map SendAccepts (replicate 3 (2 ^ 35))\<rparr>)\<rparr>"

definition sessionUpdate :: Update where
  "sessionUpdate = \<lparr>up_topologyId = 2, up_addresses = [\<lparr>sa_host = ''a'', sa_port = 1\<rparr>, \<lparr>sa_host = ''b'', sa_port = 2\<rparr>],
     up_hashVersion = 3, up_owners = [[0]]\<rparr>"

theorem session_refines_cache_witness:
  "\<exists>s w'. cacheConnect sessionEnv (setProxyToNonOwner True (cacheSetClientIntelligence HASH_DISTRIBUTION_AWARE (newRemoteCache ''h'' 1 ''c''))) = (Ok (), s) \<and>
     runAll (perform sessionEnv (referenceCluster (\<lambda>n. if n = 0 then Some sessionUpdate else None)))
       [(PutR [107] [1, 2] 0 0, False), (PutIfAbsentR [107] [3] 0 0, False), (GetR [107], False)]
       \<lparr>wo_client = s, wo_servers = (Map.empty, 0), wo_read = \<lambda>_. 0\<rparr> =
     (Ok [Some (EntryReply None), Some (EntryReply None), Some (ValueReply (Some [1, 2]))], w')"
proof -
  let ?qs = "[(PutR [107] [1, 2] 0 0, False), (PutIfAbsentR [107] [3] 0 0, False), (GetR [107], False)]"
  let ?cl = "referenceCluster (\<lambda>n. if n = 0 then Some sessionUpdate else None)"
  have net: "openNetwork sessionEnv (length ?qs)" "attemptWorks sessionEnv ''h'' 1 0" "someAccepting sessionEnv (up_addresses sessionUpdate)"
    unfolding openNetwork_def
    by (auto simp: sessionEnv_def attemptWorks_def attemptSucceeds_def someAccepting_def accepting_def sessionUpdate_def
      intro!: exI [of _ "replicate 3 (2 ^ 35)"])
  have "valid_update sessionUpdate" by (simp add: valid_update_def sessionUpdate_def)
  with net(3) have cl: "hotrod_cluster HASH_DISTRIBUTION_AWARE (\<lambda>u. True \<longrightarrow> someAccepting sessionEnv (up_addresses u)) ?cl"
    by (intro referenceCluster_ok) auto
  have st: "valid_entries (cu_entries ?cl (Map.empty, 0))" by (simp add: referenceCluster_entries valid_entries_def)
  obtain s rs w' where run: "cacheConnect sessionEnv (setProxyToNonOwner True (cacheSetClientIntelligence HASH_DISTRIBUTION_AWARE
        (newRemoteCache ''h'' 1 ''c''))) = (Ok (), s)"
      "runAll (perform sessionEnv ?cl) ?qs \<lparr>wo_client = s, wo_servers = (Map.empty, 0), wo_read = \<lambda>_. 0\<rparr> = (Ok rs, w')"
    and rs: "specRun (cacheStep True) ?qs Map.empty rs (fst (wo_servers w'))"
    using session_refines_cache [OF cl st net(1,2), of True "''c''"] by (auto simp: referenceCluster_entries simp del: runAll.simps)
  have "specRun (cacheStep True) ?qs Map.empty rs M \<Longrightarrow> rs = [Some (EntryReply None), Some (EntryReply None), Some (ValueReply (Some [1, 2]))]" for rs M
    by (auto simp: specRun_simps cacheStep_simps)
  from this [OF rs] run show ?thesis by blast
qed

end
