(* ===== verification/Programs.thy ===== *)
theory Programs
  imports Session
begin

text \<open>
  The two example programs of the repository, examples/quickstart/quickstart.cpp and examples/quickstart/retry.cpp: their
  main functions with what they write to std::cout (std::cerr is not modelled), a small calculus of computations that
  run to the end or fail, and what the programs do against a server that answers and without a server.
\<close>

section \<open>Programs with console output\<close>

text \<open>
  The state of a program: its cache object and what it has written to std::cout. std::endl and the escape for
  a newline write the same character.
\<close>

record Program =
  pg_cache :: RemoteCache
  pg_out :: string

type_synonym 'a program = "(Program, exn, 'a) comp"

definition print :: "string \<Rightarrow> unit program" where
  "print text = (\<lambda>p. (Ok (), p\<lparr>pg_out := pg_out p @ text\<rparr>))"

definition endl :: string where
  "endl = [CHR 0x0A]"

definition onCache :: "'a client \<Rightarrow> 'a program" where
  "onCache f = (\<lambda>p. case f (pg_cache p) of (r, s) \<Rightarrow> (r, p\<lparr>pg_cache := s\<rparr>))"

text \<open>operation(...).get(): the caller waits while the read thread makes up to \<open>patience\<close> iterations.\<close>

definition getNow :: "nat \<Rightarrow> 'r Future client \<Rightarrow> 'r program" where
  "getNow patience operation = onCache (bindM operation (blockingGet patience))"

text \<open>
  A block that owns the cache: its destructor runs at the end, and when an exception leaves the block.
  \<open>busy\<close>: at that moment the read thread is in the middle of an iteration. An exception that leaves the destructor ends
  the program.
\<close>

definition destroyCache :: "bool \<Rightarrow> unit program" where
  "destroyCache busy = catchM (onCache (destroyRemoteCache busy)) (\<lambda>e p. (UB, p))"

definition withCache :: "bool \<Rightarrow> unit program \<Rightarrow> unit program" where
  "withCache busy block = bindM (catchM block (\<lambda>e. bindM (destroyCache busy) (\<lambda>_. throw e))) (\<lambda>_. destroyCache busy)"

definition bytes :: "string \<Rightarrow> byteArray" where
  "bytes text = bytes_of_string text"

section \<open>quickstart.cpp\<close>

definition putEntry :: "Environment \<Rightarrow> nat \<Rightarrow> string \<Rightarrow> string \<Rightarrow> unit program" where
  "putEntry env patience key value =
     bindM (getNow patience (cachePut env (bytes key) (bytes value) 0 0 False)) (\<lambda>_.
     print (''PUT: '' @ key @ '' = '' @ value @ endl))"

definition showValue :: "Environment \<Rightarrow> nat \<Rightarrow> string \<Rightarrow> string \<Rightarrow> unit program" where
  "showValue env patience prefix key =
     bindM (getNow patience (cacheGet env (bytes key))) (\<lambda>result.
     case result of
       Some value \<Rightarrow> print (prefix @ key @ '' = '' @ string_of_bytes value @ endl)
     | None \<Rightarrow> ret ())"

definition showMissing :: "Environment \<Rightarrow> nat \<Rightarrow> string \<Rightarrow> string \<Rightarrow> unit program" where
  "showMissing env patience key note =
     bindM (getNow patience (cacheGet env (bytes key))) (\<lambda>result.
     case result of
       None \<Rightarrow> print (''GET: '' @ key @ '' = '' @ note @ endl)
     | Some value \<Rightarrow> ret ())"

definition quickstartBlock :: "Environment \<Rightarrow> nat \<Rightarrow> bool \<Rightarrow> unit program" where
  "quickstartBlock env patience busy =
     bindM (print (''Connecting to Infinispan server...'' @ endl)) (\<lambda>_.
     bindM (onCache (cacheConnect env)) (\<lambda>_.
     bindM (print (''Connected successfully!'' @ endl)) (\<lambda>_.
     bindM (print (endl @ ''--- PUT Operations ---'' @ endl)) (\<lambda>_.
     bindM (putEntry env patience ''greeting'' ''Hello, Infinispan!'') (\<lambda>_.
     bindM (putEntry env patience ''language'' ''C++17'') (\<lambda>_.
     bindM (putEntry env patience ''version'' ''1.0.0'') (\<lambda>_.
     bindM (print (endl @ ''--- GET Operations ---'' @ endl)) (\<lambda>_.
     bindM (showValue env patience ''GET: '' ''greeting'') (\<lambda>_.
     bindM (showValue env patience ''GET: '' ''language'') (\<lambda>_.
     bindM (showValue env patience ''GET: '' ''version'') (\<lambda>_.
     bindM (showMissing env patience ''nonexistent'' ''<not found>'') (\<lambda>_.
     bindM (print (endl @ ''--- REMOVE Operations ---'' @ endl)) (\<lambda>_.
     bindM (getNow patience (cacheRemove env (bytes ''language'') False)) (\<lambda>_.
     bindM (print (''REMOVE: language deleted successfully'' @ endl)) (\<lambda>_.
     bindM (showMissing env patience ''language'' ''<not found (after delete)>'') (\<lambda>_.
     bindM (print (endl @ ''--- Summary ---'' @ endl)) (\<lambda>_.
     bindM (print (''Remaining entries in cache:'' @ endl)) (\<lambda>_.
     bindM (showValue env patience ''  '' ''greeting'') (\<lambda>_.
     bindM (showValue env patience ''  '' ''version'') (\<lambda>_.
     bindM (onCache (cacheDisconnect busy)) (\<lambda>_.
     print (endl @ ''Disconnected from server.'' @ endl))))))))))))))))))))))"

definition quickstart :: "Environment \<Rightarrow> nat \<Rightarrow> bool \<Rightarrow> (exn, int) outcome \<times> Program" where
  "quickstart env patience busy =
     bindM (print (''=== Hot Rod C++ Client Quickstart ==='' @ endl)) (\<lambda>_.
     bindM (catchM (bindM (withCache busy (quickstartBlock env patience busy)) (\<lambda>_. ret True)) (\<lambda>e. ret False)) (\<lambda>completed.
     if completed then bindM (print (endl @ ''=== Quickstart Complete ==='' @ endl)) (\<lambda>_. ret 0)
     else ret 1))
     \<lparr>pg_cache = newRemoteCache ''localhost'' 11222 ''quickstart-cache'', pg_out = []\<rparr>"

section \<open>retry.cpp\<close>

definition retryBlock :: "Environment \<Rightarrow> nat \<Rightarrow> bool \<Rightarrow> unit program" where
  "retryBlock env patience busy =
     bindM (onCache (modifyC (cacheSetClientIntelligence HASH_DISTRIBUTION_AWARE))) (\<lambda>_.
     bindM (onCache (modifyC (setProxyToNonOwner True))) (\<lambda>_.
     bindM (print (''Connecting...'' @ endl)) (\<lambda>_.
     bindM (onCache (cacheConnect env)) (\<lambda>_.
     bindM (print (''Connected.'' @ endl @ endl)) (\<lambda>_.
     bindM (print (''--- PING with retry (keyless) ---'' @ endl)) (\<lambda>_.
     bindM (onCache (pingWithRetry env patience 4)) (\<lambda>_.
     bindM (print (''PING ok'' @ endl @ endl)) (\<lambda>_.
     bindM (print (''--- PUT with retry ---'' @ endl)) (\<lambda>_.
     bindM (onCache (putWithRetry env patience (bytes ''retry-demo-key'') (bytes ''retry-demo-value'') 4)) (\<lambda>_.
     bindM (print (''PUT ok: retry-demo-key = retry-demo-value'' @ endl @ endl)) (\<lambda>_.
     bindM (print (''--- GET with retry ---'' @ endl)) (\<lambda>_.
     bindM (onCache (getWithRetry env patience (bytes ''retry-demo-key'') 4)) (\<lambda>result.
     bindM (case result of
         Some value \<Rightarrow> print (''GET ok: retry-demo-key = '' @ string_of_bytes value @ endl)
       | None \<Rightarrow> print (''GET: <not found>'' @ endl)) (\<lambda>_.
     bindM (print (endl @ ''To actually exercise the retry path, run against a cluster'' @ endl @
         ''and kill an owner node mid-run: the plain call throws a'' @ endl @
         ''HotRodClientException and the loop retries via excluding(e).'' @ endl)) (\<lambda>_.
     bindM (onCache (cacheDisconnect busy)) (\<lambda>_.
     print (endl @ ''Disconnected.'' @ endl)))))))))))))))))"

definition retryExample :: "Environment \<Rightarrow> nat \<Rightarrow> bool \<Rightarrow> (exn, int) outcome \<times> Program" where
  "retryExample env patience busy =
     bindM (print (''=== Hot Rod C++ Client - User-Decided Retry ==='' @ endl)) (\<lambda>_.
     bindM (catchM (bindM (withCache busy (retryBlock env patience busy)) (\<lambda>_. ret True)) (\<lambda>e. ret False)) (\<lambda>completed.
     if completed then bindM (print (endl @ ''=== Retry Example Complete ==='' @ endl)) (\<lambda>_. ret 0)
     else ret 1))
     \<lparr>pg_cache = newRemoteCache ''localhost'' 11222 ''quickstart-cache'', pg_out = []\<rparr>"

section \<open>Asking a server whose answers are on their way\<close>

definition ready :: "RemoteCache \<Rightarrow> VLong \<Rightarrow> nat \<Rightarrow> byteArray \<Rightarrow> bool" where
  "ready s i n input \<longleftrightarrow> fits32 (rc_cacheName s) \<and> (\<exists>m c ns. idle s m c \<and> mx_nextMessageId m = i \<and> avail c = input \<and> cn_socket c \<and>
     sendScript c = map SendAccepts ns \<and> n \<le> length ns \<and> (\<forall>k \<in> set ns. 2 ^ 35 \<le> k))"

lemma ask_call:
  assumes rd: "ready s i (Suc n) (encodeResponseStart ci i expected st None @ bodyBytes @ rest)"
    and op: "\<And>m c. idle s m c \<Longrightarrow> operation s = submit (rc_connection s) (theCall s request opc expected parser flags) result s"
    and len: "length request \<le> 2 ^ 34" and ex: "expected \<noteq> ERROR_RESPONSE"
    and y: "\<And>e ver. ver \<ge> VERSION_40 \<Longrightarrow> holds e (bodyBytes @ rest) \<Longrightarrow> yields e (parser st ver flags) body rest"
    and res: "result (answered st body None) = Ok v"
  shows "\<exists>s'. bindM operation (blockingGet (Suc patience)) s = (Ok v, s') \<and> ready s' (i + 1) n rest"
proof -
  from rd obtain m c k ks where i: "idle s m c" and c: "mx_nextMessageId m = i" "cn_socket c"
      "avail c = encodeResponseStart ci i expected st None @ bodyBytes @ rest"
      "sendScript c = map SendAccepts (k # ks)" "n \<le> length ks" "\<forall>k \<in> set (k # ks). 2 ^ 35 \<le> k" and nm: "fits32 (rc_cacheName s)"
    unfolding ready_def by (fastforce simp: Suc_le_length_iff)
  let ?data = "requestBytes s m request opc flags" and ?a = "rc_connection s"
  let ?d = "c\<lparr>sent := sent c @ ?data, sendScript := map SendAccepts ks\<rparr>"
  have "send ?data c = (Ok (), ?d)" using request_accepted [OF _ nm c(4) _ len] c(6) i by (simp add: idle_def)
  note sub = idle_submit [OF i this, of expected parser result]
  let ?s1 = "s\<lparr>rc_store := (rc_store s)(?a \<mapsto> waiting s m expected parser flags ?d), rc_held := rc_held s @ [?a]\<rparr>"
  have "cache_inv ?s1" using preserves_submit sub i unfolding preserves_def idle_def by blast
  moreover have "mx_protocolVersion m \<ge> VERSION_40" using i by (simp add: idle_def)
  ultimately obtain m' d' where "blockingGet (Suc patience) \<lparr>fu_conn = ?a, fu_ticket = mx_issued m, fu_result = result\<rparr> ?s1 =
      (Ok v, ?s1\<lparr>rc_store := (rc_store ?s1)(?a \<mapsto> m'), rc_held := remove1 ?a (rc_held ?s1)\<rparr>)"
    "idle (?s1\<lparr>rc_store := (rc_store ?s1)(?a \<mapsto> m'), rc_held := remove1 ?a (rc_held ?s1)\<rparr>) m' d'"
    "same_conn ?d d'" "avail d' = rest" "mx_nextMessageId m' = i + 1"
    using idle_answer [OF i, of ?d ci expected st bodyBytes rest ?s1 parser flags body result v patience] y i c(1,3) res ex
    by (auto simp: idle_def seedOnly_def avail_def)
  with sub op [OF i] c nm show ?thesis
    by (auto simp: bindM_def ready_def same_conn_def intro!: exI [of _ m'] exI [of _ d'] exI [of _ ks])
qed

text \<open>The answers a server that starts with the entries \<open>M\<close> gives to requests from message id \<open>i\<close> on.\<close>

fun answersTo :: "(VLong \<Rightarrow> EntryMetadata) \<Rightarrow> VLong \<Rightarrow> Request list \<Rightarrow> entries \<Rightarrow> byteArray" where
  "answersTo md i [] M = []"
| "answersTo md i (r # rs) M = (case protocolAnswer False r M of (st, body) \<Rightarrow>
     encodeResponseStart BASIC i (requestOpcode r + 1) st None @ encodeBody body @
     answersTo md (i + 1) rs (snd (cacheSpec False (md i) r M)))"

lemma ask_server:
  assumes rd: "ready s i (Suc n) (answersTo md i (r # rs) M)" and r: "sendableRequest r" and M: "valid_entries M"
    and res: "result [] [] (case protocolAnswer False r M of (st, b) \<Rightarrow> answered st b None) = Ok v"
  shows "\<exists>s'. bindM (keyed env key noExclusions (requestBody r) (requestOpcode r) (requestOpcode r + 1) (parserOf (operationOf r))
      flags result) (blockingGet (Suc patience)) s = (Ok v, s') \<and> ready s' (i + 1) n (answersTo md (i + 1) rs (snd (cacheSpec False (md i) r M)))"
proof -
  obtain st body where a: "protocolAnswer False r M = (st, body)" by (cases "protocolAnswer False r M")
  have legal: "legal (operationOf r) st body" using answer_legal [OF M, of r False] a by simp
  have ex: "requestOpcode r + 1 \<noteq> ERROR_RESPONSE" by (cases r) (simp_all add: ERROR_RESPONSE_def)
  show ?thesis
    by (rule ask_call [where operation = "keyed env key noExclusions (requestBody r) (requestOpcode r) (requestOpcode r + 1)
          (parserOf (operationOf r)) flags result" and request = "requestBody r" and opc = "requestOpcode r" and expected = "requestOpcode r + 1"
          and parser = "parserOf (operationOf r)" and flags = flags and result = "result [] []" and bodyBytes = "encodeBody body"
          and body = body and st = st and ci = BASIC, OF _ _ length_body [OF r] ex legal_body_consumed [OF legal]])
      (use rd a res in \<open>auto simp: noExclusions_def seed_operations\<close>)
qed

text \<open>Disconnecting with all answers read: the read thread, if it is waiting for more, is woken by the shutdown.\<close>

lemma ending_not_data: "ending evs \<noteq> RecvData seg # rest"
  by (induction evs rule: ending.induct) auto

lemma ready_disconnect:
  assumes "ready s i n []"
  shows "\<exists>s'. cacheDisconnect busy s = (Ok (), s') \<and> \<not> isConnected s'"
proof -
  from assms obtain m c where i: "idle s m c" and c: "avail c = []" "cn_socket c" by (auto simp: ready_def)
  then have m: "rc_store s (rc_connection s) = Some m" "mx_connection m = Some c" "cn_connected c" by (auto simp: idle_def)
  let ?c = "c\<lparr>incoming := incoming c @ [RecvClosed]\<rparr>"
  let ?m = "m\<lparr>mx_stopReadLoop := True, mx_connection := Some ?c\<rparr>"
  have e: "stream evs = [] \<Longrightarrow> stream (evs @ [RecvClosed]) = [] \<and> ending (evs @ [RecvClosed]) \<noteq> []" for evs
    by (induction evs rule: ending.induct) auto
  have sh: "shutdown c = ?c" using m(3) c(2) by (simp add: shutdown_def)
  have "\<exists>err. fst (receive 1 ?c) = Throw err"
    using receive_short [of ?c 1] m(3) c(1) e [of "incoming c"]
    by (cases "ending (incoming c @ [RecvClosed])" rule: endOutcome.cases) (auto simp: avail_def ending_not_data)
  then obtain err d where "receive 1 ?c = (Throw err, d)" by (metis prod.collapse)
  then have one: "readOne ?m = (Throw err, ?m\<lparr>mx_connection := Some d\<rparr>)" by (simp add: readOne_def bindM_def onMux_def)
  obtain m' where m': "muxClose busy m = (Ok (), m')" "mx_callbacks m' = mx_callbacks m" "\<not> mx_connected m'"
    using one by (cases "mx_readThread m \<and> busy")
      (auto simp: muxClose_def bindM_def modifyM_def ret_def m(2) sh readIteration_def closeAllPending_eq)
  then show ?thesis using m(1)
    by (simp add: cacheDisconnect_def onReadThread_def bindM_def ret_def isConnected_def)
qed

section \<open>Running programs\<close>

text \<open>\<open>runs f P v Q\<close>: from any state in \<open>P\<close> the computation returns \<open>v\<close>, in a state in \<open>Q\<close>.\<close>

definition runs :: "'a program \<Rightarrow> (Program \<Rightarrow> bool) \<Rightarrow> 'a \<Rightarrow> (Program \<Rightarrow> bool) \<Rightarrow> bool" where
  "runs f P v Q \<longleftrightarrow> (\<forall>p. P p \<longrightarrow> (\<exists>p'. f p = (Ok v, p') \<and> Q p'))"

lemma runs_bind: "runs f P v Q \<Longrightarrow> runs (g v) Q w R \<Longrightarrow> runs (bindM f g) P w R"
  by (fastforce simp: runs_def bindM_def)

lemma runs_ret: "runs (ret v) P v P"
  by (simp add: runs_def ret_def)

lemma runs_catch: "runs f P v Q \<Longrightarrow> runs (catchM f g) P v Q"
  by (fastforce simp: runs_def catchM_def)

text \<open>The cache can be asked the requests \<open>rs\<close>, which a server with the entries \<open>M\<close> answers; the output so far.\<close>

definition stage :: "(VLong \<Rightarrow> EntryMetadata) \<Rightarrow> VLong \<Rightarrow> Request list \<Rightarrow> entries \<Rightarrow> string \<Rightarrow> Program \<Rightarrow> bool" where
  "stage md i rs M out p \<longleftrightarrow> ready (pg_cache p) i (length rs) (answersTo md i rs M) \<and> valid_entries M \<and>
     (\<forall>j. valid_metadata (md j)) \<and> pg_out p = out"

definition closed :: "string \<Rightarrow> Program \<Rightarrow> bool" where
  "closed out p \<longleftrightarrow> \<not> isConnected (pg_cache p) \<and> pg_out p = out"

lemma runs_print: "runs (print t) (stage md i rs M out) () (stage md i rs M (out @ t))" "runs (print t) (closed out) () (closed (out @ t))"
  by (auto simp: runs_def print_def stage_def closed_def)

lemma getNow_runs:
  assumes "operation = keyed env key noExclusions (requestBody r) (requestOpcode r) (requestOpcode r + 1) (parserOf (operationOf r)) flags result"
    and "sendableRequest r" and "result [] [] (case protocolAnswer False r M of (st, b) \<Rightarrow> answered st b None) = Ok v"
  shows "runs (getNow (Suc patience) operation) (stage md i (r # rs) M out) v (stage md (i + 1) rs (snd (cacheSpec False (md i) r M)) out)"
  unfolding runs_def
proof (intro allI impI)
  fix p assume "stage md i (r # rs) M out p"
  then have p: "ready (pg_cache p) i (Suc (length rs)) (answersTo md i (r # rs) M)" "valid_entries M" "\<forall>j. valid_metadata (md j)" "pg_out p = out"
    by (simp_all add: stage_def)
  from ask_server [OF p(1) assms(2) p(2), of result v env key flags patience] assms(3) obtain s' where
    "bindM operation (blockingGet (Suc patience)) (pg_cache p) = (Ok v, s')"
    "ready s' (i + 1) (length rs) (answersTo md (i + 1) rs (snd (cacheSpec False (md i) r M)))" unfolding assms(1) by blast
  with p valid_entries_spec [OF p(2) p(3) [rule_format] assms(2)]
  show "\<exists>p'. getNow (Suc patience) operation p = (Ok v, p') \<and> stage md (i + 1) rs (snd (cacheSpec False (md i) r M)) out p'"
    by (simp add: getNow_def onCache_def stage_def)
qed

lemma put_runs:
  assumes "fits32 k" and "fits32 v"
  shows "runs (getNow (Suc patience) (cachePut env k v 0 0 False)) (stage md i (PutR k v 0 0 # rs) M out) None
    (stage md (i + 1) rs (M(k \<mapsto> \<lparr>ew_metadata = md i, ew_value = v\<rparr>)) out)"
proof -
  have r: "putResult [] [] (case protocolAnswer False (PutR k v 0 0) M of (st, b) \<Rightarrow> answered st b None) = Ok None"
    using results_of_answers(4) [where p = False] by simp
  show ?thesis
    using getNow_runs [where r = "PutR k v 0 0" and result = putResult and M = M and operation = "cachePut env k v 0 0 False" and env = env and key = k and flags = 0, OF _ _ r,
        of patience md i rs out] assms
    by (simp add: public_defs previousFlag_def)
qed

lemma get_runs:
  assumes "fits32 k"
  shows "runs (getNow (Suc patience) (cacheGet env k)) (stage md i (GetR k # rs) M out) (map_option ew_value (M k)) (stage md (i + 1) rs M out)"
proof -
  have r: "getResult [] [] (case protocolAnswer False (GetR k) M of (st, b) \<Rightarrow> answered st b None) = Ok (map_option ew_value (M k))"
    using results_of_answers(1) [where p = False] by simp
  show ?thesis
    using getNow_runs [where r = "GetR k" and result = getResult and M = M and operation = "cacheGet env k" and env = env and key = k and flags = 0, OF _ _ r,
        of patience md i rs out] assms
    by (simp add: public_defs)
qed

lemma remove_runs:
  assumes "fits32 k"
  shows "runs (getNow (Suc patience) (cacheRemove env k False)) (stage md i (RemoveR k # rs) M out) None (stage md (i + 1) rs (M(k := None)) out)"
proof -
  have r: "removeResult [] [] (case protocolAnswer False (RemoveR k) M of (st, b) \<Rightarrow> answered st b None) = Ok None"
    using results_of_answers(7) [where p = False] by simp
  show ?thesis
    using getNow_runs [where r = "RemoveR k" and result = removeResult and M = M and operation = "cacheRemove env k False" and env = env and key = k and flags = 0, OF _ _ r,
        of patience md i rs out] assms
    by (simp add: public_defs previousFlag_def)
qed

lemma disconnect_runs: "runs (onCache (cacheDisconnect busy)) (stage md i [] M out) () (closed out)"
  using ready_disconnect [of _ i 0 busy] by (fastforce simp: runs_def stage_def closed_def onCache_def)

lemma destroy_runs: "runs (destroyCache busy) (closed out) () (closed out)"
  by (simp add: runs_def destroyCache_def closed_def onCache_def catchM_def destroyRemoteCache_def ret_def)

lemma withCache_runs: "runs block P () (closed out) \<Longrightarrow> runs (withCache busy block) P () (closed out)"
  unfolding withCache_def by (rule runs_bind [OF runs_catch destroy_runs])

lemma bytes_length [simp]: "length (bytes t) = length t"
  by (simp add: bytes_def bytes_of_string_def)

lemma putEntry_runs:
  assumes "length k < 2 ^ 32" and "length v < 2 ^ 32"
  shows "runs (putEntry env (Suc patience) k v) (stage md i (PutR (bytes k) (bytes v) 0 0 # rs) M out) ()
    (stage md (i + 1) rs (M(bytes k \<mapsto> \<lparr>ew_metadata = md i, ew_value = bytes v\<rparr>)) (out @ ''PUT: '' @ k @ '' = '' @ v @ endl))"
  unfolding putEntry_def by (rule runs_bind [OF put_runs runs_print(1)]) (use assms in simp_all)

lemma showValue_runs:
  assumes "length k < 2 ^ 32" and "map_option ew_value (M (bytes k)) = Some (bytes v)"
  shows "runs (showValue env (Suc patience) prefix k) (stage md i (GetR (bytes k) # rs) M out) ()
    (stage md (i + 1) rs M (out @ prefix @ k @ '' = '' @ v @ endl))"
proof -
  have "runs (getNow (Suc patience) (cacheGet env (bytes k))) (stage md i (GetR (bytes k) # rs) M out) (Some (bytes v)) (stage md (i + 1) rs M out)"
    using get_runs [of "bytes k" patience env md i rs M out, unfolded assms(2)] assms(1) by simp
  then show ?thesis unfolding showValue_def by (rule runs_bind) (simp add: bytes_def runs_print)
qed

lemma showMissing_runs:
  assumes "length k < 2 ^ 32" and "M (bytes k) = None"
  shows "runs (showMissing env (Suc patience) k note) (stage md i (GetR (bytes k) # rs) M out) ()
    (stage md (i + 1) rs M (out @ ''GET: '' @ k @ '' = '' @ note @ endl))"
  unfolding showMissing_def
  by (rule runs_bind [OF get_runs], use assms(1) in \<open>simp\<close>, unfold assms(2) option.map option.case, rule runs_print)

lemma bytes_eq_iff [simp]: "bytes a = bytes b \<longleftrightarrow> a = b"
  by (metis bytes_def string_of_bytes_of_string)

definition transcript :: "string list \<Rightarrow> string" where
  "transcript ls = concat (map (\<lambda>line. line @ endl) ls)"

section \<open>Before and after connect\<close>

text \<open>A cache object before connect, with its intelligence and proxy settings.\<close>

definition fresh :: "ClientIntelligence \<Rightarrow> bool \<Rightarrow> string \<Rightarrow> 16 word \<Rightarrow> string \<Rightarrow> string \<Rightarrow> Program \<Rightarrow> bool" where
  "fresh ci proxy host port name out p \<longleftrightarrow>
     p = \<lparr>pg_cache = setProxyToNonOwner proxy (cacheSetClientIntelligence ci (newRemoteCache host port name)), pg_out = out\<rparr>"

lemma closed_out: "runs f P v (closed out) \<Longrightarrow> out = out' \<Longrightarrow> runs f P v (closed out')"
  by simp

lemma fresh_print: "runs (print t) (fresh ci proxy host port name out) () (fresh ci proxy host port name (out @ t))"
  by (simp add: runs_def print_def fresh_def)

lemma fresh_new: "fresh BASIC True host port name out \<lparr>pg_cache = newRemoteCache host port name, pg_out = out\<rparr>"
  by (simp add: fresh_def default_settings)

text \<open>
  A network on which an address of the server accepts the connection, takes at least \<open>n\<close> requests and brings
  the bytes \<open>input\<close>.
\<close>

definition brings :: "Network \<Rightarrow> nat \<Rightarrow> byteArray \<Rightarrow> bool" where
  "brings net n input \<longleftrightarrow> (\<exists>as. nw_resolved net = Inr as \<and> (\<exists>a \<in> set as. attemptSucceeds a)) \<and> stream (nw_incoming net) = input \<and>
     (\<exists>ns. nw_sendScript net = map SendAccepts ns \<and> n \<le> length ns \<and> (\<forall>k \<in> set ns. 2 ^ 35 \<le> k))"

definition valid_server :: "(VLong \<Rightarrow> EntryMetadata) \<Rightarrow> entries \<Rightarrow> bool" where
  "valid_server md M \<longleftrightarrow> valid_entries M \<and> (\<forall>j. valid_metadata (md j))"

lemma connect_ready:
  assumes "brings (en_network env host port 0) n input" and "length name < 2 ^ 32"
  shows "\<exists>s. cacheConnect env (setProxyToNonOwner proxy (cacheSetClientIntelligence ci (newRemoteCache host port name))) = (Ok (), s) \<and>
    ready s 0 n input"
proof -
  from assms(1) obtain as where net: "nw_resolved (en_network env host port 0) = Inr as" "\<exists>a \<in> set as. attemptSucceeds a"
    by (auto simp: brings_def)
  from connect_idle [OF refl this, of proxy ci name] assms show ?thesis
    by (fastforce simp: brings_def ready_def avail_def)
qed

lemma connect_runs:
  assumes "brings (en_network env host port 0) (length rs) (answersTo md 0 rs M)" and "valid_server md M" and "length name < 2 ^ 32"
  shows "runs (onCache (cacheConnect env)) (fresh ci proxy host port name out) () (stage md 0 rs M out)"
  using connect_ready [OF assms(1,3), of proxy ci] assms(2)
  by (fastforce simp: runs_def onCache_def stage_def fresh_def valid_server_def)

section \<open>A main function around a block\<close>

lemma main_runs:
  assumes "runs block (fresh ci proxy host port name title) () (closed out)"
  shows "runs (bindM (print title) (\<lambda>_.
     bindM (catchM (bindM (withCache busy block) (\<lambda>_. ret True)) (\<lambda>e. ret False)) (\<lambda>completed.
     if completed then bindM (print farewell) (\<lambda>_. ret 0) else ret 1))) (fresh ci proxy host port name []) (0::int) (closed (out @ farewell))"
  by (rule runs_bind [OF fresh_print], unfold append_Nil,
      rule runs_bind [OF runs_catch [OF runs_bind [OF withCache_runs [OF assms] runs_ret]]], unfold if_True, rule runs_bind [OF runs_print(2) runs_ret])

text \<open>A server none of whose addresses can be reached, or whose name does not resolve.\<close>

definition unreachableServer :: "Network \<Rightarrow> bool" where
  "unreachableServer net \<longleftrightarrow> (case nw_resolved net of Inl e \<Rightarrow> True | Inr as \<Rightarrow> \<forall>a \<in> set as. \<not> attemptSucceeds a)"

text \<open>\<open>fails f P Q\<close>: from any state in \<open>P\<close> the computation throws, in a state in \<open>Q\<close>.\<close>

definition fails :: "'a program \<Rightarrow> (Program \<Rightarrow> bool) \<Rightarrow> (Program \<Rightarrow> bool) \<Rightarrow> bool" where
  "fails f P Q \<longleftrightarrow> (\<forall>p. P p \<longrightarrow> (\<exists>e p'. f p = (Throw e, p') \<and> Q p'))"

lemma fails_now: "fails f P Q \<Longrightarrow> fails (bindM f g) P Q"
  by (fastforce simp: fails_def bindM_def)

lemma fails_later: "runs f P v Q \<Longrightarrow> fails (g v) Q R \<Longrightarrow> fails (bindM f g) P R"
  by (fastforce simp: fails_def runs_def bindM_def)

lemma fails_destroyed: "fails block P (closed out) \<Longrightarrow> fails (withCache busy block) P (closed out)"
  unfolding withCache_def
proof (rule fails_now)
  assume f: "fails block P (closed out)"
  show "fails (catchM block (\<lambda>e. bindM (destroyCache busy) (\<lambda>_. throw e))) P (closed out)"
    unfolding fails_def
  proof (intro allI impI)
    fix p assume "P p"
    with f obtain e p' where b: "block p = (Throw e, p')" "closed out p'" unfolding fails_def by blast
    from destroy_runs b(2) obtain p'' where "destroyCache busy p' = (Ok (), p'')" "closed out p''" unfolding runs_def by blast
    with b(1) show "\<exists>e p'. catchM block (\<lambda>e. bindM (destroyCache busy) (\<lambda>_. throw e)) p = (Throw e, p') \<and> closed out p'"
      by (simp add: catchM_def bindM_def throw_def)
  qed
qed

lemma connect_fails:
  assumes "unreachableServer (en_network env host port 0)"
  shows "fails (onCache (cacheConnect env)) (fresh ci proxy host port name out) (closed out)"
proof -
  let ?net = "en_network env host port 0"
  have no: "\<not> cn_connected (tryAddresses as (newConnection host port inc scr))" if "nw_resolved ?net = Inr as" for as inc scr
    using assms that by (simp add: unreachableServer_def tryAddresses_connected newConnection_def)
  show ?thesis
    unfolding fails_def using no
    by (cases "nw_resolved ?net")
      (simp_all add: fresh_def onCache_def closed_def isConnected_def setProxyToNonOwner_def cacheSetClientIntelligence_def cacheConnect_def
        connectObject_def newRemoteCache_def newMultiplexedConnection_def onObject_def bindM_def setProtocolVersion_def setClientIntelligence_def
        setAuthentication_def modifyC_def muxConnect_def modifyM_def onMux_def connect_def newConnection_def throw_def ret_def Let_def)
qed

lemma main_fails:
  assumes "fails block (fresh ci proxy host port name title) (closed out)"
  shows "runs (bindM (print title) (\<lambda>_.
     bindM (catchM (bindM (withCache busy block) (\<lambda>_. ret True)) (\<lambda>e. ret False)) (\<lambda>completed.
     if completed then bindM (print farewell) (\<lambda>_. ret 0) else ret 1))) (fresh ci proxy host port name []) (1::int) (closed out)"
proof (rule runs_bind [OF fresh_print], unfold append_Nil, rule runs_bind)
  have "fails (bindM (withCache busy block) (\<lambda>_. ret True)) (fresh ci proxy host port name title) (closed out)"
    by (rule fails_now [OF fails_destroyed [OF assms]])
  then show "runs (catchM (bindM (withCache busy block) (\<lambda>_. ret True)) (\<lambda>e. ret False)) (fresh ci proxy host port name title) False (closed out)"
    by (fastforce simp: runs_def fails_def catchM_def ret_def)
  show "runs (if False then bindM (print farewell) (\<lambda>_. ret 0) else ret 1) (closed out) (1::int) (closed out)"
    by (simp add: runs_ret)
qed

section \<open>The quickstart\<close>

definition quickstartRequests :: "Request list" where
  "quickstartRequests =
     [PutR (bytes ''greeting'') (bytes ''Hello, Infinispan!'') 0 0, PutR (bytes ''language'') (bytes ''C++17'') 0 0,
      PutR (bytes ''version'') (bytes ''1.0.0'') 0 0, GetR (bytes ''greeting''), GetR (bytes ''language''), GetR (bytes ''version''),
      GetR (bytes ''nonexistent''), RemoveR (bytes ''language''), GetR (bytes ''language''), GetR (bytes ''greeting''), GetR (bytes ''version'')]"

definition quickstartLines :: "string list" where
  "quickstartLines =
     [''=== Hot Rod C++ Client Quickstart ==='', ''Connecting to Infinispan server...'', ''Connected successfully!'',
      [], ''--- PUT Operations ---'', ''PUT: greeting = Hello, Infinispan!'', ''PUT: language = C++17'', ''PUT: version = 1.0.0'',
      [], ''--- GET Operations ---'', ''GET: greeting = Hello, Infinispan!'', ''GET: language = C++17'', ''GET: version = 1.0.0'',
      ''GET: nonexistent = <not found>'',
      [], ''--- REMOVE Operations ---'', ''REMOVE: language deleted successfully'', ''GET: language = <not found (after delete)>'',
      [], ''--- Summary ---'', ''Remaining entries in cache:'', ''  greeting = Hello, Infinispan!'', ''  version = 1.0.0'',
      [], ''Disconnected from server.'', [], ''=== Quickstart Complete ==='']"

lemma quickstart_block_runs:
  assumes net: "brings (en_network env host port 0) (length quickstartRequests) (answersTo md 0 quickstartRequests M)"
      "valid_server md M" "length name < 2 ^ 32" and M: "M (bytes ''nonexistent'') = None"
  shows "runs (quickstartBlock env (Suc patience) busy) (fresh ci proxy host port name out) ()
    (closed (out @ transcript (take 24 (drop 1 quickstartLines))))"
  unfolding quickstartBlock_def
  by (rule closed_out, rule runs_bind [OF fresh_print],
      rule runs_bind [OF connect_runs [OF net, unfolded quickstartRequests_def]],
      rule runs_bind [OF runs_print(1)], rule runs_bind [OF runs_print(1)],
      (rule runs_bind [OF putEntry_runs], simp, simp)+,
      rule runs_bind [OF runs_print(1)],
      rule runs_bind [OF showValue_runs [where v = "''Hello, Infinispan!''"]], simp, simp,
      rule runs_bind [OF showValue_runs [where v = "''C++17''"]], simp, simp,
      rule runs_bind [OF showValue_runs [where v = "''1.0.0''"]], simp, simp,
      rule runs_bind [OF showMissing_runs], simp, simp add: M,
      rule runs_bind [OF runs_print(1)],
      rule runs_bind [OF remove_runs], simp,
      rule runs_bind [OF runs_print(1)],
      rule runs_bind [OF showMissing_runs], simp, simp,
      rule runs_bind [OF runs_print(1)], rule runs_bind [OF runs_print(1)],
      rule runs_bind [OF showValue_runs [where v = "''Hello, Infinispan!''"]], simp, simp,
      rule runs_bind [OF showValue_runs [where v = "''1.0.0''"]], simp, simp,
      rule runs_bind [OF disconnect_runs], rule runs_print(2))
    (simp add: transcript_def quickstartLines_def)

text \<open>
  C23: The quickstart does what it says. When the server's address accepts the connection and the network brings
  the answers of a Hot Rod server to its eleven requests, whatever entries that server starts with (but
  for the key nonexistent) and however the stream is cut into segments, main returns 0 and writes exactly the
  expected lines: the values put are the values got, the missing key and the removed one are reported as not
  found.
\<close>

theorem quickstart_run:
  assumes net: "brings (en_network env ''localhost'' 11222 0) (length quickstartRequests) (answersTo md 0 quickstartRequests M)"
      "valid_server md M" and M: "M (bytes ''nonexistent'') = None"
  shows "\<exists>p. quickstart env (Suc patience) busy = (Ok 0, p) \<and> pg_out p = transcript quickstartLines"
proof -
  have "length (''quickstart-cache'') < 2 ^ 32" by simp
  from main_runs [OF quickstart_block_runs [OF net this M, where busy = busy and patience = patience
      and ci = BASIC and proxy = True and out = "''=== Hot Rod C++ Client Quickstart ==='' @ endl"],
    where busy = busy and farewell = "endl @ ''=== Quickstart Complete ==='' @ endl"]
  show ?thesis unfolding quickstart_def runs_def closed_def
    using fresh_new [of "''localhost''" 11222 "''quickstart-cache''" "[]"] by (fastforce simp: transcript_def quickstartLines_def)
qed

text \<open>A server that held nothing, its answers in one segment.\<close>

definition quickstartEnv :: Environment where
  "quickstartEnv = \<lparr>en_crypto = letterCrypto, en_network = (\<lambda>host port attempt.
     \<lparr>nw_resolved = Inr [Immediate],
      nw_incoming = [RecvData (answersTo (\<lambda>i. noMetadata\<lparr>md_version := Some i\<rparr>) 0 quickstartRequests Map.empty)],
      nw_sendScript = map SendAccepts (replicate 11 (2 ^ 35))\<rparr>)\<rparr>"

theorem quickstart_run_witness: "\<exists>p. quickstart quickstartEnv 1 True = (Ok 0, p) \<and> pg_out p = transcript quickstartLines"
proof -
  let ?md = "\<lambda>i. noMetadata\<lparr>md_version := Some i\<rparr>"
  have "brings (en_network quickstartEnv ''localhost'' 11222 0) (length quickstartRequests) (answersTo ?md 0 quickstartRequests Map.empty)"
    by (simp add: brings_def quickstartEnv_def attemptSucceeds_def quickstartRequests_def exI [of _ "replicate 11 (2 ^ 35)"]
        exI [of "\<lambda>ns. replicate 11 (SendAccepts (2 ^ 35)) = map SendAccepts ns \<and> _ ns"])
  moreover have "valid_server ?md Map.empty" by (simp add: valid_server_def valid_entries_def valid_metadata_def noMetadata_def)
  ultimately show ?thesis using quickstart_run [where env = quickstartEnv and md = ?md and M = Map.empty and patience = 0 and busy = True] by simp
qed

section \<open>The retry example against a healthy server\<close>

lemma retryLoop_first: "op excluded s = (Ok v, s') \<Longrightarrow> retryLoop op maxAttempts attempt excluded s = (Ok v, s')"
  by (subst retryLoop.simps) (simp add: catchM_def)

text \<open>The answer to a PING, in front of those to the other requests.\<close>

definition pingAnswer :: "VLong \<Rightarrow> MediaType \<Rightarrow> MediaType \<Rightarrow> byte \<Rightarrow> byte list list \<Rightarrow> byteArray" where
  "pingAnswer i keyType valueType version opcodes =
     encodeResponseStart BASIC i 0x18 0 None @ encodePing keyType valueType version opcodes"

lemma ask_ping:
  assumes rd: "ready s i (Suc n) (pingAnswer i keyType valueType version opcodes @ rest)"
    and t: "short_type keyType" "short_type valueType" "\<forall>p \<in> set opcodes. length p = 2" "length opcodes < 128"
  shows "\<exists>s'. bindM (cachePing env) (blockingGet (Suc patience)) s = (Ok (), s') \<and> ready s' (i + 1) n rest"
  unfolding cachePing_def
  by (rule ask_call [where operation = "pingImpl env noExclusions" and request = "[]" and opc = "0x17" and expected = "0x18" and parser = pingParser
        and flags = 0 and result = "pingResult [] []" and bodyBytes = "encodePing keyType valueType version opcodes" and body = NoBody
        and st = 0 and ci = BASIC, OF _ _ _ _ ping_short [OF t]])
    (use rd in \<open>auto simp: pingAnswer_def ERROR_RESPONSE_def result_defs seed_operations noExclusions_def\<close>)

text \<open>The first attempt succeeds, so the loops are the plain operations.\<close>

lemma runs_on_cache:
  "runs (onCache f) P v Q \<longleftrightarrow> (\<forall>p. P p \<longrightarrow> (\<exists>s. f (pg_cache p) = (Ok v, s) \<and> Q (p\<lparr>pg_cache := s\<rparr>)))"
  unfolding runs_def onCache_def by (fastforce split: prod.splits)

lemma retry_runs: "runs (onCache (op [])) P v Q \<Longrightarrow> runs (onCache (retryLoop op maxAttempts attempt [])) P v Q"
  unfolding runs_on_cache using retryLoop_first [of op "[]"] by blast

lemma get_retry_runs:
  assumes "fits32 k"
  shows "runs (onCache (getWithRetry env (Suc patience) k maxAttempts)) (stage md i (GetR k # rs) M out)
    (map_option ew_value (M k)) (stage md (i + 1) rs M out)"
  unfolding getWithRetry_def by (rule retry_runs) (use get_runs [OF assms] in \<open>simp add: getNow_def\<close>)

lemma put_retry_runs:
  assumes "fits32 k" and "fits32 v"
  shows "runs (onCache (putWithRetry env (Suc patience) k v maxAttempts)) (stage md i (PutR k v 0 0 # rs) M out) None
    (stage md (i + 1) rs (M(k \<mapsto> \<lparr>ew_metadata = md i, ew_value = v\<rparr>)) out)"
  unfolding putWithRetry_def by (rule retry_runs) (use put_runs [OF assms] in \<open>simp add: getNow_def\<close>)

definition pingable :: "VLong \<Rightarrow> byteArray \<Rightarrow> bool" where
  "pingable i answer \<longleftrightarrow> (\<exists>keyType valueType version opcodes. answer = pingAnswer i keyType valueType version opcodes \<and>
     short_type keyType \<and> short_type valueType \<and> (\<forall>p \<in> set opcodes. length p = 2) \<and> length opcodes < 128)"

definition pingStage :: "byteArray \<Rightarrow> (VLong \<Rightarrow> EntryMetadata) \<Rightarrow> VLong \<Rightarrow> Request list \<Rightarrow> entries \<Rightarrow> string \<Rightarrow> Program \<Rightarrow> bool" where
  "pingStage answer md i rs M out p \<longleftrightarrow> ready (pg_cache p) i (Suc (length rs)) (answer @ answersTo md (i + 1) rs M) \<and> pingable i answer \<and>
     valid_server md M \<and> pg_out p = out"

lemma ping_retry_runs:
  "runs (onCache (pingWithRetry env (Suc patience) maxAttempts)) (pingStage answer md i rs M out) () (stage md (i + 1) rs M out)"
  unfolding pingWithRetry_def
proof (rule retry_runs, unfold runs_on_cache, intro allI impI)
  fix p assume "pingStage answer md i rs M out p"
  then show "\<exists>s. bindM (if [] = [] then cachePing env else viewPing env (RemoteCache.excluding [])) (blockingGet (Suc patience)) (pg_cache p) = (Ok (), s) \<and>
      stage md (i + 1) rs M out (p\<lparr>pg_cache := s\<rparr>)"
    using ask_ping [of "pg_cache p" i "length rs" _ _ _ _ "answersTo md (i + 1) rs M"]
    by (fastforce simp: pingStage_def pingable_def stage_def valid_server_def)
qed

lemma pingStage_print: "runs (print t) (pingStage answer md i rs M out) () (pingStage answer md i rs M (out @ t))"
  by (simp add: runs_def print_def pingStage_def)

lemma ping_connect_runs:
  assumes "brings (en_network env host port 0) (Suc (length rs)) (answer @ answersTo md 1 rs M)" and "pingable 0 answer"
    and "valid_server md M" and "length name < 2 ^ 32"
  shows "runs (onCache (cacheConnect env)) (fresh ci proxy host port name out) () (pingStage answer md 0 rs M out)"
  using connect_ready [OF assms(1,4), of proxy ci] assms(2,3)
  by (fastforce simp: runs_def onCache_def pingStage_def fresh_def)

lemma settings_run:
  "runs (onCache (modifyC (cacheSetClientIntelligence ci'))) (fresh ci proxy host port name out) () (fresh ci' proxy host port name out)"
  "runs (onCache (modifyC (setProxyToNonOwner proxy'))) (fresh ci proxy host port name out) () (fresh ci proxy' host port name out)"
  by (auto simp: runs_def onCache_def modifyC_def fresh_def setProxyToNonOwner_def cacheSetClientIntelligence_def newRemoteCache_def)

definition retryRequests :: "Request list" where
  "retryRequests = [PutR (bytes ''retry-demo-key'') (bytes ''retry-demo-value'') 0 0, GetR (bytes ''retry-demo-key'')]"

definition retryLines :: "string list" where
  "retryLines =
     [''=== Hot Rod C++ Client - User-Decided Retry ==='', ''Connecting...'', ''Connected.'', [],
      ''--- PING with retry (keyless) ---'', ''PING ok'', [],
      ''--- PUT with retry ---'', ''PUT ok: retry-demo-key = retry-demo-value'', [],
      ''--- GET with retry ---'', ''GET ok: retry-demo-key = retry-demo-value'', [],
      ''To actually exercise the retry path, run against a cluster'', ''and kill an owner node mid-run: the plain call throws a'',
      ''HotRodClientException and the loop retries via excluding(e).'', [], ''Disconnected.'', [], ''=== Retry Example Complete ==='']"

lemma retry_block_runs:
  assumes net: "brings (en_network env host port 0) (Suc (length retryRequests)) (answer @ answersTo md 1 retryRequests M)"
      "pingable 0 answer" "valid_server md M" "length name < 2 ^ 32"
  shows "runs (retryBlock env (Suc patience) busy) (fresh ci proxy host port name out) ()
    (closed (out @ transcript (take 17 (drop 1 retryLines))))"
  unfolding retryBlock_def
  by (rule closed_out, rule runs_bind [OF settings_run(1)], rule runs_bind [OF settings_run(2)], rule runs_bind [OF fresh_print],
      rule runs_bind [OF ping_connect_runs [OF net, unfolded retryRequests_def]],
      rule runs_bind [OF pingStage_print], rule runs_bind [OF pingStage_print],
      rule runs_bind [OF ping_retry_runs],
      rule runs_bind [OF runs_print(1)], rule runs_bind [OF runs_print(1)],
      rule runs_bind [OF put_retry_runs], simp, simp,
      rule runs_bind [OF runs_print(1)], rule runs_bind [OF runs_print(1)],
      rule runs_bind [OF get_retry_runs], simp,
      simp only: fun_upd_same option.map option.case EntryWithMetadata.simps bytes_def string_of_bytes_of_string,
      rule runs_bind [OF runs_print(1)], rule runs_bind [OF runs_print(1)],
      rule runs_bind [OF disconnect_runs], rule runs_print(2))
    (simp add: transcript_def retryLines_def endl_def)

text \<open>
  The retry example against a server that answers: with hash awareness asked for and a server that
  answers the PING and the two requests without announcing a topology, each retry loop ends with its first attempt, main returns
  0 and the value written is the value read.
\<close>

theorem retry_example_run:
  assumes net: "brings (en_network env ''localhost'' 11222 0) (Suc (length retryRequests)) (answer @ answersTo md 1 retryRequests M)"
      "pingable 0 answer" "valid_server md M"
  shows "\<exists>p. retryExample env (Suc patience) busy = (Ok 0, p) \<and> pg_out p = transcript retryLines"
proof -
  have "length (''quickstart-cache'') < 2 ^ 32" by simp
  from main_runs [OF retry_block_runs [OF net this, where busy = busy and patience = patience
      and ci = BASIC and proxy = True and out = "''=== Hot Rod C++ Client - User-Decided Retry ==='' @ endl"],
    where busy = busy and farewell = "endl @ ''=== Retry Example Complete ==='' @ endl"]
  show ?thesis unfolding retryExample_def runs_def closed_def
    using fresh_new [of "''localhost''" 11222 "''quickstart-cache''" "[]"] by (fastforce simp: transcript_def retryLines_def)
qed

definition retryEnv :: Environment where
  "retryEnv = \<lparr>en_crypto = letterCrypto, en_network = (\<lambda>host port attempt.
     \<lparr>nw_resolved = Inr [Immediate],
      nw_incoming = [RecvData (pingAnswer 0 NoType NoType 41 [[0, 1]]), RecvData (answersTo (\<lambda>i. noMetadata\<lparr>md_version := Some i\<rparr>) 1 retryRequests Map.empty)],
      nw_sendScript = map SendAccepts (replicate 3 (2 ^ 35))\<rparr>)\<rparr>"

theorem retry_example_run_witness: "\<exists>p. retryExample retryEnv 1 False = (Ok 0, p) \<and> pg_out p = transcript retryLines"
proof -
  let ?md = "\<lambda>i. noMetadata\<lparr>md_version := Some i\<rparr>"
  have "brings (en_network retryEnv ''localhost'' 11222 0) (Suc (length retryRequests))
      (pingAnswer 0 NoType NoType 41 [[0, 1]] @ answersTo ?md 1 retryRequests Map.empty)"
    by (simp add: brings_def retryEnv_def attemptSucceeds_def retryRequests_def exI [of _ "replicate 3 (2 ^ 35)"]
        exI [of "\<lambda>ns. replicate 3 (SendAccepts (2 ^ 35)) = map SendAccepts ns \<and> _ ns"])
  moreover have "pingable 0 (pingAnswer 0 NoType NoType 41 [[0, 1]])"
    unfolding pingable_def by (intro exI [of _ NoType] exI [of _ 41] exI [of _ "[[0, 1]]"]) simp
  moreover have "valid_server ?md Map.empty" by (simp add: valid_server_def valid_entries_def valid_metadata_def noMetadata_def)
  ultimately show ?thesis
    using retry_example_run [where env = retryEnv and md = ?md and M = Map.empty and patience = 0 and busy = False] by simp
qed

section \<open>No server\<close>

text \<open>
  C24: Without a server both programs give up cleanly. When the name does not resolve or no address accepts the
  connection, the exception of connect ends the block, the destructor of the cache that never connected does nothing,
  and main returns 1; the only output is what precedes connect, so neither program claims to have connected.
\<close>

theorem examples_without_server:
  assumes "unreachableServer (en_network env ''localhost'' 11222 0)"
  shows "(\<exists>p. quickstart env patience busy = (Ok 1, p) \<and> pg_out p = transcript (take 2 quickstartLines)) \<and>
    (\<exists>p. retryExample env patience busy = (Ok 1, p) \<and> pg_out p = transcript (take 2 retryLines))"
proof
  let ?title = "''=== Hot Rod C++ Client Quickstart ==='' @ endl"
  have "fails (quickstartBlock env patience busy) (fresh BASIC True ''localhost'' 11222 ''quickstart-cache'' ?title)
      (closed (?title @ ''Connecting to Infinispan server...'' @ endl))"
    unfolding quickstartBlock_def by (rule fails_later [OF fresh_print], rule fails_now [OF connect_fails [OF assms]])
  from main_fails [OF this, where busy = busy and farewell = "endl @ ''=== Quickstart Complete ==='' @ endl"]
  show "\<exists>p. quickstart env patience busy = (Ok 1, p) \<and> pg_out p = transcript (take 2 quickstartLines)"
    using fresh_new unfolding quickstart_def runs_def closed_def by (fastforce simp: transcript_def quickstartLines_def)
next
  let ?title = "''=== Hot Rod C++ Client - User-Decided Retry ==='' @ endl"
  have "fails (retryBlock env patience busy) (fresh BASIC True ''localhost'' 11222 ''quickstart-cache'' ?title)
      (closed (?title @ ''Connecting...'' @ endl))"
    unfolding retryBlock_def
    by (rule fails_later [OF settings_run(1)], rule fails_later [OF settings_run(2)], rule fails_later [OF fresh_print],
        rule fails_now [OF connect_fails [OF assms]])
  from main_fails [OF this, where busy = busy and farewell = "endl @ ''=== Retry Example Complete ==='' @ endl"]
  show "\<exists>p. retryExample env patience busy = (Ok 1, p) \<and> pg_out p = transcript (take 2 retryLines)"
    using fresh_new unfolding retryExample_def runs_def closed_def by (fastforce simp: transcript_def retryLines_def)
qed

definition deadEnv :: Environment where
  "deadEnv = \<lparr>en_crypto = letterCrypto, en_network = (\<lambda>host port attempt.
     \<lparr>nw_resolved = Inl ''Name or service not known'', nw_incoming = [], nw_sendScript = []\<rparr>)\<rparr>"

theorem examples_without_server_witness:
  "\<exists>p. quickstart deadEnv 3 False = (Ok 1, p) \<and>
     pg_out p = transcript [''=== Hot Rod C++ Client Quickstart ==='', ''Connecting to Infinispan server...'']"
  using examples_without_server [of deadEnv 3 False] by (simp add: unreachableServer_def deadEnv_def quickstartLines_def)

end
