(* ===== verification/Reading.thy ===== *)
theory Reading
  imports CacheOperations
begin

text \<open>
  What all reads from a connection have in common. Parsers are put together from receive, so whatever receive
  does not break (a property of the connection, of the exceptions, or that it does not block) no
  parser breaks. The locale \<open>reading\<close> states this once; the theories about closing, typing and the life of
  connections interpret it.
\<close>

section \<open>Computations that obey a condition\<close>

text \<open>
  \<open>obeys Q T b f\<close>: started where \<open>Q\<close> holds, \<open>f\<close> returns where \<open>Q\<close> holds and throws only with \<open>T\<close>, and blocks
  only if \<open>b\<close>.
\<close>

definition obeys :: "('s \<Rightarrow> bool) \<Rightarrow> ('e \<Rightarrow> 's \<Rightarrow> bool) \<Rightarrow> bool \<Rightarrow> ('s, 'e, 'a) comp \<Rightarrow> bool" where
  "obeys Q T b f \<longleftrightarrow> (\<forall>s. Q s \<longrightarrow> (case f s of (Ok a, t) \<Rightarrow> Q t | (Throw e, t) \<Rightarrow> T e t | (Block, t) \<Rightarrow> b | (UB, t) \<Rightarrow> True))"

lemma obeysI:
  assumes "\<And>s a t. Q s \<Longrightarrow> f s = (Ok a, t) \<Longrightarrow> Q t" and "\<And>s e t. Q s \<Longrightarrow> f s = (Throw e, t) \<Longrightarrow> T e t"
    and "\<And>s t. Q s \<Longrightarrow> f s = (Block, t) \<Longrightarrow> b"
  shows "obeys Q T b f"
  using assms unfolding obeys_def by (fastforce split: prod.split outcome.split)

lemma obeysD:
  assumes "obeys Q T b f" and "Q s"
  shows "f s = (Ok a, t) \<Longrightarrow> Q t" and "f s = (Throw e, t) \<Longrightarrow> T e t" and "f s = (Block, t) \<Longrightarrow> b"
  using assms unfolding obeys_def by force+

lemma obeys_bind:
  assumes "obeys Q T b f" and "\<And>a. obeys Q T b (g a)"
  shows "obeys Q T b (bindM f g)"
proof (rule obeysI)
  note f = obeysD [OF assms(1)] and g = obeysD [OF assms(2)]
  { fix s a t assume "Q s" "bindM f g s = (Ok a, t)"
    then show "Q t" by (auto simp: bindM_eq_Ok_iff intro: g(1) f(1)) }
  { fix s e t assume "Q s" "bindM f g s = (Throw e, t)"
    then show "T e t" by (auto elim!: bindM_cases intro: g(2) f) }
  { fix s t assume "Q s" "bindM f g s = (Block, t)"
    then show b by (auto elim!: bindM_cases intro: g(3) f) }
qed

lemma obeys_catch:
  assumes "obeys Q T' b f" and "\<And>e s. T' e s \<Longrightarrow> Q s" and "\<And>e. obeys Q T b (h e)"
  shows "obeys Q T b (catchM f h)"
  unfolding obeys_def
proof (intro allI impI)
  fix s assume s: "Q s"
  obtain r t where f: "f s = (r, t)" by (cases "f s")
  show "case catchM f h s of (Ok a, t) \<Rightarrow> Q t | (Throw e, t) \<Rightarrow> T e t | (Block, t) \<Rightarrow> b | (UB, t) \<Rightarrow> True"
  proof (cases r)
    case (Throw e)
    with obeysD(2) [OF assms(1) s] f assms(2) have "Q t" by blast
    with assms(3) [of e] show ?thesis by (simp add: catchM_def f Throw obeys_def)
  qed (use obeysD [OF assms(1) s] f in \<open>auto simp: catchM_def\<close>)
qed

lemma obeys_basic:
  "obeys Q T b (ret a)" "(\<And>s. Q s \<Longrightarrow> T e s) \<Longrightarrow> obeys Q T b (throw e)"
  "(r = Block \<Longrightarrow> b) \<Longrightarrow> (\<And>e s. r = Throw e \<Longrightarrow> Q s \<Longrightarrow> T e s) \<Longrightarrow> obeys Q T b (liftO r)"
  by (auto simp: obeys_def ret_def throw_def liftO_def split: outcome.split)

lemma obeys_ub: "obeys Q T b ub"
  by (simp add: obeys_def ub_def)

lemma obeys_if: "(c \<Longrightarrow> obeys Q T b f) \<Longrightarrow> (\<not> c \<Longrightarrow> obeys Q T b g) \<Longrightarrow> obeys Q T b (if c then f else g)"
  by simp

lemma obeys_if_at: "(c \<Longrightarrow> obeys Q T b f) \<Longrightarrow> (\<not> c \<Longrightarrow> obeys Q T b g) \<Longrightarrow> obeys Q T b (\<lambda>s. if c then f s else g s)"
  by (cases c) simp_all

lemma obeys_prod: "(\<And>x y. obeys Q T b (f x y)) \<Longrightarrow> obeys Q T b (case p of (x, y) \<Rightarrow> f x y)"
  by (cases p) simp

lemma obeys_at: "(\<And>s. obeys Q T b (f s)) \<Longrightarrow> obeys Q T b (\<lambda>s. f s s)"
  by (simp add: obeys_def)

lemma receiveVarLoop_unfold:
  "receiveVarLoop b sh (v :: 'a::len word) = (if b AND 0x80 = 0 then ret v
     else bindM (receive 1) (\<lambda>nb. if sh \<ge> LENGTH('a) then ub
       else receiveVarLoop (nb ! 0) (sh + 7) (v OR push_bit sh (ucast (nb ! 0 AND 0x7F)))))"
  by (rule ext, subst receiveVarLoop.simps) (auto simp: bindM_def split: prod.splits outcome.splits)

lemma readVarLoop_outcomes:
  "readVarLoop nm buf off b sh (v :: 'a::len word) \<noteq> Block \<and> readVarLoop nm buf off b sh v \<noteq> Throw BadAnyCast"
  by (induction nm buf off b sh v rule: readVarLoop.induct) (subst (1 2) readVarLoop.simps, simp)

section \<open>What receive does not break, no parser breaks\<close>

locale reading =
  fixes Q :: "Connection \<Rightarrow> bool" and T :: "exn \<Rightarrow> Connection \<Rightarrow> bool" and b :: bool
  assumes receives: "obeys Q T b (receive n)" and raises: "Q c \<Longrightarrow> e \<noteq> BadAnyCast \<Longrightarrow> T e c"
begin

lemma throws: "obeys Q T b (throw (HotRod x))" "obeys Q T b (throw (RuntimeError m))"
    "obeys Q T b (throw (statusError operation status))"
  by (auto intro!: obeys_basic raises simp: statusError_def hotrod_exn_def)

lemma varLoop: "obeys Q T b (receiveVarLoop x sh (v :: 'a::len word))"
proof (induction "LENGTH('a) - sh" arbitrary: x sh v rule: less_induct)
  case less
  then show ?case
    by (subst receiveVarLoop_unfold, intro obeys_if obeys_bind obeys_basic(1) obeys_ub receives) auto
qed

lemmas intros = obeys_bind obeys_basic(1) throws obeys_ub obeys_if obeys_prod receives varLoop

lemma reads: "obeys Q T b receiveVInt" "obeys Q T b receiveVLong" "obeys Q T b receiveByteArray" "obeys Q T b receiveString"
  "obeys Q T b receiveMetadata"
proof -
  show i: "obeys Q T b receiveVInt" "obeys Q T b receiveVLong" unfolding receiveVInt_def receiveVLong_def by (intro intros)+
  show a: "obeys Q T b receiveByteArray" unfolding receiveByteArray_def by (intro intros i)
  show "obeys Q T b receiveString" unfolding receiveString_def by (intro intros a)
  show "obeys Q T b receiveMetadata" unfolding receiveMetadata_def Let_def by (intro intros i)
qed

text \<open>A loop that reads a byte and goes on or stops.\<close>

lemma loop:
  assumes "\<And>acc. f acc = bindM (receive 1) (\<lambda>x. if stop x then ret (fin acc x) else f (nxt acc x))"
  shows "obeys Q T b (f acc)"
  unfolding obeys_def
proof (intro allI impI)
  fix c assume "Q c"
  then show "case f acc c of (Ok a, t) \<Rightarrow> Q t | (Throw e, t) \<Rightarrow> T e t | (Block, t) \<Rightarrow> b | (UB, t) \<Rightarrow> True"
  proof (induction "length (avail c)" arbitrary: acc c rule: less_induct)
    case less
    obtain r d where r: "receive 1 c = (r, d)" by (cases "receive 1 c")
    show ?case
    proof (cases r)
      case (Ok x)
      from obeysD(1) [OF receives less.prems] r Ok have "Q d" by blast
      with less.hyps [OF receive_1_consumes [of c x d]] r Ok show ?thesis
        by (subst assms) (simp add: bindM_def ret_def)
    qed (use obeysD [OF receives less.prems] r in \<open>auto simp: assms [of acc] bindM_def\<close>)
  qed
qed

lemma collects: "obeys Q T b (collectVInt acc)"
  by (rule loop [where stop = "\<lambda>x. x ! 0 AND 0x80 = 0", OF collectVInt_unfold])

lemma skips: "obeys Q T b skipVInt"
  using loop [where f = "\<lambda>_ :: unit. skipVInt" and stop = "\<lambda>x. x ! 0 AND 0x80 = 0" and fin = "\<lambda>_ x. x ! 0" and nxt = "\<lambda>a x. a"]
    skipVInt_unfold by simp

lemma counts: "obeys Q T b (readOpCount n)"
  by (rule loop [where stop = "\<lambda>x. x ! 0 AND 0x80 = 0", OF readOpCount_unfold])

lemma bodies: "obeys Q T b (parserOf opn status ver flags)"
proof -
  note i = intros reads skips counts
  have m: "obeys Q T b skipMediaType" unfolding skipMediaType_def by (intro i)
  have e: "obeys Q T b receiveEntry" unfolding receiveEntry_def by (intro i)
  show ?thesis
    by (cases opn; simp only: parserOf.simps;
        unfold pingParser_def getParser_def getWithMetadataParser_def putParser_def previousParser_def containsKeyParser_def;
        intro i m e)
qed

lemma topologyVInt: "obeys Q T b topoReadVInt"
proof -
  have r: "readVInt bs 0 \<noteq> Block \<and> readVInt bs 0 \<noteq> Throw BadAnyCast" for bs by (simp add: readVInt_def readVar_def readVarLoop_outcomes)
  then have "bindO (readVInt bs 0) (\<lambda>(v, offset). Ok v) \<noteq> Block \<and> bindO (readVInt bs 0) (\<lambda>(v, offset). Ok v) \<noteq> Throw BadAnyCast" for bs
    using r [of bs] by (cases "readVInt bs 0") auto
  then show ?thesis unfolding topoReadVInt_def by (intro intros collects) (auto intro!: obeys_basic raises)
qed

text \<open>With the state of the topology parser.\<close>

lemma onConns: "obeys Q T b f \<Longrightarrow> obeys (\<lambda>s. Q (snd s)) (\<lambda>e s. T e (snd s)) b (onConn f)"
  by (fastforce simp: obeys_def onConn_def split: prod.splits outcome.splits)

lemma modifies: "obeys (\<lambda>s. Q (snd s)) (\<lambda>e s. T e (snd s)) b (modifyP f)"
  by (auto simp: obeys_def modifyP_def)

lemma topologies: "obeys Q T b (receiveTopology intelligence)"
proof -
  let ?ob = "obeys (\<lambda>s. Q (snd s)) (\<lambda>e s. T e (snd s)) b :: unit parse \<Rightarrow> bool"
  have s: "obeys Q T b topoReadString" "obeys Q T b topoReadPort"
    unfolding topoReadString_def topoReadPort_def by (intro intros topologyVInt)+
  note i = obeys_bind obeys_if obeys_basic(1) modifies onConns receives topologyVInt s
  have "?ob (parseServers n k)" for n k
    by (induction n k rule: parseServers.induct) (simp_all only: parseServers.simps, (intro i; assumption)+)
  moreover have "?ob (parseSegments n)" for n by (induction n) (simp_all only: parseSegments.simps, (intro i; assumption)+)
  ultimately have "?ob (parseTopologyInfo intelligence)" unfolding parseTopologyInfo_def by (intro i)
  note o = obeysD [OF this]
  let ?start = "\<lparr>ps_topology = newTopologyInfo, ps_hashFunctionVersion = 0, ps_numSegments = 0, ps_segmentOwners = []\<rparr>"
  show ?thesis unfolding obeys_def
  proof (intro allI impI)
    fix c assume c: "Q c"
    obtain r p d where r: "parseTopologyInfo intelligence (?start, c) = (r, p, d)" by (metis prod_cases3)
    with o [of "(?start, c)"] c show "case receiveTopology intelligence c of (Ok a, t) \<Rightarrow> Q t | (Throw e, t) \<Rightarrow> T e t | (Block, t) \<Rightarrow> b | (UB, t) \<Rightarrow> True"
      by (cases r) (auto simp: receiveTopology_def)
  qed
qed

lemma starts: "obeys Q T b (receiveResponseStart intelligence)"
  unfolding receiveResponseStart_def by (intro intros reads topologies)

end
section \<open>The handshake\<close>

text \<open>What neither reading nor sending breaks, the SASL handshake does not break, whatever the peer says.\<close>

locale talking = reading Q "\<lambda>_. Q" True for Q +
  assumes sends: "obeys Q (\<lambda>_. Q) True (send data)"
begin

abbreviation "kept \<equiv> obeys (\<lambda>s. Q (sc_conn s)) (\<lambda>_ s. Q (sc_conn s)) True"

lemma onSasls: "obeys Q (\<lambda>_. Q) True f \<Longrightarrow> kept (onSasl f)"
  by (fastforce simp: obeys_def onSasl_def split: prod.splits outcome.splits)

lemmas saslIntros = obeys_bind obeys_if obeys_prod obeys_basic onSasls receives reads starts

lemma requests: "kept (sendRequest opcode body)"
proof -
  have c: "kept (catchM (onSasl (send frame)) (\<lambda>e s. throw (x e s) s))" for frame x
    by (rule obeys_catch [OF onSasls [OF sends]], assumption) (simp add: obeys_def throw_def)
  show ?thesis unfolding obeys_def
  proof (intro allI impI)
    fix s :: ConnectionSaslTransport assume "Q (sc_conn s)"
    then have "Q (sc_conn (s\<lparr>sc_nextMessageId := sc_nextMessageId s + 1\<rparr>))" by simp
    then show "case sendRequest opcode body s of (Ok a, t) \<Rightarrow> Q (sc_conn t) | (Throw e, t) \<Rightarrow> Q (sc_conn t) | (Block, t) \<Rightarrow> True | (UB, t) \<Rightarrow> True"
      unfolding sendRequest_def Let_def by (rule c [unfolded obeys_def, rule_format])
  qed
qed

lemma headers: "kept saslReadResponseHeader"
proof -
  have t: "kept (\<lambda>s. throw (x s) s)" for x by (simp add: obeys_def throw_def)
  have r: "kept (\<lambda>s. bindM (onSasl (receiveResponseStart (sc_intelligence s))) k s)" if "\<And>a. kept (k a)" for k :: "ResponseStart \<Rightarrow> byte sasl"
    by (rule obeys_at) (intro obeys_bind onSasls starts that)
  show ?thesis unfolding saslReadResponseHeader_def
    by (intro obeys_bind onSasls receives obeys_if_at obeys_if obeys_basic(1) t reads r)
qed

lemma handshakes: "kept (authenticate cr auth host port connectionSaslTransport)"
proof -
  let ?T = connectionSaslTransport
  have t: "kept (tr_sendRequest ?T opc body)" "kept (tr_readResponseHeader ?T)" "kept (tr_readByte ?T)" "kept (tr_readVInt ?T)"
      "kept (tr_readString ?T)" "kept (tr_readByteArray ?T)" for opc body
    by (simp_all add: connectionSaslTransport_def requests headers) (intro saslIntros; simp)+
  have m: "kept (readMechs ?T mech n off)" for mech n off
    by (induction n arbitrary: off) (simp_all only: readMechs.simps, (intro saslIntros t; assumption)+)
  have l: "kept (liftO r)" for r :: "(exn, 'x) outcome" by (rule obeys_basic) auto
  have c: "kept (catchM (liftO r) (\<lambda>e. throw (x e)))" for r :: "(exn, 'x) outcome" and x
    by (rule obeys_catch [OF l], assumption) (rule obeys_basic, assumption)
  have a: "kept (readAuth ?T node)" for node unfolding readAuth_def by (intro saslIntros t) auto
  have s: "kept (sendAuth ?T mech tok)" for mech tok unfolding sendAuth_def by (rule t)
  have f: "kept (finishScram cr auth node d ?T x y z)" for node d x y z
    unfolding finishScram_def Let_def by (intro saslIntros a s l) auto
  show ?thesis unfolding authenticate_def Let_def by (intro saslIntros t m l c a s f) auto
qed

end

end
