(* ===== verification/Closing.thy ===== *)
theory Closing
  imports Reading
begin

text \<open>
  Closing a MultiplexedConnection while its read thread waits for input: no read the thread can be in
  blocks once the socket has been shut down, so the join in close comes to an end.
\<close>

section \<open>Computations that do not wait\<close>

text \<open>A stream is settled when it has an end to run into, or is not read at all.\<close>

definition settled :: "Connection \<Rightarrow> bool" where
  "settled c \<longleftrightarrow> \<not> cn_connected c \<or> ending (incoming c) \<noteq> []"

text \<open>\<open>calm Q\<close> computations do not block in a state where \<open>Q\<close> holds, and keep \<open>Q\<close> when they return.\<close>

abbreviation calm :: "('s \<Rightarrow> bool) \<Rightarrow> ('s, 'e, 'a) comp \<Rightarrow> bool" where
  "calm Q \<equiv> obeys Q (\<lambda>_ _. True) False"

lemma calm_def: "calm Q f \<longleftrightarrow> (\<forall>s r t. Q s \<and> f s = (r, t) \<longrightarrow> r \<noteq> Block \<and> (\<forall>a. r = Ok a \<longrightarrow> Q t))"
  unfolding obeys_def by (auto split: outcome.splits)

lemma calmI: "(\<And>s r t. Q s \<Longrightarrow> f s = (r, t) \<Longrightarrow> r \<noteq> Block \<and> (\<forall>a. r = Ok a \<longrightarrow> Q t)) \<Longrightarrow> calm Q f"
  by (auto simp: calm_def)

lemma recvLoop_calm:
  "ending evs \<noteq> [] \<Longrightarrow> recvLoop n buf evs = (r, evs') \<Longrightarrow> r \<noteq> Block \<and> (\<forall>x. r = Ok x \<longrightarrow> ending evs' = ending evs)"
  by (induction n buf evs rule: recvLoop.induct) (auto split: recv_event.splits if_splits)

lemma calm_receive: "calm settled (receive n)"
proof (rule calmI)
  fix c r d assume c: "settled c" and r: "receive n c = (r, d)"
  obtain q inc where q: "recvLoop n [] (incoming c) = (q, inc)" by (cases "recvLoop n [] (incoming c)")
  from c r q recvLoop_calm [of "incoming c" n "[]" q inc] show "r \<noteq> Block \<and> (\<forall>a. r = Ok a \<longrightarrow> settled d)"
    by (cases "cn_connected c") (auto simp: receive_def throw_def settled_def)
qed

interpretation settling: reading settled "\<lambda>_ _. True" False
  by unfold_locales (simp_all add: calm_receive)

section \<open>Closing a connection\<close>

definition at_end :: "MultiplexedConnection \<Rightarrow> bool" where
  "at_end m \<longleftrightarrow> (\<forall>c. mx_connection m = Some c \<longrightarrow> settled c) \<and>
     (\<forall>(i, p) \<in> set (mx_pending m). \<forall>status ver flags. calm settled (pr_bodyParser p status ver flags))"

lemma at_end_cong:
  "at_end m \<Longrightarrow> mx_connection m' = mx_connection m \<Longrightarrow> set (mx_pending m') \<subseteq> set (mx_pending m) \<Longrightarrow> at_end m'"
  unfolding at_end_def by fastforce

lemma at_end_connection: "at_end m \<Longrightarrow> settled c \<Longrightarrow> at_end (m\<lparr>mx_connection := Some c\<rparr>)"
  unfolding at_end_def by auto

lemma calm_onMux:
  assumes "calm settled f" shows "calm at_end (onMux f)"
proof (rule calmI)
  fix m r m' assume m: "at_end m" and r: "onMux f m = (r, m')"
  show "r \<noteq> Block \<and> (\<forall>a. r = Ok a \<longrightarrow> at_end m')"
  proof (cases "mx_connection m")
    case None
    with r show ?thesis by (simp add: onMux_def)
  next
    case (Some c)
    obtain q d where q: "f c = (q, d)" by (cases "f c")
    with r Some have r: "r = q" "m' = m\<lparr>mx_connection := Some d\<rparr>" by (simp_all add: onMux_def)
    from m Some have "settled c" by (simp add: at_end_def)
    with assms q have "q \<noteq> Block \<and> (\<forall>a. q = Ok a \<longrightarrow> settled d)" unfolding calm_def by blast
    with m r show ?thesis by (auto intro: at_end_connection)
  qed
qed

lemma calm_modifyM: "(\<And>m. at_end m \<Longrightarrow> at_end (f m)) \<Longrightarrow> calm at_end (modifyM f)"
  by (auto simp: calm_def modifyM_def)

definition quiet :: "('s \<Rightarrow> bool) \<Rightarrow> ('s, 'e, 'a) comp \<Rightarrow> bool" where
  "quiet Q f \<longleftrightarrow> (\<forall>s. Q s \<longrightarrow> fst (f s) \<noteq> Block)"

lemma quiet_calm: "calm Q f \<Longrightarrow> quiet Q f"
  unfolding quiet_def calm_def by (metis prod.collapse)

lemma quiet_bind:
  assumes "calm Q f" and "\<And>a. quiet Q (g a)"
  shows "quiet Q (bindM f g)"
  unfolding quiet_def
proof (intro allI impI)
  fix s assume s: "Q s"
  obtain r t where r: "bindM f g s = (r, t)" by (cases "bindM f g s")
  then have "r \<noteq> Block"
  proof (cases rule: bindM_cases)
    case (Ok a s')
    with assms(1) s have "Q s'" by (auto simp: calm_def)
    with assms(2) [of a] Ok(2) show ?thesis unfolding quiet_def by (metis fst_conv)
  qed (use assms(1) s in \<open>auto simp: calm_def\<close>)
  with r show "fst (bindM f g s) \<noteq> Block" by simp
qed

lemma quiet_at: "(\<And>s. quiet Q (f s)) \<Longrightarrow> quiet Q (\<lambda>s. f s s)"
  by (simp add: quiet_def)

lemma quiet_dispatch: "quiet at_end (dispatch st err)"
  unfolding quiet_def
proof (intro allI impI)
  fix m assume m: "at_end m"
  show "fst (dispatch st err m) \<noteq> Block"
  proof (cases "map_of (mx_pending m) (st_messageId st)")
    case None
    then show ?thesis by (simp add: dispatch_def ret_def)
  next
    case (Some p)
    from map_of_SomeD [OF Some] m have "calm settled (pr_bodyParser p (st_status st) (mx_protocolVersion m) (pr_flags p))"
      by (fastforce simp: at_end_def)
    note q = quiet_calm [OF calm_onMux [OF this], unfolded quiet_def, rule_format, of "taken st p m"]
    have "at_end (taken st p m)" using m
      by (rule at_end_cong) (auto simp: taken_def eraseEntry_def split: option.splits)
    with q show ?thesis unfolding dispatch_taken [OF Some]
      by (auto simp: ret_def split: option.splits prod.splits outcome.splits)
  qed
qed

lemma quiet_readOne: "quiet at_end readOne"
proof -
  have top: "at_end (case t of Some t \<Rightarrow> m\<lparr>mx_topologyId := ti_topologyId t\<rparr> | None \<Rightarrow> m)" if "at_end m" for m t
    using that by (rule at_end_cong) (auto split: option.splits)
  note i = quiet_bind calm_onMux calm_receive settling.starts calm_modifyM top obeys_if obeys_bind obeys_basic(1) settling.reads
    quiet_dispatch
  have rest: "quiet at_end (\<lambda>m. bindM (onMux (receiveResponseStart (mx_clientIntelligence m))) (\<lambda>st.
          bindM (modifyM (\<lambda>m. case st_topology st of Some t \<Rightarrow> m\<lparr>mx_topologyId := ti_topologyId t\<rparr> | None \<Rightarrow> m)) (\<lambda>_.
          bindM (if st_opcode st = ERROR_RESPONSE then bindM (onMux receiveString) (\<lambda>msg. ret (Some msg))
                 else ret None) (\<lambda>errorMessage.
          dispatch st errorMessage))) m)"
    by (rule quiet_at) (intro i)
  show ?thesis unfolding readOne_def
    by (rule quiet_bind [OF calm_onMux [OF calm_receive]])
      (use rest in \<open>auto simp: quiet_def throw_def\<close>)
qed

lemma quiet_readIteration: "at_end m \<Longrightarrow> fst (readIteration m) \<noteq> Block \<and> (\<forall>e. fst (readIteration m) \<noteq> Throw e)"
  using quiet_readOne [unfolded quiet_def, rule_format, of m]
  by (auto simp: readIteration_def split: prod.splits outcome.splits)

lemma settled_shutdown: "(cn_connected c \<longrightarrow> cn_socket c) \<Longrightarrow> settled (shutdown c)"
proof -
  have "ending (evs @ [RecvClosed]) \<noteq> []" for evs by (induction evs rule: ending.induct) simp_all
  then show "(cn_connected c \<longrightarrow> cn_socket c) \<Longrightarrow> settled (shutdown c)" by (auto simp: shutdown_def settled_def)
qed

text \<open>
  close returns: it shuts the socket down before it waits for the read thread, so the iteration that
  thread is in runs into the end of the stream whatever part of a response it is reading, and it cannot fail with
  an exception either. (The body parsers are those of the client's operations. What is left is
  undefined behaviour of the iteration itself, as on an over-long variable-length integer.)
\<close>

lemma close_returns:
  assumes conn: "\<forall>c. mx_connection m = Some c \<longrightarrow> cn_connected c \<longrightarrow> cn_socket c"
    and parsers: "\<forall>(i, p) \<in> set (mx_pending m). \<exists>opn. pr_bodyParser p = parserOf opn"
  shows "fst (muxClose inIteration m) = Ok () \<or> fst (muxClose inIteration m) = UB \<and> inIteration \<and> mx_readThread m"
proof -
  let ?m = "m\<lparr>mx_stopReadLoop := True, mx_connection := map_option shutdown (mx_connection m)\<rparr>"
  have "at_end ?m" using conn parsers settling.bodies by (fastforce simp: at_end_def intro: settled_shutdown)
  from quiet_readIteration [OF this] show ?thesis
    by (cases "readIteration ?m") (auto simp: muxClose_def bindM_def modifyM_def ret_def split: outcome.splits)
qed

text \<open>A read thread in the middle of a response, with a get waiting.\<close>

definition halfRead :: MultiplexedConnection where
  "halfRead = (newMultiplexedConnection ''a'' 1 True)
     \<lparr>mx_connection := Some ((newConnection ''a'' 1 [RecvData [0xA1, 0]] [])\<lparr>cn_connected := True, cn_socket := True\<rparr>),
      mx_connected := True, mx_readThread := True, mx_joinable := True,
      mx_pending := [(0, \<lparr>pr_ticket = 0, pr_bodyParser = getParser, pr_expectedOpcode = 4, pr_cacheName = ''c'', pr_flags = 0\<rparr>)],
      mx_issued := 1\<rparr>"

lemma halfRead_blocks: "fst (readIteration halfRead) = Block"
  by code_simp

lemma close_returns_halfRead:
  "fst (readIteration halfRead) = Block \<and> fst (muxClose False halfRead) = Ok () \<and> fst (muxClose True halfRead) \<in> {Ok (), UB}"
proof -
  have "\<forall>c. mx_connection halfRead = Some c \<longrightarrow> cn_connected c \<longrightarrow> cn_socket c" by (simp add: halfRead_def)
  moreover have "\<forall>(i, p) \<in> set (mx_pending halfRead). \<exists>opn. pr_bodyParser p = parserOf opn"
    by (auto simp: halfRead_def intro: exI [of _ Get])
  ultimately have "fst (muxClose b halfRead) = Ok () \<or> fst (muxClose b halfRead) = UB \<and> b \<and> mx_readThread halfRead" for b
    by (rule close_returns)
  from this [of False] this [of True] show ?thesis by (auto simp: halfRead_blocks)
qed

end
