(* ===== verification/Typing.thy ===== *)
theory Typing
  imports Closing Session "HOL-Library.Multiset"
begin

text \<open>
  Type safety of the futures. A response body travels from the parser an operation registers to the continuation
  of its future as a std::any; std::any\_cast fails when the two disagree on its type. This theory follows the promises
  through everything an application and the read threads can do, in any order, and shows that they always agree.
\<close>

section \<open>Errors of the parsers\<close>

text \<open>\<open>castless f\<close>: the computation does not fail with bad\_any\_cast.\<close>

abbreviation castless :: "('s, exn, 'a) comp \<Rightarrow> bool" where
  "castless \<equiv> obeys (\<lambda>_. True) (\<lambda>e _. e \<noteq> BadAnyCast) True"

lemma castless_def: "castless f \<longleftrightarrow> (\<forall>s e t. f s = (Throw e, t) \<longrightarrow> e \<noteq> BadAnyCast)"
  unfolding obeys_def by (fastforce split: outcome.splits prod.splits)

lemma recvLoop_castless: "recvLoop n buf evs = (Throw e, evs') \<Longrightarrow> e \<noteq> BadAnyCast"
  by (induction n buf evs rule: recvLoop.induct) (auto split: recv_event.splits if_splits)

interpretation casting: reading "\<lambda>_. True" "\<lambda>e _. e \<noteq> BadAnyCast" True
proof unfold_locales
  show "castless (receive n)" for n
    unfolding castless_def receive_def by (auto simp: throw_def split: prod.splits outcome.splits if_splits dest: recvLoop_castless)
qed

section \<open>What a parser makes of a body and what the future expects\<close>

text \<open>The dynamic type of the std::any a parser leaves behind, by operation and status.\<close>

fun bodyType :: "Operation \<Rightarrow> byte \<Rightarrow> Body set" where
  "bodyType Ping status = {NoBody}"
| "bodyType ContainsKey status = {NoBody}"
| "bodyType Get status = (if status = 0 then range ValueBody else {NoBody})"
| "bodyType GetWithMetadata status = (if status = 0 then range EntryBody else {NoBody})"
| "bodyType Put status = (if status = 3 then range EntryBody else {NoBody})"
| "bodyType opn status = (if status = 3 \<or> status = 4 then range EntryBody else {NoBody})"

lemma receiveEntry_body: "receiveEntry c = (Ok body, c') \<Longrightarrow> body \<in> range EntryBody"
  by (auto simp: receiveEntry_def bindM_eq_Ok_iff ret_def)

lemma previousParser_body:
  "previousParser n status ver flags c = (Ok body, c') \<Longrightarrow> body \<in> (if status = 3 \<or> status = 4 then range EntryBody else {NoBody})"
  by (auto simp: previousParser_def ret_def throw_def dest: receiveEntry_body split: if_splits)

lemma parser_bodyType: "parserOf opn status ver flags c = (Ok body, c') \<Longrightarrow> body \<in> bodyType opn status"
  by (cases opn)
    (auto simp: getParser_def getWithMetadataParser_def putParser_def pingParser_def containsKeyParser_def
      ret_def throw_def bindM_eq_Ok_iff dest: receiveEntry_body previousParser_body split: if_splits)

text \<open>An outcome a caller of get may see: no undefined behaviour, no failed cast.\<close>

definition sound :: "(exn, 'r) outcome \<Rightarrow> bool" where
  "sound r \<longleftrightarrow> r \<noteq> UB \<and> r \<noteq> Block \<and> r \<noteq> Throw BadAnyCast"

text \<open>A result that copes with whatever an operation's response may hold.\<close>

definition fits :: "Operation \<Rightarrow> (Response \<Rightarrow> (exn, 'r) outcome) \<Rightarrow> bool" where
  "fits opn result \<longleftrightarrow> (\<forall>status topo. \<forall>body \<in> bodyType opn status. sound (result (answered status body topo))) \<and>
     (\<forall>resp e. rp_error resp = Some e \<and> e \<noteq> BadAnyCast \<longrightarrow> sound (result resp))"

lemma fits_onSuccess:
  "(\<And>status body topo. body \<in> bodyType opn status \<Longrightarrow> sound (f (answered status body topo))) \<Longrightarrow> fits opn (onSuccess f tried excl)"
  by (auto simp: fits_def onSuccess_def answered_def sound_def rethrowWithTriedNodes_def split: exn.splits)

lemma operations_fit:
  "fits Ping (pingResult tried excl)" "fits Get (getResult tried excl)" "fits GetWithMetadata (getWithMetadataResult tried excl)"
  "fits Put (putResult tried excl)" "fits Remove (removeResult tried excl)" "fits ContainsKey (containsKeyResult tried excl)"
  "fits PutIfAbsent (previousResult tried excl)" "fits Replace (previousResult tried excl)"
  "fits RemoveWithVersion (versionedResult tried excl)" "fits ReplaceWithVersion (versionedResult tried excl)"
  unfolding pingResult_def getResult_def getWithMetadataResult_def putResult_def removeResult_def containsKeyResult_def previousResult_def
    versionedResult_def
  by (rule fits_onSuccess, auto simp: answered_def sound_def castValue_def castEntry_def hotrod_exn_def split: if_splits)+

section \<open>How a connection changes\<close>

text \<open>The responses a pending request can be completed with.\<close>

definition responses :: "PendingRequest \<Rightarrow> Response set" where
  "responses p = {resp. \<exists>e. rp_error resp = Some e \<and>
       (e \<noteq> BadAnyCast \<or> (\<exists>status ver flags c c'. pr_bodyParser p status ver flags c = (Throw e, c')))} \<union>
     {answered status body topo | status body topo. \<exists>ver flags c c'. pr_bodyParser p status ver flags c = (Ok body, c')}"

text \<open>
  What is known of the requests issued before: none is registered again, and a promise changes only by being
  completed with a response to its request.
\<close>

definition evolves :: "MultiplexedConnection \<Rightarrow> MultiplexedConnection \<Rightarrow> bool" where
  "evolves m m' \<longleftrightarrow> (mux_inv m \<longrightarrow> mux_inv m') \<and> mx_issued m \<le> mx_issued m' \<and>
     (\<forall>p \<in> snd ` set (mx_pending m'). pr_ticket p < mx_issued m \<longrightarrow> p \<in> snd ` set (mx_pending m)) \<and>
     (\<forall>t < mx_issued m. mx_results m' t = mx_results m t \<or>
        (\<exists>p \<in> snd ` set (mx_pending m). pr_ticket p = t \<and> mx_results m' t \<in> Some ` responses p))"

lemma evolves_refl [simp]: "evolves m m"
  by (simp add: evolves_def)

lemma evolves_trans:
  assumes "evolves m n" and "evolves n l"
  shows "evolves m l"
proof -
  from assms have old: "p \<in> snd ` set (mx_pending m)" if "p \<in> snd ` set (mx_pending n)" "pr_ticket p < mx_issued m" for p
    using that unfolding evolves_def by blast
  have "mx_results l t = mx_results m t \<or> (\<exists>p \<in> snd ` set (mx_pending m). pr_ticket p = t \<and> mx_results l t \<in> Some ` responses p)"
    if t: "t < mx_issued m" for t
  proof -
    from assms t have "t < mx_issued n" by (simp add: evolves_def)
    with assms(2) consider "mx_results l t = mx_results n t"
      | p where "p \<in> snd ` set (mx_pending n)" "pr_ticket p = t" "mx_results l t \<in> Some ` responses p"
      unfolding evolves_def by blast
    then show ?thesis
    proof cases
      case 1
      with assms(1) t show ?thesis unfolding evolves_def by simp
    next
      case 2
      with old t show ?thesis by blast
    qed
  qed
  moreover have "p \<in> snd ` set (mx_pending m)" if "p \<in> snd ` set (mx_pending l)" "pr_ticket p < mx_issued m" for p
    using assms old that unfolding evolves_def by (meson order_less_le_trans)
  ultimately show ?thesis using assms by (simp add: evolves_def)
qed

lemma evolves_same_books: "same_books m m' \<Longrightarrow> evolves m m'"
  by (auto simp: same_books_def evolves_def mux_inv_def)

lemma evolves_setValue:
  assumes "map_of (mx_pending m) k = Some p" and "resp \<in> responses p"
  shows "evolves m (setValue (pr_ticket p) resp (m\<lparr>mx_pending := eraseEntry k (mx_pending m), mx_callbacks := cb, mx_connection := c\<rparr>))"
proof -
  have "p \<in> snd ` set (mx_pending m)" using map_of_SomeD [OF assms(1)] by force
  with progress_deliver [OF assms(1), where resp = resp and cb = cb and c = c] assms(2) show ?thesis
    by (auto simp: evolves_def progress_def setValue_def)
qed

lemma evolves_erase: "evolves m (m\<lparr>mx_pending := eraseEntry k (mx_pending m), mx_callbacks := cb, mx_connection := c\<rparr>)"
  using progress_erase [where m = m and k = k and cb = cb and c = c] by (auto simp: evolves_def progress_def)

lemma evolves_dispatch: "evolves m (snd (dispatch st err m))"
proof (cases "map_of (mx_pending m) (st_messageId st)")
  case None
  then show ?thesis by (simp add: dispatch_def ret_def)
next
  case (Some p)
  let ?run = "onMux (pr_bodyParser p (st_status st) (mx_protocolVersion m) (pr_flags p)) (taken st p m)"
  obtain r n where o: "?run = (r, n)" by (cases ?run)
  from onMux_only_conn [OF o] obtain c where n: "n = (taken st p m)\<lparr>mx_connection := c\<rparr>" by (auto simp: only_conn_def)
  have body: "\<lparr>rp_status = Some (st_status st), rp_body = b, rp_error = None, rp_topologyUpdate = st_topology st\<rparr> \<in> responses p"
    if "r = Ok b" for b
    using o that by (auto simp: responses_def answered_def onMux_def split: option.splits prod.splits)
  have fail: "errorResponse e \<in> responses p" if "r = Throw e" for e
    using o that by (auto simp: responses_def errorResponse_def onMux_def split: option.splits prod.splits)
  have err: "resp \<in> responses p" if "rp_error resp = Some (hotrod_exn w ph so tn ex)" for resp w ph so tn ex
    using that by (auto simp: responses_def hotrod_exn_def)
  note set = evolves_setValue [OF Some, where cb = "mx_callbacks (taken st p m)", folded taken_conn]
  note set' = set [where c = "mx_connection m", folded taken_self]
  have e: "evolves m ((taken st p m)\<lparr>mx_connection := c\<rparr>)" unfolding taken_conn by (rule evolves_erase)
  show ?thesis
  proof (cases err)
    case None
    then show ?thesis unfolding dispatch_taken [OF Some] o n
      using set [OF body] set [OF fail] set' [OF err] e by (cases r) (auto simp: ret_def errorResponse_def)
  next
    case (Some msg)
    then show ?thesis unfolding dispatch_taken [OF \<open>map_of _ _ = Some p\<close>] using set' [OF err] by (simp add: ret_def)
  qed
qed

lemma evolves_closeAllPending: "evolves m (closeAllPending msg m)"
  using mux_inv_closeAllPending [of m msg]
  by (auto simp: evolves_def closeAllPending_eq responses_def errorResponse_def hotrod_exn_def)

lemma evolves_readOne: "evolves m (snd (readOne m))"
proof -
  obtain r m' where r: "readOne m = (r, m')" by (cases "readOne m")
  from readOne_split [OF r] evolves_dispatch show ?thesis
    by (auto simp: r intro: evolves_same_books) (metis evolves_same_books evolves_trans snd_conv)
qed

lemma evolves_readIteration: "evolves m (snd (readIteration m))"
proof -
  obtain r n where r: "readOne m = (r, n)" by (cases "readOne m")
  have n: "evolves m n" using evolves_readOne [of m] by (simp add: r)
  let ?n = "if \<not> mx_stopReadLoop n then n\<lparr>mx_connected := False\<rparr> else n"
  have "same_books n ?n" "same_books (closeAllPending msg ?n) ((closeAllPending msg ?n)\<lparr>mx_readThread := False\<rparr>)" for msg
    by (simp_all add: same_books_def)
  then have "evolves m ((closeAllPending msg ?n)\<lparr>mx_readThread := False\<rparr>)" for msg
    by (meson n evolves_trans evolves_same_books evolves_closeAllPending)
  with n r show ?thesis by (cases r) (simp_all add: readIteration_def)
qed

lemma keeps_evolves:
  "keeps evolves (onMux f)" "keeps evolves readIteration" "keeps evolves (ret a)" "keeps evolves (throw e)"
  "(\<And>m. same_books m (g m)) \<Longrightarrow> keeps evolves (modifyM g)"
  using evolves_readIteration evolves_same_books same_books_onMux [of f]
  by (auto simp: keeps_def ret_def throw_def modifyM_def) (metis prod.collapse)

lemma keeps_at: "(\<And>s. keeps R (f s)) \<Longrightarrow> keeps R (\<lambda>s. f s s)"
  by (simp add: keeps_def)

lemma keeps_catch: "(\<And>s t u. R s t \<Longrightarrow> R t u \<Longrightarrow> R s u) \<Longrightarrow> keeps R f \<Longrightarrow> (\<And>e. keeps R (h e)) \<Longrightarrow> keeps R (catchM f h)"
  unfolding keeps_def catchM_def by (auto split: prod.splits outcome.splits) (metis snd_conv)+

lemma evolves_bind: "keeps evolves f \<Longrightarrow> (\<And>a. keeps evolves (g a)) \<Longrightarrow> keeps evolves (bindM f g)"
  by (rule keeps_bind) (auto intro: evolves_trans)

lemmas evolves_intros = keeps_evolves keeps_if evolves_bind

lemma keeps_evolves_close: "keeps evolves (muxClose b)"
proof -
  have r: "keeps evolves (\<lambda>m. if mx_readThread m \<and> b then readIteration m else ret False m)"
    using keeps_evolves(2) by (simp add: keeps_def ret_def)
  have c: "keeps evolves (modifyM (\<lambda>m. closeAllPending msg (m\<lparr>mx_connected := False\<rparr>)))" for msg
    unfolding keeps_def modifyM_def snd_conv
    by (intro allI evolves_trans [OF evolves_same_books evolves_closeAllPending]) (simp add: same_books_def)
  show ?thesis
    unfolding muxClose_def by (intro r c evolves_intros) (simp_all add: same_books_def)
qed

lemma keeps_evolves_connect: "keeps evolves (muxConnect cr net)"
proof -
  have a: "keeps evolves (muxAuthenticate cr)"
    unfolding keeps_def muxAuthenticate_def
    by (auto intro: evolves_same_books simp: ret_def same_books_def split: option.splits prod.splits outcome.splits)
  have "keeps evolves (\<lambda>m. if mx_joinable m then (UB, m) else modifyM (\<lambda>m. m\<lparr>mx_readThread := True, mx_joinable := True\<rparr>) m)"
    by (auto simp: keeps_def modifyM_def same_books_def intro: evolves_same_books)
  then have "keeps evolves (bindM (modifyM (\<lambda>m. m\<lparr>mx_connection :=
              Some (newConnection (mx_host m) (mx_port m) (nw_incoming net) (nw_sendScript net))\<rparr>)) (\<lambda>_.
          bindM (onMux (connect (nw_resolved net))) (\<lambda>_.
          bindM (muxAuthenticate cr) (\<lambda>_.
          bindM (modifyM (\<lambda>m. m\<lparr>mx_connected := True, mx_stopReadLoop := False\<rparr>)) (\<lambda>_ m.
          if mx_joinable m then (UB, m)
          else modifyM (\<lambda>m. m\<lparr>mx_readThread := True, mx_joinable := True\<rparr>) m)))))"
    by (intro evolves_intros a) (simp_all add: same_books_def)
  then show ?thesis by (simp add: muxConnect_def keeps_def throw_def)
qed

lemma keeps_evolves_setters:
  "keeps evolves (setProtocolVersion v)" "keeps evolves (setClientIntelligence i)" "keeps evolves (setAuthentication a)"
  by (auto simp: keeps_def setProtocolVersion_def setClientIntelligence_def setAuthentication_def throw_def ret_def same_books_def
      intro: evolves_same_books)

lemma evolves_execute: "evolves m (snd (execute call m))"
proof -
  have reg: "evolves m m'" if "executeRegister call m = (r, m')" for r m m'
    using mux_inv_register [OF _ that] that by (auto simp: evolves_def executeRegister_def Let_def ret_def image_iff) force
  have snd: "keeps evolves (executeSend call i)" for i
    unfolding keeps_def
  proof
    fix m
    obtain r m' where r: "executeSend call i m = (r, m')" by (cases "executeSend call i m")
    have "m\<lparr>mx_connection := c, mx_pending := x\<rparr> = m\<lparr>mx_pending := x, mx_callbacks := mx_callbacks m, mx_connection := c\<rparr>" for c x
      by simp
    then have "evolves m (m\<lparr>mx_connection := c, mx_pending := eraseEntry i (mx_pending m)\<rparr>)" for c
      using evolves_erase by metis
    with executeSend_split [OF r] show "evolves m (snd (executeSend call i m))"
      by (auto simp: r intro: evolves_same_books same_books_only_conn)
  qed
  have reg: "keeps evolves (executeRegister call)" using reg by (simp add: keeps_def) (metis prod.collapse)
  have "keeps evolves executeCheck" by (simp add: keeps_def executeCheck_def throw_def ret_def)
  then have "keeps evolves (execute call)"
    unfolding execute_def Let_def by (rule evolves_bind) (rule keeps_at, intro evolves_bind reg snd keeps_evolves)
  then show ?thesis by (simp add: keeps_def)
qed

section \<open>How the client changes\<close>

definition orderly :: "RemoteCache \<Rightarrow> bool" where
  "orderly s \<longleftrightarrow> (\<forall>a m. rc_store s a = Some m \<longrightarrow> mux_inv m)"

text \<open>All but issuing and consuming futures: the connections evolve, new ones get new addresses.\<close>

definition advances :: "RemoteCache \<Rightarrow> RemoteCache \<Rightarrow> bool" where
  "advances s s' \<longleftrightarrow> rc_held s' = rc_held s \<and> rc_fresh s \<le> rc_fresh s' \<and> (orderly s \<longrightarrow> orderly s') \<and>
     (\<forall>a < rc_fresh s. \<forall>m'. rc_store s' a = Some m' \<longrightarrow> (\<exists>m. rc_store s a = Some m \<and> evolves m m'))"

lemma advances_refl [simp]: "advances s s"
  by (auto simp: advances_def)

lemma advances_trans: "advances s t \<Longrightarrow> advances t u \<Longrightarrow> advances s u"
  unfolding advances_def by (elim conjE, intro conjI) (simp, simp, simp, meson evolves_trans order_less_le_trans)

lemma advances_release: "advances s (release s a)"
  by (auto simp: advances_def release_def orderly_def)

lemma advances_releases: "advances s (foldl release s as)"
  by (induction as arbitrary: s) (auto intro: advances_trans advances_release)

lemma advances_same:
  "rc_held s' = rc_held s \<Longrightarrow> rc_fresh s' = rc_fresh s \<Longrightarrow> rc_store s' = rc_store s \<Longrightarrow> advances s s'"
  by (auto simp: advances_def orderly_def)

lemma advances_bind: "keeps advances f \<Longrightarrow> (\<And>a. keeps advances (g a)) \<Longrightarrow> keeps advances (bindM f g)"
  by (rule keeps_bind) (auto intro: advances_trans)

lemma advances_catch: "keeps advances f \<Longrightarrow> (\<And>e. keeps advances (h e)) \<Longrightarrow> keeps advances (catchM f h)"
  by (rule keeps_catch) (auto intro: advances_trans)

lemma advances_store:
  assumes "rc_store s a = Some m" and "evolves m m'"
  shows "advances s (s\<lparr>rc_store := (rc_store s)(a \<mapsto> m')\<rparr>)"
proof -
  have "orderly s \<Longrightarrow> mux_inv m'" using assms by (auto simp: orderly_def evolves_def)
  with assms show ?thesis by (auto simp: advances_def orderly_def)
qed

lemma advances_onObject: "keeps evolves f \<Longrightarrow> keeps advances (onObject a f)"
  by (auto simp: keeps_def onObject_def split: option.splits prod.splits intro: advances_store) (metis advances_store snd_conv)

lemma advances_basic: "keeps advances (ret x)" "keeps advances (throw e)" "(\<And>s. advances s (h s)) \<Longrightarrow> keeps advances (modifyC h)"
  by (simp_all add: keeps_def ret_def throw_def modifyC_def)

lemma advances_handleTopologyUpdate: "keeps advances (handleTopologyUpdate self topo name)"
proof -
  have "advances s (foldl release (rerouted topo s) as)" for s as
    by (rule advances_trans [OF advances_same advances_releases]) (simp_all add: rerouted_def)
  then show ?thesis by (simp add: keeps_def handleTopologyUpdate_eq Let_def)
qed

lemma advances_deliver: "keeps advances (deliver self cbs)"
  by (induction cbs) (auto intro!: advances_bind advances_basic advances_handleTopologyUpdate)

lemma advances_onReadThread:
  assumes "keeps evolves f"
  shows "keeps advances (onReadThread a f)"
  unfolding keeps_def
proof
  fix s
  show "advances s (snd (onReadThread a f s))"
  proof (cases "rc_store s a")
    case (Some m)
    obtain r m' where f: "f m = (r, m')" by (cases "f m")
    have "keeps advances (bindM (deliver a (drop (length (mx_callbacks m)) (mx_callbacks m'))) (\<lambda>_ s. (r, s)))"
      by (intro advances_bind advances_deliver) (simp add: keeps_def)
    moreover have "advances s (s\<lparr>rc_store := (rc_store s)(a \<mapsto> m')\<rparr>)"
      using Some by (rule advances_store) (use assms f in \<open>auto simp: keeps_def dest: spec [of _ m]\<close>)
    ultimately show ?thesis using Some f by (auto simp: onReadThread_def keeps_def intro: advances_trans)
  qed (simp add: onReadThread_def)
qed

lemma advances_connectObject: "keeps advances (connectObject env a)"
proof -
  have a: "keeps advances (modifyC (\<lambda>s. s\<lparr>rc_attempts := Suc (rc_attempts s)\<rparr>))"
    by (rule advances_basic) (simp add: advances_same)
  have m: "keeps evolves (\<lambda>m. muxConnect cr (net m) m)" for cr net
    using keeps_evolves_connect by (simp add: keeps_def)
  have "keeps advances (\<lambda>s. connectObject env a s)" unfolding connectObject_def
    by (rule keeps_at) (intro advances_bind advances_onObject keeps_evolves_setters a m)
  then show ?thesis by simp
qed

lemma advances_createConnection: "keeps advances (createConnection env server)"
proof -
  have n: "mux_inv (newMultiplexedConnection h p b)" for h p b by (simp add: newMultiplexedConnection_def mux_inv_def)
  have new: "advances s (s\<lparr>rc_fresh := Suc (rc_fresh s), rc_store := (rc_store s)(rc_fresh s \<mapsto> newMultiplexedConnection h p b)\<rparr>)" for s h p b
    using n [of h p b] by (auto simp: advances_def orderly_def)
  have step: "advances s (snd (bindM (modifyC (\<lambda>s. s\<lparr>rc_fresh := Suc (rc_fresh s0), rc_store := (rc_store s)(rc_fresh s0 \<mapsto> newMultiplexedConnection h p b)\<rparr>)) k s))"
    if "s0 = s" and k: "keeps advances (k ())" for s s0 h p b and k :: "unit \<Rightarrow> nat client"
    using new [of s h p b] k that(1) by (auto simp: bindM_def modifyC_def keeps_def intro: advances_trans)
  show ?thesis
    unfolding keeps_def createConnection_def Let_def
    by (intro allI step refl advances_bind advances_catch advances_basic advances_connectObject advances_release)
      (simp add: advances_same)
qed

lemma advances_getConnectionForServer: "keeps advances (getConnectionForServer env server)"
  unfolding keeps_def
proof
  fix s
  have "advances s (snd (createConnection env server (release (s\<lparr>rc_pool := p\<rparr>) a)))" for p a
    using advances_createConnection [of env server] advances_same [of "s\<lparr>rc_pool := p\<rparr>" s] advances_release [of "s\<lparr>rc_pool := p\<rparr>" a]
    by (auto simp: keeps_def intro: advances_trans)
  then show "advances s (snd (getConnectionForServer env server s))"
    using advances_createConnection [of env server]
    by (auto simp: getConnectionForServer_def Let_def keeps_def ret_def split: option.splits)
qed

lemma advances_tryCandidates: "keeps advances (tryCandidates env cs tried)"
  by (induction env cs tried rule: tryCandidates.induct)
    (auto simp only: tryCandidates.simps Let_def intro!: advances_basic advances_catch advances_bind advances_getConnectionForServer)

lemma advances_select: "keeps advances (selectServerForKey env key ctx)" "keeps advances (selectAnyServer env ctx)"
proof -
  have b: "keeps advances (bindM (tryCandidates env cs []) (\<lambda>(conn, tried). case conn of Some a \<Rightarrow> ret (a, tried) | None \<Rightarrow> throw (x tried)))" for cs x
    by (intro advances_bind advances_tryCandidates) (auto intro: advances_basic split: option.splits prod.splits)
  show "keeps advances (selectServerForKey env key ctx)"
    unfolding keeps_def
  proof
    fix s show "advances s (snd (selectServerForKey env key ctx s))"
      using b by (cases "routesByHash s key") (auto simp: selectServerForKey_routed selectServerForKey_seed keeps_def)
  qed
  show "keeps advances (selectAnyServer env ctx)"
    using b by (auto simp: selectAnyServer_def Let_def keeps_def ret_def)
qed

section \<open>Futures\<close>

text \<open>The responses an operation's future can be handed.\<close>

definition typed :: "Operation \<Rightarrow> Response set" where
  "typed opn = {resp. \<exists>e. rp_error resp = Some e \<and> e \<noteq> BadAnyCast} \<union> {answered status body topo | status body topo. body \<in> bodyType opn status}"

lemma responses_typed: "pr_bodyParser p = parserOf opn \<Longrightarrow> responses p \<subseteq> typed opn"
  using casting.bodies [of opn] parser_bodyType [of opn] unfolding responses_def typed_def castless_def by fastforce

lemma typed_sound: "fits opn result \<Longrightarrow> resp \<in> typed opn \<Longrightarrow> sound (result resp)"
  by (auto simp: fits_def typed_def)

text \<open>The promise \<open>t\<close> of the connection at \<open>a\<close> belongs to a request of the operation \<open>opn\<close>.\<close>

definition kept :: "RemoteCache \<Rightarrow> nat \<Rightarrow> nat \<Rightarrow> Operation \<Rightarrow> bool" where
  "kept s a t opn \<longleftrightarrow> a < rc_fresh s \<and> (\<forall>m. rc_store s a = Some m \<longrightarrow> t < mx_issued m \<and>
     (\<forall>p \<in> snd ` set (mx_pending m). pr_ticket p = t \<longrightarrow> pr_bodyParser p = parserOf opn) \<and>
     (\<forall>resp. mx_results m t = Some resp \<longrightarrow> resp \<in> typed opn))"

lemma kept_evolves:
  assumes "evolves m m'" and "t < mx_issued m" and p: "\<forall>p \<in> snd ` set (mx_pending m). pr_ticket p = t \<longrightarrow> pr_bodyParser p = parserOf opn"
    and r: "\<forall>resp. mx_results m t = Some resp \<longrightarrow> resp \<in> typed opn"
  shows "t < mx_issued m' \<and> (\<forall>p \<in> snd ` set (mx_pending m'). pr_ticket p = t \<longrightarrow> pr_bodyParser p = parserOf opn) \<and>
    (\<forall>resp. mx_results m' t = Some resp \<longrightarrow> resp \<in> typed opn)"
proof (intro conjI allI impI)
  show "t < mx_issued m'" using assms(1,2) by (simp add: evolves_def)
  show "\<forall>p \<in> snd ` set (mx_pending m'). pr_ticket p = t \<longrightarrow> pr_bodyParser p = parserOf opn"
    using assms(1,2) p unfolding evolves_def by blast
  fix resp assume resp: "mx_results m' t = Some resp"
  from assms(1,2) consider "mx_results m' t = mx_results m t"
    | p where "p \<in> snd ` set (mx_pending m)" "pr_ticket p = t" "mx_results m' t \<in> Some ` responses p"
    unfolding evolves_def by blast
  then show "resp \<in> typed opn"
  proof cases
    case 1
    with resp r show ?thesis by simp
  next
    case 2
    with resp p responses_typed [of _ opn] show ?thesis by auto
  qed
qed

lemma kept_advances: "advances s s' \<Longrightarrow> kept s a t opn \<Longrightarrow> kept s' a t opn"
  unfolding kept_def advances_def using kept_evolves by (meson order_less_le_trans)

lemma kept_held [simp]: "kept (s\<lparr>rc_held := h\<rparr>) a t opn = kept s a t opn"
  by (simp add: kept_def)

definition future_ok :: "RemoteCache \<Rightarrow> 'r Future \<Rightarrow> bool" where
  "future_ok s f \<longleftrightarrow> (\<exists>opn. fits opn (fu_result f) \<and> kept s (fu_conn f) (fu_ticket f) opn)"

text \<open>What issuing a request does to the client.\<close>

definition issues :: "RemoteCache \<Rightarrow> 'r Future \<Rightarrow> RemoteCache \<Rightarrow> bool" where
  "issues s f s' \<longleftrightarrow> advances s (s'\<lparr>rc_held := rc_held s\<rparr>) \<and> rc_held s' = rc_held s @ [fu_conn f] \<and> future_ok s' f"

lemma execute_ticket:
  assumes "execute call m = (Ok t, m')" and "mux_inv m"
  shows "t < mx_issued m' \<and> (\<forall>p \<in> snd ` set (mx_pending m'). pr_ticket p = t \<longrightarrow> pr_bodyParser p = cl_bodyParser call) \<and> mx_results m' t = None"
proof -
  have con: "mx_connected m" using execute_not_connected [of m call t] assms(1) by (cases "mx_connected m") simp_all
  obtain c where c: "mx_connection m = Some c" using execute_no_connection [of m call t] assms(1) by (cases "mx_connection m") simp_all
  have "mx_results m (mx_issued m) = None" "\<forall>p \<in> snd ` set (mx_pending m). pr_ticket p < mx_issued m" using assms(2) by (auto simp: mux_inv_def)
  with assms(1) show ?thesis
    unfolding execute_connected [OF con c] by (auto simp: Let_def split: prod.splits outcome.splits) (metis less_irrefl snd_conv)
qed

lemma submit_advances: "submit conn call result s = (Throw e, s') \<Longrightarrow> advances s s'"
  using advances_onObject [of "execute call" conn] evolves_execute
  by (auto simp: submit_def bindM_def keeps_def ret_def split: prod.splits outcome.splits) (metis snd_conv)

lemma submit_issues:
  assumes sub: "submit conn call result s = (Ok f, s')" and inv: "cache_inv s" "orderly s"
    and fit: "fits opn result" "cl_bodyParser call = parserOf opn"
  shows "issues s f s'"
proof -
  from sub obtain t m m' where m: "rc_store s conn = Some m" "execute call m = (Ok t, m')"
    and s': "s' = s\<lparr>rc_store := (rc_store s)(conn \<mapsto> m'), rc_held := rc_held s @ [conn]\<rparr>"
    and f: "f = \<lparr>fu_conn = conn, fu_ticket = t, fu_result = result\<rparr>"
    by (auto simp: submit_def bindM_eq_Ok_iff onObject_def ret_def split: option.splits prod.splits)
  have "conn < rc_fresh s" using inv(1) m(1) by (auto simp: almost_def)
  moreover have "mux_inv m" using inv(2) m(1) by (simp add: orderly_def)
  note execute_ticket [OF m(2) this]
  ultimately have "kept s' conn t opn" by (simp add: kept_def s' fit(2))
  moreover have "evolves m m'" using evolves_execute [of m call] m(2) by simp
  from advances_store [OF m(1) this] have "advances s (s'\<lparr>rc_held := rc_held s\<rparr>)" by (simp add: s')
  ultimately show ?thesis using fit(1) unfolding issues_def future_ok_def by (auto simp: s' f)
qed

lemma advances_issues: "advances s t \<Longrightarrow> issues t f s' \<Longrightarrow> issues s f s'"
  unfolding issues_def using advances_trans [of s t "s'\<lparr>rc_held := rc_held s\<rparr>"] by (simp add: advances_def [of s t])

lemma selected_issues:
  assumes "bindM sel (\<lambda>(conn, tried) s. submit conn (call s) (result tried) s) s = (Ok f, s')"
    and "keeps advances sel" "preserves sel" and "cache_inv s" "orderly s"
    and "\<And>tried. fits opn (result tried)" "\<And>s. cl_bodyParser (call s) = parserOf opn"
  shows "issues s f s'"
proof -
  from assms(1) obtain conn tried t where t: "sel s = (Ok (conn, tried), t)" "submit conn (call t) (result tried) t = (Ok f, s')"
    by (auto simp: bindM_eq_Ok_iff)
  have a: "advances s t" using assms(2) t(1) unfolding keeps_def by (metis snd_conv)
  moreover have "cache_inv t" using assms(3,4) t(1) unfolding preserves_def by blast
  moreover have "orderly t" using a assms(5) by (simp add: advances_def)
  ultimately show ?thesis using submit_issues [OF t(2) _ _ assms(6,7)] advances_issues by blast
qed

lemma selected_fails:
  assumes "bindM sel (\<lambda>(conn, tried) s. submit conn (call s) (result tried) s) s = (Throw e, s')" and "keeps advances sel"
  shows "advances s s'"
  using assms(1)
proof (cases rule: bindM_cases)
  case (Ok p t)
  have "advances s t" using assms(2) Ok(1) unfolding keeps_def by (metis snd_conv)
  moreover have "advances t s'" using Ok(2) by (cases p) (auto intro: submit_advances)
  ultimately show ?thesis by (rule advances_trans)
next
  case (Throw e')
  then show ?thesis using assms(2) unfolding keeps_def by (metis snd_conv)
qed simp_all

lemma keyed_issues:
  "keyed env key ctx body opc ex (parserOf opn) fl result s = (Ok f, s') \<Longrightarrow> cache_inv s \<Longrightarrow> orderly s \<Longrightarrow>
    (\<And>tried. fits opn (result tried (excludeNodes ctx))) \<Longrightarrow> issues s f s'"
  unfolding keyed_def by (erule selected_issues [OF _ advances_select(1) preserves_selectServerForKey]) simp_all

lemma keyed_fails: "keyed env key ctx body opc ex parser fl result s = (Throw e, s') \<Longrightarrow> advances s s'"
  unfolding keyed_def by (erule selected_fails [OF _ advances_select(1)])

section \<open>Applications\<close>

text \<open>A future of any of the operations, and what its get returns.\<close>

datatype AnyFuture = PingF "unit Future" | ValueF "byteArray option Future" | EntryF "EntryWithMetadata option Future" | BoolF "bool Future"

datatype Answer = Done | GotValue "byteArray option" | GotEntry "EntryWithMetadata option" | GotBool bool

datatype Invocation = PingCall | CacheCall Request

definition mapResult :: "('a \<Rightarrow> 'b) \<Rightarrow> 'a client \<Rightarrow> 'b client" where
  "mapResult g f = bindM f (\<lambda>a. ret (g a))"

fun invoke :: "Environment \<Rightarrow> RetryContext \<Rightarrow> bool \<Rightarrow> Invocation \<Rightarrow> AnyFuture client" where
  "invoke env ctx previous PingCall = mapResult PingF (pingImpl env ctx)"
| "invoke env ctx previous (CacheCall (GetR k)) = mapResult ValueF (getImpl env k ctx)"
| "invoke env ctx previous (CacheCall (GetWithMetadataR k)) = mapResult EntryF (getWithMetadataImpl env k ctx)"
| "invoke env ctx previous (CacheCall (ContainsKeyR k)) = mapResult BoolF (containsKeyImpl env k ctx)"
| "invoke env ctx previous (CacheCall (PutR k v l i)) = mapResult EntryF (putImpl env k v l i previous ctx)"
| "invoke env ctx previous (CacheCall (PutIfAbsentR k v l i)) = mapResult EntryF (putIfAbsentImpl env k v l i previous ctx)"
| "invoke env ctx previous (CacheCall (ReplaceR k v l i)) = mapResult EntryF (replaceImpl env k v l i previous ctx)"
| "invoke env ctx previous (CacheCall (RemoveR k)) = mapResult EntryF (removeImpl env k previous ctx)"
| "invoke env ctx previous (CacheCall (RemoveWithVersionR k ver)) = mapResult BoolF (removeWithVersionImpl env k ver ctx)"
| "invoke env ctx previous (CacheCall (ReplaceWithVersionR k v ver l i)) = mapResult BoolF (replaceWithVersionImpl env k v ver l i ctx)"

fun consume :: "AnyFuture \<Rightarrow> Answer client" where
  "consume (PingF f) = mapResult (\<lambda>_. Done) (futureGet f)"
| "consume (ValueF f) = mapResult GotValue (futureGet f)"
| "consume (EntryF f) = mapResult GotEntry (futureGet f)"
| "consume (BoolF f) = mapResult GotBool (futureGet f)"

fun anyConn :: "AnyFuture \<Rightarrow> nat" where
  "anyConn (PingF f) = fu_conn f"
| "anyConn (ValueF f) = fu_conn f"
| "anyConn (EntryF f) = fu_conn f"
| "anyConn (BoolF f) = fu_conn f"

fun any_ok :: "RemoteCache \<Rightarrow> AnyFuture \<Rightarrow> bool" where
  "any_ok s (PingF f) = future_ok s f"
| "any_ok s (ValueF f) = future_ok s f"
| "any_ok s (EntryF f) = future_ok s f"
| "any_ok s (BoolF f) = future_ok s f"

text \<open>A future that is destroyed without get lets its connection go.\<close>

definition abandon :: "AnyFuture \<Rightarrow> RemoteCache \<Rightarrow> RemoteCache" where
  "abandon f s = release (s\<lparr>rc_held := remove1 (anyConn f) (rc_held s)\<rparr>) (anyConn f)"

definition configuring :: "(RemoteCache \<Rightarrow> RemoteCache) \<Rightarrow> bool" where
  "configuring h \<longleftrightarrow> (\<exists>name. h = setCacheName name) \<or> (\<exists>version. h = cacheSetProtocolVersion version) \<or>
     (\<exists>intelligence. h = cacheSetClientIntelligence intelligence) \<or> (\<exists>proxy. h = setProxyToNonOwner proxy) \<or>
     (\<exists>user pw realm server mech. h = cacheSetAuthentication user pw realm server mech)"

record Application =
  ap_cache :: RemoteCache
  ap_futures :: "AnyFuture list"

text \<open>
  What an application and the read threads do, in any order: the futures may be consumed in any order, or not at all.
  A computation that blocks or is undefined has no successor.
\<close>

inductive happens :: "Environment \<Rightarrow> Application \<Rightarrow> Application \<Rightarrow> bool" for env where
  configured: "configuring h \<Longrightarrow> happens env ap (ap\<lparr>ap_cache := h (ap_cache ap)\<rparr>)"
| connecting: "cacheConnect env (ap_cache ap) = (r, s) \<Longrightarrow> r \<noteq> Block \<Longrightarrow> r \<noteq> UB \<Longrightarrow> happens env ap (ap\<lparr>ap_cache := s\<rparr>)"
| disconnecting: "cacheDisconnect busy (ap_cache ap) = (r, s) \<Longrightarrow> r \<noteq> Block \<Longrightarrow> r \<noteq> UB \<Longrightarrow> happens env ap (ap\<lparr>ap_cache := s\<rparr>)"
| receiving: "clientRead a (ap_cache ap) = (r, s) \<Longrightarrow> r \<noteq> Block \<Longrightarrow> r \<noteq> UB \<Longrightarrow> happens env ap (ap\<lparr>ap_cache := s\<rparr>)"
| invoked: "invoke env ctx previous call (ap_cache ap) = (Ok f, s) \<Longrightarrow> happens env ap \<lparr>ap_cache = s, ap_futures = ap_futures ap @ [f]\<rparr>"
| failed: "invoke env ctx previous call (ap_cache ap) = (Throw e, s) \<Longrightarrow> happens env ap (ap\<lparr>ap_cache := s\<rparr>)"
| consumed: "ap_futures ap = fs @ f # gs \<Longrightarrow> consume f (ap_cache ap) = (r, s) \<Longrightarrow> r \<noteq> Block \<Longrightarrow> r \<noteq> UB \<Longrightarrow>
    happens env ap \<lparr>ap_cache = s, ap_futures = fs @ gs\<rparr>"
| abandoned: "ap_futures ap = fs @ f # gs \<Longrightarrow> happens env ap \<lparr>ap_cache = abandon f (ap_cache ap), ap_futures = fs @ gs\<rparr>"

inductive running :: "Environment \<Rightarrow> Application \<Rightarrow> bool" for env where
  created: "running env \<lparr>ap_cache = newRemoteCache host port name, ap_futures = []\<rparr>"
| goes_on: "running env ap \<Longrightarrow> happens env ap ap' \<Longrightarrow> running env ap'"

definition app_inv :: "Application \<Rightarrow> bool" where
  "app_inv ap \<longleftrightarrow> cache_inv (ap_cache ap) \<and> orderly (ap_cache ap) \<and>
     mset (rc_held (ap_cache ap)) = mset (map anyConn (ap_futures ap)) \<and> (\<forall>f \<in> set (ap_futures ap). any_ok (ap_cache ap) f)"

lemma any_ok_advances: "advances s s' \<Longrightarrow> any_ok s f \<Longrightarrow> any_ok s' f"
  by (cases f) (auto simp: future_ok_def intro: kept_advances)

lemma any_ok_held [simp]: "any_ok (s\<lparr>rc_held := h\<rparr>) f = any_ok s f"
  by (cases f) (simp_all add: future_ok_def)

lemma orderly_held [simp]: "orderly (s\<lparr>rc_held := h\<rparr>) = orderly s"
  by (simp add: orderly_def)

lemma app_inv_step:
  assumes inv: "app_inv ap" and adv: "advances (ap_cache ap) (s\<lparr>rc_held := rc_held (ap_cache ap)\<rparr>)" and s: "cache_inv s"
    and h: "mset (rc_held s) = mset (map anyConn fs)" and fs: "\<forall>f \<in> set fs. f \<in> set (ap_futures ap) \<or> any_ok s f"
  shows "app_inv \<lparr>ap_cache = s, ap_futures = fs\<rparr>"
proof -
  have "any_ok s f" if "any_ok (ap_cache ap) f" for f using any_ok_advances [OF adv that] by simp
  with inv fs have "\<forall>f \<in> set fs. any_ok s f" by (auto simp: app_inv_def)
  moreover have "orderly s" using adv inv by (simp add: advances_def app_inv_def)
  ultimately show ?thesis using s h by (simp add: app_inv_def)
qed

lemma app_inv_advances:
  assumes "app_inv ap" and "advances (ap_cache ap) s" and "cache_inv s"
  shows "app_inv (ap\<lparr>ap_cache := s\<rparr>)"
proof -
  have h: "rc_held s = rc_held (ap_cache ap)" using assms(2) by (simp add: advances_def)
  then have "s\<lparr>rc_held := rc_held (ap_cache ap)\<rparr> = s" by simp
  with assms(2) have "advances (ap_cache ap) (s\<lparr>rc_held := rc_held (ap_cache ap)\<rparr>)" by metis
  from app_inv_step [OF assms(1) this assms(3), of "ap_futures ap"] assms(1) h show ?thesis by (cases ap) (simp add: app_inv_def)
qed

lemma app_inv_kept:
  assumes "app_inv ap" and "f (ap_cache ap) = (r, s)" and "r \<noteq> Block" "r \<noteq> UB" and "preserves f" "keeps advances f"
  shows "app_inv (ap\<lparr>ap_cache := s\<rparr>)"
proof (rule app_inv_advances [OF assms(1)])
  show "advances (ap_cache ap) s" using assms(2,6) unfolding keeps_def by (metis snd_conv)
  show "cache_inv s" using assms unfolding preserves_def app_inv_def by blast
qed

lemma configuring_frame:
  "configuring h \<Longrightarrow> rc_held (h s) = rc_held s \<and> rc_fresh (h s) = rc_fresh s \<and> rc_store (h s) = rc_store s \<and> rc_pool (h s) = rc_pool s \<and>
    rc_connection (h s) = rc_connection s"
  unfolding configuring_def
  by (elim disjE exE) (simp_all add: setCacheName_def cacheSetProtocolVersion_def cacheSetClientIntelligence_def setProxyToNonOwner_def
      cacheSetAuthentication_def)

lemma configuring_advances: "configuring h \<Longrightarrow> cache_inv s \<Longrightarrow> advances s (h s) \<and> cache_inv (h s)"
  using configuring_frame [of h s] by (simp add: advances_same almost_def pooled_def referenced_def)

text \<open>Consuming a future is letting it go once its promise is set.\<close>

lemma futureGet_sound:
  assumes "future_ok s g" and "rc_store s (fu_conn g) \<noteq> None" and q: "futureGet g s = (q, t)"
  shows "q \<noteq> UB \<and> q \<noteq> Throw BadAnyCast \<and> (q \<noteq> Block \<longrightarrow> t = release (s\<lparr>rc_held := remove1 (fu_conn g) (rc_held s)\<rparr>) (fu_conn g))"
proof -
  from assms(2) obtain m where m: "rc_store s (fu_conn g) = Some m" by blast
  show ?thesis
  proof (cases "mx_results m (fu_ticket g)")
    case (Some resp)
    with assms(1) m have "sound (fu_result g resp)" by (auto simp: future_ok_def kept_def intro: typed_sound)
    with Some m q show ?thesis by (auto simp: futureGet_def sound_def)
  qed (use m q in \<open>simp add: futureGet_def\<close>)
qed

lemma consume_outcome:
  assumes "any_ok s f" and "rc_store s (anyConn f) \<noteq> None" and "consume f s = (r, s')"
  shows "r \<noteq> UB \<and> r \<noteq> Throw BadAnyCast \<and> (r \<noteq> Block \<longrightarrow> s' = abandon f s)"
  using assms
  by (cases f) (auto simp: mapResult_def bindM_def ret_def abandon_def split: prod.splits outcome.splits dest: futureGet_sound)

lemma abandon_frame: "rc_held (abandon f s) = remove1 (anyConn f) (rc_held s)"
  by (simp add: abandon_def release_def)

lemma advances_abandon: "advances s ((abandon f s)\<lparr>rc_held := rc_held s\<rparr>)"
  by (auto simp: advances_def abandon_def release_def orderly_def)

lemma app_inv_abandon:
  assumes "app_inv ap" and "ap_futures ap = fs @ f # gs"
  shows "app_inv \<lparr>ap_cache = abandon f (ap_cache ap), ap_futures = fs @ gs\<rparr>"
proof (rule app_inv_step [OF assms(1) advances_abandon])
  show "cache_inv (abandon f (ap_cache ap))" unfolding abandon_def using assms(1) by (intro inv_let_go) (simp add: app_inv_def)
  show "mset (rc_held (abandon f (ap_cache ap))) = mset (map anyConn (fs @ gs))"
    using assms by (simp add: app_inv_def abandon_frame)
qed (simp add: assms(2))

lemmas impl_defs = getImpl_def getWithMetadataImpl_def containsKeyImpl_def putImpl_def putIfAbsentImpl_def replaceImpl_def removeImpl_def
  removeWithVersionImpl_def replaceWithVersionImpl_def

lemma impl_issues:
  assumes "cache_inv s" "orderly s"
  shows "pingImpl env ctx s = (Ok g, s') \<Longrightarrow> issues s g s'"
    and "getImpl env k ctx s = (Ok h, s') \<Longrightarrow> issues s h s'"
    and "getWithMetadataImpl env k ctx s = (Ok e, s') \<Longrightarrow> issues s e s'"
    and "containsKeyImpl env k ctx s = (Ok b, s') \<Longrightarrow> issues s b s'"
    and "putImpl env k v l i p ctx s = (Ok e, s') \<Longrightarrow> issues s e s'"
    and "putIfAbsentImpl env k v l i p ctx s = (Ok e, s') \<Longrightarrow> issues s e s'"
    and "replaceImpl env k v l i p ctx s = (Ok e, s') \<Longrightarrow> issues s e s'"
    and "removeImpl env k p ctx s = (Ok e, s') \<Longrightarrow> issues s e s'"
    and "removeWithVersionImpl env k ver ctx s = (Ok b, s') \<Longrightarrow> issues s b s'"
    and "replaceWithVersionImpl env k v ver l i ctx s = (Ok b, s') \<Longrightarrow> issues s b s'"
proof -
  show "pingImpl env ctx s = (Ok g, s') \<Longrightarrow> issues s g s'"
    unfolding pingImpl_def
    by (erule selected_issues [where opn = Ping, OF _ advances_select(2) preserves_selectAnyServer]) (simp_all add: operations_fit assms)
  note at = keyed_issues [OF _ assms]
  show "getImpl env k ctx s = (Ok h, s') \<Longrightarrow> issues s h s'"
    unfolding impl_defs by (rule at [where opn = Get, unfolded parserOf.simps, OF _ operations_fit(2)])
  show "containsKeyImpl env k ctx s = (Ok b, s') \<Longrightarrow> issues s b s'"
    unfolding impl_defs by (rule at [where opn = ContainsKey, unfolded parserOf.simps, OF _ operations_fit(6)])
  show "removeWithVersionImpl env k ver ctx s = (Ok b, s') \<Longrightarrow> issues s b s'"
    unfolding impl_defs by (rule at [where opn = RemoveWithVersion, unfolded parserOf.simps, OF _ operations_fit(9)])
  show "replaceWithVersionImpl env k v ver l i ctx s = (Ok b, s') \<Longrightarrow> issues s b s'"
    unfolding impl_defs by (rule at [where opn = ReplaceWithVersion, unfolded parserOf.simps, OF _ operations_fit(10)])
  show "getWithMetadataImpl env k ctx s = (Ok e, s') \<Longrightarrow> issues s e s'"
    unfolding impl_defs by (rule at [where opn = GetWithMetadata, unfolded parserOf.simps, OF _ operations_fit(3)])
  show "putImpl env k v l i p ctx s = (Ok e, s') \<Longrightarrow> issues s e s'"
    unfolding impl_defs by (rule at [where opn = Put, unfolded parserOf.simps, OF _ operations_fit(4)])
  show "putIfAbsentImpl env k v l i p ctx s = (Ok e, s') \<Longrightarrow> issues s e s'"
    unfolding impl_defs by (rule at [where opn = PutIfAbsent, unfolded parserOf.simps, OF _ operations_fit(7)])
  show "replaceImpl env k v l i p ctx s = (Ok e, s') \<Longrightarrow> issues s e s'"
    unfolding impl_defs by (rule at [where opn = Replace, unfolded parserOf.simps, OF _ operations_fit(8)])
  show "removeImpl env k p ctx s = (Ok e, s') \<Longrightarrow> issues s e s'"
    unfolding impl_defs by (rule at [where opn = Remove, unfolded parserOf.simps, OF _ operations_fit(5)])
qed

lemma invoke_issues:
  assumes "invoke env ctx previous call s = (Ok f, s')" and "cache_inv s" "orderly s"
  shows "advances s (s'\<lparr>rc_held := rc_held s\<rparr>) \<and> rc_held s' = rc_held s @ [anyConn f] \<and> any_ok s' f"
  using assms(1)
  by (cases "(env, ctx, previous, call)" rule: invoke.cases)
    (auto simp: mapResult_def bindM_eq_Ok_iff ret_def issues_def dest: impl_issues [OF assms(2,3)])

lemma invoke_fails:
  assumes "invoke env ctx previous call s = (Throw e, s')"
  shows "advances s s'"
proof -
  have m: "mapResult g f s = (Throw e, s') \<longleftrightarrow> f s = (Throw e, s')" for g :: "'x \<Rightarrow> AnyFuture" and f :: "'x client"
    by (auto simp: mapResult_def bindM_def ret_def split: prod.splits outcome.splits)
  have "pingImpl env ctx s = (Throw e, s') \<Longrightarrow> advances s s'"
    unfolding pingImpl_def by (erule selected_fails [OF _ advances_select(2)])
  then show ?thesis
    using assms by (cases "(env, ctx, previous, call)" rule: invoke.cases) (auto simp: m impl_defs intro: keyed_fails)
qed

lemma preserves_invoke: "preserves (invoke env ctx previous call)"
proof -
  have m: "preserves f \<Longrightarrow> preserves (mapResult g f)" for f :: "'x client" and g :: "'x \<Rightarrow> AnyFuture"
    unfolding mapResult_def by (rule preserves_bind) (auto simp: preserves_def ret_def)
  show ?thesis
    by (cases "(env, ctx, previous, call)" rule: invoke.cases) (simp_all add: m impl_defs preserves_keyed preserves_ping)
qed

lemma app_inv_happens: "happens env ap ap' \<Longrightarrow> app_inv ap \<Longrightarrow> app_inv ap'"
proof (induction rule: happens.induct)
  case (configured h ap)
  with configuring_advances [of h "ap_cache ap"] show ?case by (intro app_inv_advances) (auto simp: app_inv_def)
next
  case (connecting ap r s)
  have "preserves (cacheConnect env)" "keeps advances (cacheConnect env)"
    unfolding cacheConnect_def by (rule preserves_at, rule preserves_connectObject) (rule keeps_at, rule advances_connectObject)
  with connecting show ?case by (blast intro: app_inv_kept)
next
  case (disconnecting busy ap r s)
  have "preserves (cacheDisconnect busy)" "keeps advances (cacheDisconnect busy)"
    unfolding cacheDisconnect_def
    by (rule preserves_at, rule preserves_onReadThread, rule muxClose_place) (rule keeps_at, rule advances_onReadThread, rule keeps_evolves_close)
  with disconnecting show ?case by (blast intro: app_inv_kept)
next
  case (receiving a ap r s)
  have "preserves (clientRead a)" "keeps advances (clientRead a)"
    unfolding clientRead_def
    by (rule preserves_onReadThread, rule readIteration_place) (rule advances_onReadThread, rule keeps_evolves)
  with receiving show ?case by (blast intro: app_inv_kept)
next
  case (invoked ctx previous call ap f s)
  then have s: "cache_inv (ap_cache ap)" "orderly (ap_cache ap)" by (simp_all add: app_inv_def)
  note i = invoke_issues [OF invoked.hyps s]
  have "cache_inv s" using preserves_invoke s(1) invoked.hyps unfolding preserves_def by blast
  then show ?case using i invoked.prems by (intro app_inv_step [OF invoked.prems]) (auto simp: app_inv_def)
next
  case (failed ctx previous call ap e s)
  have "cache_inv s" using preserves_invoke failed unfolding preserves_def app_inv_def by blast
  with invoke_fails failed show ?case by (blast intro: app_inv_advances)
next
  case (consumed ap fs f gs r s)
  then have "any_ok (ap_cache ap) f" "anyConn f \<in># mset (rc_held (ap_cache ap))" by (simp_all add: app_inv_def)
  moreover from this(2) have "rc_store (ap_cache ap) (anyConn f) \<noteq> None"
    using consumed.prems by (auto simp: app_inv_def almost_def referenced_def)
  ultimately have "s = abandon f (ap_cache ap)" using consume_outcome consumed.hyps by blast
  with app_inv_abandon [OF consumed.prems consumed.hyps(1)] show ?case by simp
next
  case (abandoned ap fs f gs)
  then show ?case by (rule app_inv_abandon [rotated])
qed

lemma running_inv: "running env ap \<Longrightarrow> app_inv ap"
proof (induction rule: running.induct)
  case (created host port name)
  have "mux_inv (newMultiplexedConnection h p b)" for h p b by (simp add: newMultiplexedConnection_def mux_inv_def)
  then show ?case using cache_inv_new by (auto simp: app_inv_def orderly_def newRemoteCache_def split: if_splits)
qed (rule app_inv_happens)

text \<open>
  C5: get is type safe. In every state an application can reach, whatever order its calls, the
  read threads' iterations, topology updates, disconnects and the consumption of futures come in, and whatever bytes servers send:
  get on a future it still holds never fails with bad\_any\_cast, and never touches a connection that is gone. The
  std::any a response parser leaves has the type the future's continuation casts it to.
\<close>

theorem futures_are_type_safe:
  assumes "running env ap" and "f \<in> set (ap_futures ap)"
  shows "fst (consume f (ap_cache ap)) \<noteq> Throw BadAnyCast \<and> fst (consume f (ap_cache ap)) \<noteq> UB"
proof -
  have inv: "app_inv ap" using running_inv [OF assms(1)] .
  then have "any_ok (ap_cache ap) f" using assms(2) by (simp add: app_inv_def)
  moreover have "anyConn f \<in># mset (rc_held (ap_cache ap))" using inv assms(2) by (auto simp: app_inv_def)
  then have "rc_store (ap_cache ap) (anyConn f) \<noteq> None" using inv by (auto simp: app_inv_def almost_def referenced_def)
  ultimately show ?thesis using consume_outcome [of "ap_cache ap" f] by (metis prod.collapse)
qed

text \<open>A GET that has been answered, its future not yet consumed.\<close>

definition valueEnv :: Environment where
  "valueEnv = exampleEnv [RecvData (encodeResponseStart BASIC 0 4 0 None @ encodeBody (ValueBody [5]))]"

definition connectedCache :: RemoteCache where
  "connectedCache = snd (cacheConnect valueEnv (newRemoteCache ''a'' 1 ''c''))"

definition askedCache :: RemoteCache where
  "askedCache = snd (invoke valueEnv noExclusions False (CacheCall (GetR [7])) connectedCache)"

definition answeredCache :: RemoteCache where
  "answeredCache = snd (clientRead 0 askedCache)"

lemma answered_run:
  "fst (cacheConnect valueEnv (newRemoteCache ''a'' 1 ''c'')) = Ok ()" "fst (clientRead 0 askedCache) = Ok True"
  "fst (bindM (invoke valueEnv noExclusions False (CacheCall (GetR [7]))) (\<lambda>f. bindM (clientRead 0) (\<lambda>_. consume f)) connectedCache) =
     Ok (GotValue (Some [5]))"
  by code_simp+

theorem futures_are_type_safe_witness:
  "\<exists>f. running valueEnv \<lparr>ap_cache = answeredCache, ap_futures = [f]\<rparr> \<and>
     fst (consume f answeredCache) = Ok (GotValue (Some [5])) \<and> fst (consume f answeredCache) \<noteq> Throw BadAnyCast"
proof -
  let ?new = "\<lparr>ap_cache = newRemoteCache ''a'' 1 ''c'', ap_futures = []\<rparr>"
  let ?call = "invoke valueEnv noExclusions False (CacheCall (GetR [7]))"
  obtain r where r: "?call connectedCache = (r, askedCache)" unfolding askedCache_def by (cases "?call connectedCache") auto
  have read: "clientRead 0 askedCache = (Ok True, answeredCache)" using answered_run(2) by (simp add: answeredCache_def prod_eq_iff)
  from answered_run(3) obtain f where f: "?call connectedCache = (Ok f, askedCache)" "fst (consume f answeredCache) = Ok (GotValue (Some [5]))"
    using r read by (cases r) (auto simp: bindM_def)
  have "happens valueEnv ?new (?new\<lparr>ap_cache := connectedCache\<rparr>)"
    using answered_run(1) by (intro connecting [of _ _ "Ok ()"]) (simp_all add: connectedCache_def prod_eq_iff)
  then have "running valueEnv \<lparr>ap_cache = connectedCache, ap_futures = []\<rparr>" using goes_on [OF created] by simp
  moreover have "happens valueEnv \<lparr>ap_cache = connectedCache, ap_futures = []\<rparr> \<lparr>ap_cache = askedCache, ap_futures = [f]\<rparr>"
    using invoked [of valueEnv noExclusions False "CacheCall (GetR [7])" "\<lparr>ap_cache = connectedCache, ap_futures = []\<rparr>" f askedCache] f(1) by simp
  moreover have "happens valueEnv \<lparr>ap_cache = askedCache, ap_futures = [f]\<rparr> \<lparr>ap_cache = answeredCache, ap_futures = [f]\<rparr>"
    using receiving [of 0 "\<lparr>ap_cache = askedCache, ap_futures = [f]\<rparr>" "Ok True" answeredCache] read by simp
  ultimately have r: "running valueEnv \<lparr>ap_cache = answeredCache, ap_futures = [f]\<rparr>" by (blast intro: goes_on)
  with futures_are_type_safe [OF r, of f] f(2) show ?thesis by auto
qed


end
