(* ===== verification/Locking.thy ===== *)
theory Locking
  imports Prelude
begin

text \<open>
  Waiting. RemoteCache::stateMutex\_ is held while a server is selected, which may connect to it (selectServerForKey,
  selectAnyServer), and while a topology callback replaces the routing state and prunes the pool
  (handleTopologyUpdate). Taking the last reference to a connection away runs its destructor, whose close joins the
  read thread of that connection. This theory abstracts from all data but the references to connections and the promises that
  are not set, and asks whether the mutex can always be released. (pendingMutex\_ and writeMutex\_ are only held for
  operations that wait for nothing but the network.)
\<close>

section \<open>Threads, the state mutex and joins\<close>

text \<open>
  What the read thread of a connection is doing. \<open>Reading\<close>: it receives, parses and completes promises.
  \<open>Wanting stale\<close>: it is in the topology callback, before the lock; the update makes the connections \<open>stale\<close> stale.
  \<open>Updating cs\<close>: it holds the lock and has still to take the connections \<open>cs\<close> out of the pool. \<open>Joining c cs\<close>: it holds
  the lock and waits, in the destructor of the connection \<open>c\<close>, for the read thread of \<open>c\<close>. \<open>Failing\<close>: the loop has failed
  and set connected\_ to false.
\<close>

datatype Phase = Reading | Wanting "nat list" | Updating "nat list" | Joining nat "nat list" | Failing | Ended

datatype Holder = Caller | ReadThread nat

text \<open>
  \<open>th_refs\<close>: the shared pointers of operations in progress and of futures; \<open>th_open\<close>: the requests whose promise is
  not set; \<open>th_joining\<close>: the connection whose thread a caller waits for inside getConnectionForServer.
\<close>

record Threads =
  th_holder :: "Holder option"
  th_phase :: "nat \<rightharpoonup> Phase"
  th_seed :: nat
  th_pool :: "nat list"
  th_refs :: "nat list"
  th_open :: "nat list"
  th_shut :: "nat set"
  th_joining :: "nat option"

definition inUse :: "Threads \<Rightarrow> nat \<Rightarrow> bool" where
  "inUse s a \<longleftrightarrow> a = th_seed s \<or> a \<in> set (th_refs s)"

definition setPhase :: "nat \<Rightarrow> Phase \<Rightarrow> Threads \<Rightarrow> Threads" where
  "setPhase a p s = s\<lparr>th_phase := (th_phase s)(a \<mapsto> p)\<rparr>"

text \<open>A shared pointer goes away; the last one closes the connection, on the thread that dropped it.\<close>

definition dropRef :: "nat \<Rightarrow> Threads \<Rightarrow> Threads" where
  "dropRef a s = (let s = s\<lparr>th_refs := remove1 a (th_refs s)\<rparr>
     in if inUse s a \<or> a \<in> set (th_pool s) then s else s\<lparr>th_shut := insert a (th_shut s)\<rparr>)"

text \<open>
  The steps of callers (selectServerForKey, selectAnyServer and what follows them). A caller locks the mutex, drops dead
  connections from the pool, connects to servers, takes a reference to a connection and unlocks; then it may register a
  request, wait for its promise and let the reference go (\<open>gets\<close>), or drop a future whose promise is not set (\<open>abandons\<close>, when
  \<open>abandoning\<close>).
\<close>

inductive callerStep :: "bool \<Rightarrow> Threads \<Rightarrow> Threads \<Rightarrow> bool" for abandoning where
  caller_locks: "th_holder s = None \<Longrightarrow> callerStep abandoning s (s\<lparr>th_holder := Some Caller\<rparr>)"
| caller_drops: "th_holder s = Some Caller \<Longrightarrow> th_joining s = None \<Longrightarrow> c \<in> set (th_pool s) \<Longrightarrow> th_phase s c \<in> {Some Failing, Some Ended} \<Longrightarrow>
    callerStep abandoning s (if inUse s c then s\<lparr>th_pool := remove1 c (th_pool s)\<rparr>
      else s\<lparr>th_pool := remove1 c (th_pool s), th_shut := insert c (th_shut s), th_joining := Some c\<rparr>)"
| caller_joins: "th_joining s = Some c \<Longrightarrow> th_phase s c = Some Ended \<Longrightarrow> callerStep abandoning s (s\<lparr>th_joining := None\<rparr>)"
| caller_connects: "th_holder s = Some Caller \<Longrightarrow> th_joining s = None \<Longrightarrow> th_phase s a = None \<Longrightarrow>
    callerStep abandoning s (setPhase a Reading (s\<lparr>th_pool := th_pool s @ [a]\<rparr>))"
| caller_takes: "th_holder s = Some Caller \<Longrightarrow> th_joining s = None \<Longrightarrow> a = th_seed s \<or> a \<in> set (th_pool s) \<Longrightarrow>
    callerStep abandoning s (s\<lparr>th_refs := th_refs s @ [a]\<rparr>)"
| caller_unlocks: "th_holder s = Some Caller \<Longrightarrow> th_joining s = None \<Longrightarrow> callerStep abandoning s (s\<lparr>th_holder := None\<rparr>)"
| requests: "count_list (th_open s) a < count_list (th_refs s) a \<Longrightarrow> callerStep abandoning s (s\<lparr>th_open := th_open s @ [a]\<rparr>)"
| gets: "count_list (th_open s) a < count_list (th_refs s) a \<Longrightarrow> callerStep abandoning s (dropRef a s)"
| abandons: "abandoning \<Longrightarrow> a \<in> set (th_refs s) \<Longrightarrow> callerStep abandoning s (dropRef a s)"
| disconnects: "callerStep abandoning s (s\<lparr>th_shut := insert (th_seed s) (th_shut s)\<rparr>)"

text \<open>
  The steps of read threads. A read thread completes a promise, or first runs the topology callback; its loop may fail at any
  time. An update that takes the last reference to its own connection away ends the program and has no step.
\<close>

inductive readerStep :: "Threads \<Rightarrow> Threads \<Rightarrow> bool" where
  answers: "th_phase s a = Some Reading \<Longrightarrow> a \<in> set (th_open s) \<Longrightarrow> readerStep s (s\<lparr>th_open := remove1 a (th_open s)\<rparr>)"
| announces: "th_phase s a = Some Reading \<Longrightarrow> a \<in> set (th_open s) \<Longrightarrow> readerStep s (setPhase a (Wanting stale) s)"
| locks: "th_phase s a = Some (Wanting stale) \<Longrightarrow> th_holder s = None \<Longrightarrow>
    readerStep s (setPhase a (Updating (filter (\<lambda>c. c \<in> set stale) (th_pool s))) (s\<lparr>th_holder := Some (ReadThread a)\<rparr>))"
| evicts_used: "th_phase s a = Some (Updating (c # cs)) \<Longrightarrow> inUse s c \<Longrightarrow>
    readerStep s (setPhase a (Updating cs) (s\<lparr>th_pool := remove1 c (th_pool s)\<rparr>))"
| evicts_last: "th_phase s a = Some (Updating (c # cs)) \<Longrightarrow> \<not> inUse s c \<Longrightarrow> c \<noteq> a \<Longrightarrow>
    readerStep s (setPhase a (Joining c cs) (s\<lparr>th_pool := remove1 c (th_pool s), th_shut := insert c (th_shut s)\<rparr>))"
| joins: "th_phase s a = Some (Joining c cs) \<Longrightarrow> th_phase s c = Some Ended \<Longrightarrow> readerStep s (setPhase a (Updating cs) s)"
| unlocks: "th_phase s a = Some (Updating []) \<Longrightarrow>
    readerStep s (setPhase a Reading (s\<lparr>th_holder := None, th_open := remove1 a (th_open s)\<rparr>))"
| fails: "th_phase s a = Some Reading \<Longrightarrow> readerStep s (setPhase a Failing s)"
| ends: "th_phase s a = Some Failing \<Longrightarrow> readerStep s (setPhase a Ended (s\<lparr>th_open := filter (\<lambda>b. b \<noteq> a) (th_open s)\<rparr>))"

inductive tstep :: "bool \<Rightarrow> Threads \<Rightarrow> Threads \<Rightarrow> bool" for abandoning where
  caller: "callerStep abandoning s t \<Longrightarrow> tstep abandoning s t"
| reader: "readerStep s t \<Longrightarrow> tstep abandoning s t"

text \<open>A step of either kind.\<close>

lemma tstep_cases:
  assumes "tstep b s t" and "callerStep b s t \<Longrightarrow> P" and "readerStep s t \<Longrightarrow> P"
  shows P
  using assms by (auto elim: tstep.cases)

definition freshThreads :: Threads where
  "freshThreads = \<lparr>th_holder = None, th_phase = [0 \<mapsto> Reading], th_seed = 0, th_pool = [], th_refs = [], th_open = [],
     th_shut = {}, th_joining = None\<rparr>"

abbreviation arises :: "bool \<Rightarrow> Threads \<Rightarrow> bool" where
  "arises abandoning \<equiv> (tstep abandoning)\<^sup>*\<^sup>* freshThreads"

section \<open>As long as every future is awaited\<close>

fun inCallback :: "Phase \<Rightarrow> bool" where
  "inCallback (Wanting stale) = True"
| "inCallback (Updating cs) = True"
| "inCallback (Joining c cs) = True"
| "inCallback _ = False"

fun hasLock :: "Phase \<Rightarrow> bool" where
  "hasLock (Updating cs) = True"
| "hasLock (Joining c cs) = True"
| "hasLock _ = False"

fun leaving :: "Phase \<Rightarrow> nat list" where
  "leaving (Updating cs) = cs"
| "leaving (Joining c cs) = cs"
| "leaving _ = []"

lemma count_list_remove1 [simp]: "count_list (remove1 a xs) b = count_list xs b - (if a = b then 1 else 0)"
proof (induction xs)
  case (Cons x xs)
  have "x \<in> set xs \<Longrightarrow> 0 < count_list xs x" by (metis count_list_0_iff gr0I)
  with Cons show ?case by (cases "a \<in> set xs") auto
qed simp

lemma count_list_filter_ne [simp]: "count_list (filter (\<lambda>x. x \<noteq> a) xs) b = (if a = b then 0 else count_list xs b)"
  by (induction xs) auto

lemma dropRef_frame [simp]: "th_phase (dropRef a s) = th_phase s" "th_holder (dropRef a s) = th_holder s" "th_pool (dropRef a s) = th_pool s"
  "th_open (dropRef a s) = th_open s" "th_seed (dropRef a s) = th_seed s" "th_joining (dropRef a s) = th_joining s"
  "th_refs (dropRef a s) = remove1 a (th_refs s)"
  by (simp_all add: dropRef_def Let_def)

lemma setPhase_frame [simp]: "th_phase (setPhase a p s) = (th_phase s)(a \<mapsto> p)" "th_holder (setPhase a p s) = th_holder s"
  "th_pool (setPhase a p s) = th_pool s" "th_open (setPhase a p s) = th_open s" "th_seed (setPhase a p s) = th_seed s"
  "th_joining (setPhase a p s) = th_joining s" "th_refs (setPhase a p s) = th_refs s" "th_shut (setPhase a p s) = th_shut s"
  by (simp_all add: setPhase_def)

text \<open>The lock is where the phases say.\<close>

definition lock_inv :: "Threads \<Rightarrow> bool" where
  "lock_inv s \<longleftrightarrow> (\<forall>a. (\<exists>p. th_phase s a = Some p \<and> hasLock p) \<longleftrightarrow> th_holder s = Some (ReadThread a))"

lemma phase_lock: "th_phase s a = Some p \<Longrightarrow> lock_inv s \<Longrightarrow> hasLock p \<longleftrightarrow> th_holder s = Some (ReadThread a)"
  unfolding lock_inv_def by (metis option.inject)

lemma lock_inv_cong:
  "lock_inv s \<Longrightarrow> th_holder t = th_holder s \<Longrightarrow> th_phase t = th_phase s \<Longrightarrow> lock_inv t"
  by (simp add: lock_inv_def)

lemma lock_inv_set:
  assumes "lock_inv s" and "th_phase t = (th_phase s)(a \<mapsto> p)" and "hasLock p \<longleftrightarrow> th_holder t = Some (ReadThread a)"
    and "\<And>b. b \<noteq> a \<Longrightarrow> th_holder t = Some (ReadThread b) \<longleftrightarrow> th_holder s = Some (ReadThread b)"
  shows "lock_inv t"
  unfolding lock_inv_def
proof
  fix b show "(\<exists>p. th_phase t b = Some p \<and> hasLock p) \<longleftrightarrow> th_holder t = Some (ReadThread b)"
    using assms by (cases "b = a") (simp_all add: lock_inv_def)
qed

lemma lock_inv_same:
  "th_phase s a = Some q \<Longrightarrow> lock_inv s \<Longrightarrow> hasLock p = hasLock q \<Longrightarrow> th_holder t = th_holder s \<Longrightarrow> th_phase t = (th_phase s)(a \<mapsto> p) \<Longrightarrow> lock_inv t"
  using phase_lock [of s a q] by (intro lock_inv_set [of s t a p]) auto

lemma lock_inv_step:
  assumes "tstep b s t" and i: "lock_inv s"
  shows "lock_inv t"
proof (rule tstep_cases [OF assms(1)])
  assume "callerStep b s t"
  then show ?thesis by cases (use phase_lock [OF _ i] i in \<open>auto intro: lock_inv_cong [OF i] lock_inv_set [OF i] simp: lock_inv_def\<close>)
next
  assume "readerStep s t"
  then show ?thesis
  proof cases
  case (locks a stale)
  then show ?thesis by (intro lock_inv_set [OF i]) auto
next
  case (unlocks a)
  then have "th_holder s = Some (ReadThread a)" using phase_lock [OF unlocks(2) i] by simp
  with unlocks show ?thesis by (intro lock_inv_set [OF i]) auto
next
  case (announces a stale)
  then show ?thesis using lock_inv_same [OF announces(2) i, of "Wanting stale"] by simp
next
  case (fails a)
  then show ?thesis using lock_inv_same [OF fails(2) i, of Failing] by simp
next
  case (ends a)
  then show ?thesis using lock_inv_same [OF ends(2) i, of Ended] by simp
  qed (use phase_lock [OF _ i] i in \<open>auto intro: lock_inv_cong [OF i] lock_inv_set [OF i] simp: lock_inv_def\<close>)
qed

text \<open>A promise that is not set has a reference.\<close>

definition owed_inv :: "Threads \<Rightarrow> bool" where
  "owed_inv s \<longleftrightarrow> (\<forall>a. count_list (th_open s) a \<le> count_list (th_refs s) a)"

lemma owed_inv_step: "tstep False s t \<Longrightarrow> owed_inv s \<Longrightarrow> owed_inv t"
  by (erule tstep_cases; erule callerStep.cases readerStep.cases)
    (auto simp: owed_inv_def intro: le_SucI le_trans [OF diff_le_self])

text \<open>A thread in its callback owes a promise.\<close>

definition callback_inv :: "Threads \<Rightarrow> bool" where
  "callback_inv s \<longleftrightarrow> (\<forall>a p. th_phase s a = Some p \<longrightarrow> inCallback p \<longrightarrow> a \<in> set (th_open s))"

lemma callback_inv_step:
  assumes st: "tstep b s t" and i: "callback_inv s"
  shows "callback_inv t"
proof (rule tstep_cases [OF st])
  assume "callerStep b s t"
  then show ?thesis by cases (use i in \<open>auto simp: callback_inv_def\<close>)
next
  assume "readerStep s t"
  then show ?thesis
  proof cases
    case (answers a)
    with i show ?thesis by (auto simp: callback_inv_def) (metis inCallback.simps(4) option.inject in_set_remove1)
  qed (use i in \<open>auto simp: callback_inv_def\<close>)
qed

text \<open>Pooled connections have threads; those still to be taken out are pooled, and only the holder of the lock takes them out.\<close>

definition pool_inv :: "Threads \<Rightarrow> bool" where
  "pool_inv s \<longleftrightarrow> distinct (th_pool s) \<and> (\<forall>a \<in> set (th_pool s). th_phase s a \<noteq> None) \<and> th_phase s (th_seed s) \<noteq> None \<and>
     (\<forall>a p. th_phase s a = Some p \<longrightarrow> distinct (leaving p) \<and> set (leaving p) \<subseteq> set (th_pool s))"

lemma pool_inv_cong: "pool_inv s \<Longrightarrow> th_pool t = th_pool s \<Longrightarrow> th_phase t = th_phase s \<Longrightarrow> th_seed t = th_seed s \<Longrightarrow> pool_inv t"
  by (simp add: pool_inv_def)

lemma pool_inv_set:
  "pool_inv s \<Longrightarrow> th_pool t = th_pool s \<Longrightarrow> th_phase t = (th_phase s)(a \<mapsto> p) \<Longrightarrow> th_seed t = th_seed s \<Longrightarrow>
    distinct (leaving p) \<Longrightarrow> set (leaving p) \<subseteq> set (th_pool s) \<Longrightarrow> pool_inv t"
  by (auto simp: pool_inv_def)

lemma leaving_lock: "\<not> hasLock p \<Longrightarrow> leaving p = []"
  by (cases p) auto

lemma nobody_leaving:
  assumes "lock_inv s" and "th_phase s a = Some p" and "th_holder s \<noteq> Some (ReadThread a)"
  shows "leaving p = []"
  using phase_lock [OF assms(2,1)] assms(3) by (simp add: leaving_lock)

lemma pool_inv_evict:
  assumes "lock_inv s" "pool_inv s" and a: "th_phase s a = Some (Updating (c # cs))" and p: "leaving p = cs"
  shows "pool_inv (setPhase a p (s\<lparr>th_pool := remove1 c (th_pool s), th_shut := x\<rparr>))"
proof -
  have h: "th_holder s = Some (ReadThread a)" using phase_lock [OF a assms(1)] by simp
  have "leaving q = []" if "b \<noteq> a" "th_phase s b = Some q" for b q using nobody_leaving [OF assms(1) that(2)] h that(1) by simp
  moreover have "distinct (c # cs)" "set (c # cs) \<subseteq> set (th_pool s)" using assms(2) a unfolding pool_inv_def by (metis leaving.simps(1))+
  ultimately show ?thesis using assms(2) p by (auto simp: pool_inv_def)
qed

lemma pool_inv_step:
  assumes "tstep b s t" and l: "lock_inv s" and i: "pool_inv s"
  shows "pool_inv t"
proof (rule tstep_cases [OF assms(1)])
  assume "callerStep b s t"
  then show ?thesis proof cases
    case (caller_drops c)
    then have "leaving q = []" if "th_phase s a = Some q" for a q using nobody_leaving [OF l that] by simp
    with caller_drops i show ?thesis by (auto simp: pool_inv_def)
  next
    case (caller_connects a)
    with i show ?thesis by (auto simp: pool_inv_def)
  qed (auto intro: pool_inv_cong [OF i] pool_inv_set [OF i])
next
  assume "readerStep s t"
  then show ?thesis
  proof cases
  case (locks a stale)
  with i show ?thesis by (intro pool_inv_set [OF i]) (auto simp: pool_inv_def)
next
  case (evicts_used a c cs)
  then show ?thesis using pool_inv_evict [OF l i, of a c cs "Updating cs" "th_shut s"] by simp
next
  case (evicts_last a c cs)
  then show ?thesis using pool_inv_evict [OF l i, of a c cs "Joining c cs"] by simp
next
  case (joins a c cs)
  have "distinct cs" "set cs \<subseteq> set (th_pool s)" using joins i unfolding pool_inv_def by (metis leaving.simps(2))+
  with joins show ?thesis by (intro pool_inv_set [OF i]) auto
  qed (auto intro: pool_inv_cong [OF i] pool_inv_set [OF i])
qed

text \<open>A connection whose thread is waited for has no reference any more and its socket is shut down.\<close>

definition gone :: "Threads \<Rightarrow> nat \<Rightarrow> bool" where
  "gone s c \<longleftrightarrow> \<not> inUse s c \<and> c \<notin> set (th_pool s) \<and> c \<in> th_shut s \<and> th_phase s c \<noteq> None"

definition join_inv :: "Threads \<Rightarrow> bool" where
  "join_inv s \<longleftrightarrow> (\<forall>a c cs. th_phase s a = Some (Joining c cs) \<longrightarrow> gone s c) \<and>
     (\<forall>c. th_joining s = Some c \<longrightarrow> th_holder s = Some Caller \<and> th_phase s c \<in> {Some Failing, Some Ended})"

lemma gone_step: "tstep b s t \<Longrightarrow> gone s c \<Longrightarrow> gone t c"
  by (erule tstep_cases; erule callerStep.cases readerStep.cases)
    (auto simp: gone_def inUse_def dropRef_def Let_def split: if_splits dest: notin_set_remove1 set_mp [OF set_remove1_subset])

lemma join_inv_step:
  assumes st: "tstep b s t" and l: "lock_inv s" and p: "pool_inv s" and i: "join_inv s"
  shows "join_inv t"
proof -
  have old: "gone t c" if "th_phase s a = Some (Joining c cs)" for a c cs using that i gone_step [OF st] by (auto simp: join_inv_def)
  show ?thesis
  proof (rule tstep_cases [OF st])
    assume "callerStep b s t"
    then show ?thesis by cases (use i old phase_lock [OF _ l] in \<open>auto simp: join_inv_def split: if_splits\<close>)
  next
    assume "readerStep s t"
    then show ?thesis
    proof cases
    case (evicts_last a c cs)
    have "distinct (c # cs)" "set (c # cs) \<subseteq> set (th_pool s)" using evicts_last p unfolding pool_inv_def by (metis leaving.simps(1))+
    with p evicts_last have "gone t c" by (auto simp: gone_def inUse_def pool_inv_def)
    moreover have "th_holder s = Some (ReadThread a)" using phase_lock [OF evicts_last(2) l] by simp
    ultimately show ?thesis using evicts_last i old by (auto simp: join_inv_def split: if_splits)
  next
    case (unlocks a)
    then have "th_holder s = Some (ReadThread a)" using phase_lock [OF unlocks(2) l] by simp
    with unlocks i old show ?thesis by (auto simp: join_inv_def split: if_splits)
    qed (use i old phase_lock [OF _ l] in \<open>auto simp: join_inv_def split: if_splits\<close>)
  qed
qed

definition all_inv :: "Threads \<Rightarrow> bool" where
  "all_inv s \<longleftrightarrow> lock_inv s \<and> owed_inv s \<and> callback_inv s \<and> pool_inv s \<and> join_inv s"

lemma all_inv_step: "tstep False s t \<Longrightarrow> all_inv s \<Longrightarrow> all_inv t"
  unfolding all_inv_def by (blast intro: lock_inv_step owed_inv_step callback_inv_step pool_inv_step join_inv_step)

lemma all_inv_fresh: "all_inv freshThreads"
  by (auto simp: all_inv_def freshThreads_def lock_inv_def owed_inv_def callback_inv_def pool_inv_def join_inv_def split: if_splits)

lemma arises_inv: "arises False s \<Longrightarrow> all_inv s"
  by (induction rule: rtranclp_induct) (auto intro: all_inv_fresh all_inv_step)

text \<open>A thread in its callback has a reference to its connection.\<close>

lemma callback_referenced:
  assumes "all_inv s" and "th_phase s a = Some p" and "inCallback p"
  shows "a \<in> set (th_refs s)"
proof -
  have "0 < count_list (th_open s) a" using assms by (metis all_inv_def callback_inv_def count_list_0_iff gr0I)
  also have "\<dots> \<le> count_list (th_refs s) a" using assms(1) by (simp add: all_inv_def owed_inv_def)
  finally show ?thesis by (metis count_list_0_iff less_irrefl)
qed

lemma waited_for:
  assumes "all_inv s" and "th_phase s a = Some (Joining c cs)"
  shows "th_phase s c \<in> {Some Reading, Some Failing, Some Ended}"
proof -
  from assms have "gone s c" by (auto simp: all_inv_def join_inv_def)
  then obtain p where p: "th_phase s c = Some p" "c \<notin> set (th_refs s)" by (auto simp: gone_def inUse_def)
  with callback_referenced [OF assms(1) p(1)] show ?thesis by (cases p) auto
qed

text \<open>A thread that is waited for comes to its end by itself.\<close>

lemma comes_to_end:
  assumes "th_phase s c \<in> {Some Reading, Some Failing, Some Ended}"
  shows "\<exists>t. (tstep b)\<^sup>*\<^sup>* s t \<and> th_phase t = (th_phase s)(c \<mapsto> Ended) \<and> th_holder t = th_holder s \<and> th_joining t = th_joining s"
proof -
  have ends: "\<exists>t. (tstep b)\<^sup>*\<^sup>* u t \<and> th_phase t = (th_phase u)(c \<mapsto> Ended) \<and> th_holder t = th_holder u \<and> th_joining t = th_joining u"
    if "th_phase u c = Some Failing" for u
    using tstep.reader [OF readerStep.ends [OF that]] by (intro exI conjI, rule r_into_rtranclp) auto
  from assms consider "th_phase s c = Some Reading" | "th_phase s c = Some Failing" | "th_phase s c = Some Ended" by auto
  then show ?thesis
  proof cases
    case 1
    have "tstep b s (setPhase c Failing s)" using 1 by (rule tstep.reader [OF readerStep.fails])
    moreover from ends [of "setPhase c Failing s"] obtain t where "(tstep b)\<^sup>*\<^sup>* (setPhase c Failing s) t"
      "th_phase t = (th_phase s)(c \<mapsto> Ended)" "th_holder t = th_holder s" "th_joining t = th_joining s" by auto
    ultimately show ?thesis by (meson converse_rtranclp_into_rtranclp)
  next
    case 2
    then show ?thesis by (rule ends)
  next
    case 3
    then have "(th_phase s)(c \<mapsto> Ended) = th_phase s" by auto
    then show ?thesis by auto
  qed
qed

lemma all_inv_steps: "(tstep False)\<^sup>*\<^sup>* s t \<Longrightarrow> all_inv s \<Longrightarrow> all_inv t"
  by (induction rule: rtranclp_induct) (auto intro: all_inv_step)

lemma join_completes:
  assumes i: "all_inv s" and a: "th_phase s a = Some (Joining c cs)"
  shows "\<exists>t. (tstep False)\<^sup>*\<^sup>* s t \<and> th_phase t a = Some (Updating cs) \<and> all_inv t"
proof -
  obtain t where t: "(tstep False)\<^sup>*\<^sup>* s t" "th_phase t = (th_phase s)(c \<mapsto> Ended)"
    using comes_to_end [OF waited_for [OF i a], of False] by blast
  have "c \<noteq> a" using waited_for [OF i a] a by auto
  with t(2) a have "tstep False t (setPhase a (Updating cs) t)" by (intro tstep.reader [OF readerStep.joins [where c = c]]) auto
  with t(1) have s: "(tstep False)\<^sup>*\<^sup>* s (setPhase a (Updating cs) t)" by (rule rtranclp.rtrancl_into_rtrancl)
  moreover have "th_phase (setPhase a (Updating cs) t) a = Some (Updating cs)" by simp
  ultimately show ?thesis using all_inv_steps [OF s i] by blast
qed

lemma update_completes:
  "all_inv s \<Longrightarrow> th_phase s a = Some (Updating cs) \<Longrightarrow> \<exists>t. (tstep False)\<^sup>*\<^sup>* s t \<and> th_holder t = None"
proof (induction cs arbitrary: s)
  case Nil
  from tstep.reader [OF readerStep.unlocks [OF Nil.prems(2)]] show ?case by (intro exI conjI, rule r_into_rtranclp) auto
next
  case (Cons c cs)
  have "\<exists>t. (tstep False)\<^sup>*\<^sup>* s t \<and> th_phase t a = Some (Updating cs) \<and> all_inv t"
  proof (cases "inUse s c")
    case True
    note e = tstep.reader [OF readerStep.evicts_used [OF Cons.prems(2) True]]
    from all_inv_step [OF e Cons.prems(1)] r_into_rtranclp [of "tstep False", OF e] show ?thesis by fastforce
  next
    case False
    then have "c \<noteq> a" using callback_referenced [OF Cons.prems] by (auto simp: inUse_def)
    note e = tstep.reader [OF readerStep.evicts_last [OF Cons.prems(2) False this]]
    from join_completes [OF all_inv_step [OF e Cons.prems(1)], of a c cs] e show ?thesis by (auto intro: converse_rtranclp_into_rtranclp)
  qed
  then obtain t where t: "(tstep False)\<^sup>*\<^sup>* s t" "th_phase t a = Some (Updating cs)" "all_inv t" by blast
  from Cons.IH [OF t(3,2)] obtain u where "(tstep False)\<^sup>*\<^sup>* t u" "th_holder u = None" by blast
  with t(1) show ?case by (meson rtranclp_trans)
qed

text \<open>
  C16: The state mutex can always be released again, as long as no future is dropped before its answer has arrived. In every state
  callers and read threads can reach, whoever holds stateMutex\_ has a way on that ends with unlocking it: a connection
  whose thread it waits for has its socket shut down and is not itself waiting for the mutex. So selecting a
  server, topology updates and the destruction of connections do not deadlock.
\<close>

theorem no_deadlock_while_futures_are_awaited:
  assumes "arises False s"
  shows "\<exists>t. (tstep False)\<^sup>*\<^sup>* s t \<and> th_holder t = None"
proof -
  have i: "all_inv s" using arises_inv [OF assms] .
  show ?thesis
  proof (cases "th_holder s")
    case None
    then show ?thesis by blast
  next
    case (Some h)
    show ?thesis
    proof (cases h)
      case Caller
      have "\<exists>t. (tstep False)\<^sup>*\<^sup>* s t \<and> th_joining t = None \<and> th_holder t = Some Caller"
      proof (cases "th_joining s")
        case None
        with Some Caller show ?thesis by auto
      next
        case (Some c)
        then have "th_phase s c \<in> {Some Reading, Some Failing, Some Ended}" using i by (auto simp: all_inv_def join_inv_def)
        from comes_to_end [OF this, of False] obtain t where t: "(tstep False)\<^sup>*\<^sup>* s t" "th_phase t = (th_phase s)(c \<mapsto> Ended)"
          "th_holder t = th_holder s" "th_joining t = th_joining s" by blast
        have "tstep False t (t\<lparr>th_joining := None\<rparr>)" using t Some by (intro tstep.caller [OF callerStep.caller_joins [where c = c]]) auto
        with t \<open>th_holder s = Some h\<close> Caller show ?thesis by (intro exI [of _ "t\<lparr>th_joining := None\<rparr>"]) auto
      qed
      then obtain t where "(tstep False)\<^sup>*\<^sup>* s t" "tstep False t (t\<lparr>th_holder := None\<rparr>)" using tstep.caller [OF callerStep.caller_unlocks] by blast
      then show ?thesis by (intro exI [of _ "t\<lparr>th_holder := None\<rparr>"]) auto
    next
      case (ReadThread a)
      with Some i obtain p where p: "th_phase s a = Some p" "hasLock p" by (auto simp: all_inv_def lock_inv_def)
      then consider cs where "p = Updating cs" | c cs where "p = Joining c cs" by (cases p) auto
      then show ?thesis
      proof cases
        case 1
        with p update_completes [OF i] show ?thesis by blast
      next
        case 2
        with p join_completes [OF i] update_completes show ?thesis by (meson rtranclp_trans)
      qed
    qed
  qed
qed

section \<open>A future that is dropped\<close>



text \<open>A caller connects to two servers and asks each of them.\<close>

definition threads :: "Holder option \<Rightarrow> (nat \<rightharpoonup> Phase) \<Rightarrow> nat list \<Rightarrow> nat list \<Rightarrow> nat list \<Rightarrow> nat set \<Rightarrow> Threads" where
  "threads h ph pool refs op sh = \<lparr>th_holder = h, th_phase = ph, th_seed = 0, th_pool = pool, th_refs = refs, th_open = op,
     th_shut = sh, th_joining = None\<rparr>"

lemmas arises_step = rtranclp.rtrancl_into_rtrancl [of "tstep b" freshThreads for b]

lemmas step_defs = threads_def setPhase_def dropRef_def inUse_def Let_def

abbreviation allReading :: "nat \<rightharpoonup> Phase" where
  "allReading \<equiv> [0 \<mapsto> Reading, 1 \<mapsto> Reading, 2 \<mapsto> Reading]"

lemma both_asked: "arises b (threads None allReading [1, 2] [1, 2] [1, 2] {})"
proof -
  have "arises b (threads None [0 \<mapsto> Reading] [] [] [] {})" by (simp add: freshThreads_def threads_def)
  from arises_step [OF this tstep.caller [OF callerStep.caller_locks]] have "arises b (threads (Some Caller) [0 \<mapsto> Reading] [] [] [] {})" by (simp add: step_defs)
  from arises_step [OF this tstep.caller [OF callerStep.caller_connects [where a = 1]]]
  have "arises b (threads (Some Caller) [0 \<mapsto> Reading, 1 \<mapsto> Reading] [1] [] [] {})" by (simp add: step_defs)
  from arises_step [OF this tstep.caller [OF callerStep.caller_connects [where a = 2]]] have "arises b (threads (Some Caller) allReading [1, 2] [] [] {})" by (simp add: step_defs)
  from arises_step [OF this tstep.caller [OF callerStep.caller_takes [where a = 1]]] have "arises b (threads (Some Caller) allReading [1, 2] [1] [] {})" by (simp add: step_defs)
  from arises_step [OF this tstep.caller [OF callerStep.caller_takes [where a = 2]]] have "arises b (threads (Some Caller) allReading [1, 2] [1, 2] [] {})" by (simp add: step_defs)
  from arises_step [OF this tstep.caller [OF callerStep.caller_unlocks]] have "arises b (threads None allReading [1, 2] [1, 2] [] {})" by (simp add: step_defs)
  from arises_step [OF this tstep.caller [OF callerStep.requests [where a = 1]]] have "arises b (threads None allReading [1, 2] [1, 2] [1] {})" by (simp add: step_defs)
  from arises_step [OF this tstep.caller [OF callerStep.requests [where a = 2]]] show ?thesis by (simp add: step_defs)
qed

text \<open>The second is answered and let go, then the first announces a topology without the second.\<close>

definition joiningThreads :: Threads where
  "joiningThreads = threads (Some (ReadThread 1)) [0 \<mapsto> Reading, 1 \<mapsto> Joining 2 [], 2 \<mapsto> Reading] [1] [1] [1] {2}"

lemma joining_arises: "arises b joiningThreads"
proof -
  from arises_step [OF both_asked tstep.reader [OF readerStep.answers [where a = 2]]] have "arises b (threads None allReading [1, 2] [1, 2] [1] {})" by (simp add: step_defs)
  from arises_step [OF this tstep.caller [OF callerStep.gets [where a = 2]]] have "arises b (threads None allReading [1, 2] [1] [1] {})" by (simp add: step_defs)
  from arises_step [OF this tstep.reader [OF readerStep.announces [where a = 1 and stale = "[2]"]]]
  have "arises b (threads None [0 \<mapsto> Reading, 1 \<mapsto> Wanting [2], 2 \<mapsto> Reading] [1, 2] [1] [1] {})" by (simp add: step_defs fun_upd_twist)
  from arises_step [OF this tstep.reader [OF readerStep.locks [where a = 1 and stale = "[2]"]]]
  have "arises b (threads (Some (ReadThread 1)) [0 \<mapsto> Reading, 1 \<mapsto> Updating [2], 2 \<mapsto> Reading] [1, 2] [1] [1] {})"
    by (simp add: step_defs fun_upd_twist)
  from arises_step [OF this tstep.reader [OF readerStep.evicts_last [where a = 1 and c = 2 and cs = "[]"]]] show ?thesis
    by (simp add: step_defs joiningThreads_def fun_upd_twist)
qed

theorem no_deadlock_while_futures_are_awaited_witness:
  "th_holder joiningThreads = Some (ReadThread 1) \<and> (\<exists>t. (tstep False)\<^sup>*\<^sup>* joiningThreads t \<and> th_holder t = None)"
  using no_deadlock_while_futures_are_awaited [OF joining_arises] by (simp add: joiningThreads_def threads_def)





end
