(* ===== verification/Waiting.thy ===== *)
theory Waiting
  imports Locking
begin

text \<open>
  Joining a read thread: what disconnect and the destructors of connections wait for. \<open>inevitable P\<close> is about every run of the
  read threads, in any order and with whatever the servers send: it must come to a state with P, without any read thread having to
  wait for the network on the way.
\<close>

section \<open>What must happen\<close>



section \<open>Read threads alone do not go on for ever\<close>






definition total :: "(Phase \<Rightarrow> nat) \<Rightarrow> Threads \<Rightarrow> nat" where
  "total f s = (\<Sum>a \<in> dom (th_phase s). f (the (th_phase s a)))"


lemma total_cong: "th_phase t = th_phase s \<Longrightarrow> total f t = total f s"
  by (simp add: total_def)





section \<open>While the seed is shut down, some thread can go on\<close>













section \<open>A disconnect that does not return\<close>






section \<open>Joining a read thread\<close>



end
