(* ===== verification/Lifecycle.thy ===== *)
theory Lifecycle
  imports Typing
begin

text \<open>
  The end of a RemoteCache: disconnect, the destructor, and the destruction of the members. The locale
  \<open>connection_invariant\<close> carries a property of single MultiplexedConnection objects, kept by what the cache does to
  them, to every object of every state an application can reach. Its interpretation \<open>wiring\<close> gives that each of
  them can be closed: close returns, so disconnect and the destructor return too, while no read thread is in an iteration (what
  threads in a topology callback wait for is the subject of Locking and Waiting). The last section follows the read thread of a
  connection that a future keeps after the end of the cache.
\<close>

section \<open>Properties of single connections\<close>

abbreviation keeping :: "('s \<Rightarrow> bool) \<Rightarrow> ('s, 'e, 'a) comp \<Rightarrow> bool" where
  "keeping P \<equiv> obeys P (\<lambda>_. P) True"

lemma keeping_iff: "keeping P f \<longleftrightarrow> (\<forall>s r t. P s \<longrightarrow> f s = (r, t) \<longrightarrow> r \<noteq> Block \<longrightarrow> r \<noteq> UB \<longrightarrow> P t)"
proof -
  have "(case x of (Ok a, t) \<Rightarrow> P t | (Throw e, t) \<Rightarrow> P t | (Block, t) \<Rightarrow> True | (UB, t) \<Rightarrow> True) \<longleftrightarrow>
      (\<forall>r t. x = (r, t) \<longrightarrow> r \<noteq> Block \<longrightarrow> r \<noteq> UB \<longrightarrow> P t)" for x
    by (cases x; cases "fst x") simp_all
  note eq = this
  show ?thesis unfolding obeys_def eq by blast
qed

lemma keepingI: "(\<And>s r t. P s \<Longrightarrow> f s = (r, t) \<Longrightarrow> r \<noteq> Block \<Longrightarrow> r \<noteq> UB \<Longrightarrow> P t) \<Longrightarrow> keeping P f"
  unfolding keeping_iff by blast

lemma keepingD: "keeping P f \<Longrightarrow> P s \<Longrightarrow> f s = (r, t) \<Longrightarrow> r \<noteq> Block \<Longrightarrow> r \<noteq> UB \<Longrightarrow> P t"
  unfolding keeping_iff by blast

locale connection_invariant =
  fixes P :: "MultiplexedConnection \<Rightarrow> bool"
  assumes new: "P (newMultiplexedConnection host port True)"
    and sets: "keeping P (setProtocolVersion v)" "keeping P (setClientIntelligence i)" "keeping P (setAuthentication au)"
    and connects: "keeping P (muxConnect cr net)"
    and executes: "cl_bodyParser call = parserOf opn \<Longrightarrow> keeping P (execute call)"
    and iterates: "keeping P readIteration"
    and closes: "keeping P (muxClose busy)"
begin

definition everywhere :: "RemoteCache \<Rightarrow> bool" where
  "everywhere s \<longleftrightarrow> (\<forall>a m. rc_store s a = Some m \<longrightarrow> P m)"

lemma objects:
  assumes "keeping P f"
  shows "keeping everywhere (onObject a f)"
proof (rule keepingI)
  fix s r t assume s: "everywhere s" and f: "onObject a f s = (r, t)" and r: "r \<noteq> Block" "r \<noteq> UB"
  from f r(2) obtain m m' where "rc_store s a = Some m" "f m = (r, m')" "t = s\<lparr>rc_store := (rc_store s)(a \<mapsto> m')\<rparr>"
    by (auto simp: onObject_def split: option.splits prod.splits)
  with s keepingD [OF assms _ _ r, of m m'] show "everywhere t" by (auto simp: everywhere_def)
qed

lemma releases: "everywhere s \<Longrightarrow> everywhere (release s a)"
  by (auto simp: everywhere_def release_def)

lemma modifies: "(\<And>s. everywhere s \<Longrightarrow> everywhere (h s)) \<Longrightarrow> keeping everywhere (modifyC h)"
  by (rule keepingI) (auto simp: modifyC_def)

lemma drops: "everywhere s \<Longrightarrow> everywhere (foldl release s as)"
  by (induction as arbitrary: s) (auto intro: releases)

lemma updates: "keeping everywhere (handleTopologyUpdate self topo name)"
proof (rule keepingI)
  fix s r t assume s: "everywhere s" and h: "handleTopologyUpdate self topo name s = (r, t)"
  then have "everywhere (rerouted topo s)" by (simp add: everywhere_def rerouted_def)
  with drops h show "everywhere t" by (auto simp: handleTopologyUpdate_eq Let_def simp del: set_map)
qed

lemma delivers: "keeping everywhere (deliver self cbs)"
  by (induction cbs) (auto intro!: obeys_bind obeys_basic updates)

lemma threads:
  assumes "keeping P f"
  shows "keeping everywhere (onReadThread a f)"
proof (rule keepingI)
  fix s r t assume s: "everywhere s" and f: "onReadThread a f s = (r, t)" and r: "r \<noteq> Block" "r \<noteq> UB"
  have no: "deliver a cbs u \<noteq> (Throw e, v)" for cbs u e v
    by (induction cbs arbitrary: u) (auto simp: ret_def bindM_def handleTopologyUpdate_eq Let_def split: prod.splits outcome.splits if_splits)
  from f r(2) obtain m q m' where m: "rc_store s a = Some m" "f m = (q, m')"
    by (auto simp: onReadThread_def split: option.splits prod.splits)
  let ?s = "s\<lparr>rc_store := (rc_store s)(a \<mapsto> m')\<rparr>" and ?cbs = "drop (length (mx_callbacks m)) (mx_callbacks m')"
  from f m r no obtain u where u: "deliver a ?cbs ?s = (Ok u, t)" "q = r"
    by (auto simp: onReadThread_def elim!: bindM_cases)
  from s m keepingD [OF assms, of m q m'] u(2) r have "everywhere ?s" by (auto simp: everywhere_def)
  with keepingD [OF delivers _ u(1)] show "everywhere t" by simp
qed

lemma connectsObject: "keeping everywhere (connectObject env a)"
proof -
  have m: "keeping P (\<lambda>m. muxConnect cr (net m) m)" for cr net by (rule obeys_at) (rule connects)
  have a: "keeping everywhere (modifyC (\<lambda>s. s\<lparr>rc_attempts := Suc (rc_attempts s)\<rparr>))" by (rule modifies) (simp add: everywhere_def)
  have "keeping everywhere (\<lambda>s. connectObject env a s)" unfolding connectObject_def
    by (rule obeys_at) (intro obeys_bind objects sets a m)
  then show ?thesis by simp
qed

lemma creates: "keeping everywhere (createConnection env server)"
proof -
  have n: "keeping everywhere (modifyC (\<lambda>s. s\<lparr>rc_fresh := x, rc_store := (rc_store s)(b \<mapsto> newMultiplexedConnection h p True)\<rparr>))" for x b h p
    by (rule modifies) (auto simp: everywhere_def new)
  have p: "keeping everywhere (modifyC (\<lambda>s. s\<lparr>rc_pool := x s\<rparr>))" for x by (rule modifies) (simp add: everywhere_def)
  have c: "keeping everywhere (catchM (connectObject env a) (\<lambda>e. bindM (modifyC (\<lambda>s. release s a)) (\<lambda>_. throw e)))" for a
    by (rule obeys_catch [OF connectsObject], assumption) (intro obeys_bind modifies releases obeys_basic)
  have "keeping everywhere (\<lambda>s. createConnection env server s)" unfolding createConnection_def Let_def
    by (rule obeys_at) (intro obeys_bind n p c obeys_basic)
  then show ?thesis by simp
qed

lemma acquires: "keeping everywhere (getConnectionForServer env server)"
proof (rule keepingI)
  fix s r t assume s: "everywhere s" and g: "getConnectionForServer env server s = (r, t)" and r: "r \<noteq> Block" "r \<noteq> UB"
  have "everywhere (release (s\<lparr>rc_pool := p\<rparr>) a)" for p a using s by (intro releases) (simp add: everywhere_def)
  then have "createConnection env server (release (s\<lparr>rc_pool := p\<rparr>) a) = (r, t) \<Longrightarrow> everywhere t" for p a
    using keepingD [OF creates _ _ r] by blast
  with s keepingD [OF creates s _ r] g r show "everywhere t"
    by (auto simp: getConnectionForServer_def Let_def ret_def split: option.splits if_splits)
qed

lemma tries: "keeping everywhere (tryCandidates env cs tried)"
  by (induction env cs tried rule: tryCandidates.induct)
    (simp_all only: tryCandidates.simps Let_def, (intro obeys_basic obeys_catch [where T' = "\<lambda>_. everywhere"] obeys_bind acquires; simp)+)

lemma selects: "keeping everywhere (selectServerForKey env key ctx)" "keeping everywhere (selectAnyServer env ctx)"
proof -
  have b: "keeping everywhere (bindM (tryCandidates env cs []) (\<lambda>(conn, tried). case conn of Some a \<Rightarrow> ret (a, tried) | None \<Rightarrow> throw (x tried)))" for cs x
    by (intro obeys_bind tries) (auto intro!: obeys_basic split: option.splits prod.splits)
  show "keeping everywhere (selectServerForKey env key ctx)"
  proof (rule keepingI)
    fix s r t assume "everywhere s" "selectServerForKey env key ctx s = (r, t)" "r \<noteq> Block" "r \<noteq> UB"
    then show "everywhere t" using keepingD [OF b] by (cases "routesByHash s key") (auto simp: selectServerForKey_routed selectServerForKey_seed)
  qed
  show "keeping everywhere (selectAnyServer env ctx)"
  proof (rule keepingI)
    fix s r t assume "everywhere s" "selectAnyServer env ctx s = (r, t)" "r \<noteq> Block" "r \<noteq> UB"
    then show "everywhere t" using keepingD [OF b] by (auto simp: selectAnyServer_def Let_def ret_def split: if_splits)
  qed
qed

lemma submits: "cl_bodyParser call = parserOf opn \<Longrightarrow> keeping everywhere (submit conn call result)"
  unfolding submit_def
  by (intro obeys_bind objects executes) (auto simp: obeys_def ret_def everywhere_def)

lemma asks: "keeping everywhere (keyed env key ctx body opc ex (parserOf opn) fl result)" "keeping everywhere (pingImpl env ctx)"
proof -
  show "keeping everywhere (keyed env key ctx body opc ex (parserOf opn) fl result)" unfolding keyed_def
    by (intro obeys_bind selects obeys_prod) (rule obeys_at, rule submits [where opn = opn], simp)
  show "keeping everywhere (pingImpl env ctx)" unfolding pingImpl_def
    by (intro obeys_bind selects obeys_prod) (rule obeys_at, rule submits [where opn = Ping], simp)
qed

lemma invokes: "keeping everywhere (invoke env ctx previous call)"
proof -
  have m: "keeping everywhere f \<Longrightarrow> keeping everywhere (mapResult g f)" for f :: "'x client" and g :: "'x \<Rightarrow> AnyFuture"
    unfolding mapResult_def by (intro obeys_bind obeys_basic)
  note k = asks(1) [where opn = Get, unfolded parserOf.simps] asks(1) [where opn = GetWithMetadata, unfolded parserOf.simps]
    asks(1) [where opn = ContainsKey, unfolded parserOf.simps] asks(1) [where opn = Put, unfolded parserOf.simps]
    asks(1) [where opn = PutIfAbsent, unfolded parserOf.simps] asks(1) [where opn = Replace, unfolded parserOf.simps]
    asks(1) [where opn = Remove, unfolded parserOf.simps] asks(1) [where opn = RemoveWithVersion, unfolded parserOf.simps]
    asks(1) [where opn = ReplaceWithVersion, unfolded parserOf.simps]
  show ?thesis
    by (cases "(env, ctx, previous, call)" rule: invoke.cases) (auto simp: impl_defs intro!: m k asks(2))
qed

lemma consumes: "consume f s = (r, t) \<Longrightarrow> everywhere s \<Longrightarrow> everywhere t"
proof -
  have g: "futureGet h s = (q, u) \<Longrightarrow> everywhere s \<Longrightarrow> everywhere u" for h :: "'x Future" and q u
  proof -
    have "everywhere s \<Longrightarrow> everywhere (release (s\<lparr>rc_held := x\<rparr>) a)" for x a by (rule releases) (simp add: everywhere_def)
    then show "futureGet h s = (q, u) \<Longrightarrow> everywhere s \<Longrightarrow> everywhere u" by (auto simp: futureGet_def split: option.splits)
  qed
  show "consume f s = (r, t) \<Longrightarrow> everywhere s \<Longrightarrow> everywhere t"
    by (cases f) (auto simp: mapResult_def bindM_def ret_def split: prod.splits outcome.splits dest: g)
qed

lemma running_everywhere: "running env ap \<Longrightarrow> everywhere (ap_cache ap)"
proof (induction rule: running.induct)
  case (created host port name)
  show ?case by (simp add: everywhere_def newRemoteCache_def new)
next
  case (goes_on ap ap')
  from goes_on.hyps(2) goes_on.IH show ?case
  proof (induction rule: happens.induct)
    case (configured h ap)
    then show ?case using configuring_frame [of h "ap_cache ap"] by (simp add: everywhere_def)
  next
    case (connecting ap r s)
    with keepingD [OF connectsObject] show ?case by (auto simp: cacheConnect_def)
  next
    case (disconnecting busy ap r s)
    with keepingD [OF threads [OF closes]] show ?case by (auto simp: cacheDisconnect_def)
  next
    case (receiving a ap r s)
    with keepingD [OF threads [OF iterates]] show ?case by (auto simp: clientRead_def)
  next
    case (invoked ctx previous call ap f s)
    with keepingD [OF invokes] show ?case by fastforce
  next
    case (failed ctx previous call ap e s)
    with keepingD [OF invokes] show ?case by fastforce
  next
    case (consumed ap fs f gs r s)
    with consumes show ?case by fastforce
  next
    case (abandoned ap fs f gs)
    then show ?case by (simp add: abandon_def) (rule releases, simp add: everywhere_def)
  qed
qed

end

section \<open>Connections that can be closed\<close>

text \<open>
  A connection that is up has a socket, and waits only for answers to operations of the client; its topology updates go to the cache.
\<close>

definition socketed :: "Connection \<Rightarrow> bool" where
  "socketed c \<longleftrightarrow> (cn_connected c \<longrightarrow> cn_socket c)"

definition wired :: "MultiplexedConnection \<Rightarrow> bool" where
  "wired m \<longleftrightarrow> mx_hasCallback m \<and> (\<forall>c. mx_connection m = Some c \<longrightarrow> socketed c) \<and> (\<forall>(i, p) \<in> set (mx_pending m). \<exists>opn. pr_bodyParser p = parserOf opn)"

interpretation sockets: talking socketed
  by unfold_locales
    (auto simp: keeping_iff receive_def send_def throw_def socketed_def split: prod.splits if_splits)

lemma wired_cong:
  "wired m \<Longrightarrow> mx_connection m' = mx_connection m \<Longrightarrow> mx_hasCallback m' = mx_hasCallback m \<Longrightarrow> set (mx_pending m') \<subseteq> set (mx_pending m) \<Longrightarrow> wired m'"
  unfolding wired_def by fastforce

lemma wired_connection: "wired m \<Longrightarrow> socketed c \<Longrightarrow> wired (m\<lparr>mx_connection := Some c\<rparr>)"
  unfolding wired_def by auto

lemma wired_fields [simp]:
  "wired (m\<lparr>mx_stopReadLoop := x\<rparr>) = wired m" "wired (m\<lparr>mx_readThread := y, mx_joinable := z\<rparr>) = wired m"
  "wired (m\<lparr>mx_connected := u\<rparr>) = wired m" "wired (m\<lparr>mx_readThread := y\<rparr>) = wired m"
  "wired (m\<lparr>mx_connected := u, mx_stopReadLoop := x\<rparr>) = wired m"
  by (simp_all add: wired_def)

lemma wired_onMux:
  assumes "keeping socketed f"
  shows "keeping wired (onMux f)"
proof (rule keepingI)
  fix m r t assume m: "wired m" and o: "onMux f m = (r, t)" and r: "r \<noteq> Block" "r \<noteq> UB"
  from o r(2) obtain c d where "mx_connection m = Some c" "f c = (r, d)" "t = m\<lparr>mx_connection := Some d\<rparr>"
    by (auto simp: onMux_def split: option.splits prod.splits)
  moreover from this(1) m have "socketed c" by (simp add: wired_def)
  with calculation(2) keepingD [OF assms] r have "socketed d" by blast
  ultimately show "wired t" using wired_connection [OF m] by simp
qed

lemma wired_modifyM: "(\<And>m. wired m \<Longrightarrow> wired (f m)) \<Longrightarrow> keeping wired (modifyM f)"
  by (rule keepingI) (auto simp: modifyM_def)

lemma wired_dispatch: "keeping wired (dispatch st err)"
proof (rule keepingI)
  fix m r t assume m: "wired m" and d: "dispatch st err m = (r, t)" and r: "r \<noteq> Block" "r \<noteq> UB"
  show "wired t"
  proof (cases "map_of (mx_pending m) (st_messageId st)")
    case None
    with d m show ?thesis by (simp add: dispatch_def ret_def)
  next
    case (Some p)
    from map_of_SomeD [OF Some] m obtain opn where "pr_bodyParser p = parserOf opn" by (fastforce simp: wired_def)
    then have k: "keeping wired (onMux (pr_bodyParser p (st_status st) (mx_protocolVersion m) (pr_flags p)))"
      using wired_onMux [OF sockets.bodies] by simp
    have tk: "wired (taken st p m)" using m by (rule wired_cong) (auto simp: taken_def eraseEntry_def split: option.splits)
    have sv: "wired (setValue a b n) \<longleftrightarrow> wired n" for a b n by (simp add: wired_def setValue_def)
    from d r tk keepingD [OF k tk] show ?thesis unfolding dispatch_taken [OF Some]
      by (auto simp: ret_def sv split: option.splits prod.splits outcome.splits if_splits)
  qed
qed

lemma wired_readOne: "keeping wired readOne"
proof -
  have top: "wired (case t of Some t \<Rightarrow> m\<lparr>mx_topologyId := ti_topologyId t\<rparr> | None \<Rightarrow> m)" if "wired m" for m t
    using that by (rule wired_cong) (auto split: option.splits)
  note i = obeys_bind wired_onMux sockets.receives sockets.starts sockets.reads wired_modifyM top obeys_if obeys_if_at obeys_basic wired_dispatch
  have e: "keeping wired (\<lambda>m. throw e m)" for e by (simp add: obeys_def throw_def)
  have rest: "keeping wired (\<lambda>m. bindM (onMux (receiveResponseStart (mx_clientIntelligence m))) k m)" if "\<And>st. keeping wired (k st)" for k :: "ResponseStart \<Rightarrow> unit mux"
    by (rule obeys_at) (intro obeys_bind wired_onMux sockets.starts that)
  show ?thesis unfolding readOne_def
    by (intro obeys_bind [of wired _ _ "onMux (receive 1)"] wired_onMux sockets.receives obeys_if_at e rest i) auto
qed

lemma wired_closeAllPending: "wired m \<Longrightarrow> wired (closeAllPending msg m)"
  by (simp add: wired_def closeAllPending_eq)

lemma wired_readIteration: "keeping wired readIteration"
proof (rule keepingI)
  fix m r t assume m: "wired m" and it: "readIteration m = (r, t)" and r: "r \<noteq> Block" "r \<noteq> UB"
  obtain q n where o: "readOne m = (q, n)" by (cases "readOne m")
  with it r have q: "q \<noteq> Block" "q \<noteq> UB" by (auto simp: readIteration_def)
  have n: "wired n" by (rule keepingD [OF wired_readOne m o q])
  then have "wired ((closeAllPending w (if b then n\<lparr>mx_connected := False\<rparr> else n))\<lparr>mx_readThread := False\<rparr>)" for w b
    by (simp add: wired_def closeAllPending_eq)
  with it o q n show "wired t" by (cases q) (auto simp: readIteration_def)
qed

lemma wired_close: "keeping wired (muxClose busy)"
proof -
  have s: "wired (m\<lparr>mx_connection := map_option shutdown (mx_connection m)\<rparr>)" "wired (m\<lparr>mx_connection := map_option close (mx_connection m)\<rparr>)"
    if "wired m" for m
  proof -
    have "socketed c \<Longrightarrow> socketed (shutdown c)" "socketed c \<Longrightarrow> socketed (close c)" for c
      by (simp_all add: socketed_def shutdown_def close_def)
    then show "wired (m\<lparr>mx_connection := map_option shutdown (mx_connection m)\<rparr>)" "wired (m\<lparr>mx_connection := map_option close (mx_connection m)\<rparr>)"
      using that unfolding wired_def by fastforce+
  qed
  have r: "keeping wired (\<lambda>m. if mx_readThread m \<and> busy then readIteration m else ret False m)"
    using wired_readIteration by (simp add: obeys_def ret_def)
  show ?thesis unfolding muxClose_def
    by (intro obeys_bind wired_modifyM r) (auto intro: s wired_closeAllPending)
qed

lemma socketed_connect: "keeping socketed (connect resolved)"
proof -
  have "\<not> cn_connected c \<Longrightarrow> socketed (tryAddresses as c)" for as c
    by (induction as c rule: tryAddresses.induct) (auto simp: socketed_def)
  then show ?thesis by (auto simp: keeping_iff connect_def throw_def ret_def Let_def split: if_splits sum.splits)
qed

lemma wired_connect: "keeping wired (muxConnect cr net)"
proof -
  have a: "keeping wired (muxAuthenticate cr)"
  proof (rule keepingI)
    fix m r t assume m: "wired m" and h: "muxAuthenticate cr m = (r, t)" and r: "r \<noteq> Block" "r \<noteq> UB"
    show "wired t"
    proof (cases "au_enabled (mx_auth m)")
      case True
      with h r obtain c where c: "mx_connection m = Some c" by (auto simp: muxAuthenticate_def split: option.splits)
      let ?run = "authenticate cr (mx_auth m) (mx_host m) (mx_port m) connectionSaslTransport
          (newConnectionSaslTransport c (mx_protocolVersion m) (mx_clientIntelligence m) (mx_host m) (mx_port m))"
      obtain q u where q: "?run = (q, u)" by (cases ?run)
      have "socketed (sc_conn (newConnectionSaslTransport c (mx_protocolVersion m) (mx_clientIntelligence m) (mx_host m) (mx_port m)))"
        using m c by (simp add: wired_def newConnectionSaslTransport_def)
      from obeysD(1) [OF sockets.handshakes this] q have "q = Ok x \<Longrightarrow> socketed (sc_conn u)" for x by blast
      moreover have "wired (m\<lparr>mx_connection := None\<rparr>)" using m by (simp add: wired_def)
      ultimately show ?thesis using True h r q c wired_connection [OF m] by (cases q) (auto simp: muxAuthenticate_def)
    qed (use h m in \<open>simp add: muxAuthenticate_def ret_def\<close>)
  qed
  have n: "wired m \<Longrightarrow> wired (m\<lparr>mx_connection := Some (newConnection h p inc sc)\<rparr>)" for m h p inc sc
    by (simp add: wired_def socketed_def newConnection_def)
  have j: "keeping wired (\<lambda>m. if mx_joinable m then (UB, m) else modifyM (\<lambda>m. m\<lparr>mx_readThread := True, mx_joinable := True\<rparr>) m)"
    by (auto simp: keeping_iff modifyM_def wired_def)
  have "keeping wired (bindM (modifyM (\<lambda>m. m\<lparr>mx_connection :=
              Some (newConnection (mx_host m) (mx_port m) (nw_incoming net) (nw_sendScript net))\<rparr>)) (\<lambda>_.
          bindM (onMux (connect (nw_resolved net))) (\<lambda>_.
          bindM (muxAuthenticate cr) (\<lambda>_.
          bindM (modifyM (\<lambda>m. m\<lparr>mx_connected := True, mx_stopReadLoop := False\<rparr>)) (\<lambda>_ m.
          if mx_joinable m then (UB, m)
          else modifyM (\<lambda>m. m\<lparr>mx_readThread := True, mx_joinable := True\<rparr>) m)))))"
    by (intro obeys_bind wired_modifyM wired_onMux socketed_connect a j n) (auto simp: wired_def)
  then show ?thesis by (simp add: muxConnect_def obeys_def throw_def)
qed

lemma wired_execute:
  assumes "cl_bodyParser call = parserOf opn"
  shows "keeping wired (execute call)"
proof -
  have s: "keeping wired (executeSend call i)" for i
  proof -
    have e: "wired (m\<lparr>mx_pending := eraseEntry i (mx_pending m)\<rparr>)" if "wired m" for m
      using that by (rule wired_cong) (auto simp: eraseEntry_def)
    have th: "keeping wired (\<lambda>m. throw (x m) m)" for x by (simp add: obeys_def throw_def)
    have "keeping wired (\<lambda>m. executeSend call i m)" unfolding executeSend_def Let_def
      by (rule obeys_at, rule obeys_catch [OF wired_onMux [OF sockets.sends]], assumption) (intro obeys_bind wired_modifyM e th)
    then show ?thesis by simp
  qed
  have r: "keeping wired (executeRegister call)"
    using assms by (auto simp: keeping_iff executeRegister_def Let_def ret_def wired_def eraseEntry_def)
  have c: "keeping wired executeCheck" by (simp add: obeys_def executeCheck_def throw_def ret_def)
  have "keeping wired (bindM (executeRegister call) (\<lambda>i. bindM (executeSend call i) (\<lambda>_. ret t)))" for t :: nat
    by (intro obeys_bind r s obeys_basic)
  then show ?thesis unfolding execute_def Let_def by (intro obeys_bind c) (rule obeys_at)
qed

interpretation wiring: connection_invariant wired
proof unfold_locales
  show "wired (newMultiplexedConnection host port True)" for host port by (simp add: wired_def newMultiplexedConnection_def)
  show "keeping wired (setProtocolVersion v)" "keeping wired (setClientIntelligence i)" "keeping wired (setAuthentication au)" for v i au
    by (simp_all add: obeys_def wired_def setProtocolVersion_def setClientIntelligence_def setAuthentication_def throw_def ret_def)
qed (rule wired_connect wired_execute wired_readIteration wired_close; assumption)+

section \<open>Disconnecting\<close>

lemma wired_close_returns:
  assumes "wired m"
  shows "fst (muxClose busy m) = Ok () \<or> fst (muxClose busy m) = UB \<and> busy"
  using close_returns [of m busy] assms by (auto simp: wired_def socketed_def)

text \<open>Updates delivered by the seed's read thread keep the seed and the connections futures hold.\<close>

lemma deliver_seed:
  "rc_store s (rc_connection s) \<noteq> None \<Longrightarrow>
    \<exists>t. deliver (rc_connection s) cbs s = (Ok (), t) \<and> rc_connection t = rc_connection s \<and> rc_held t = rc_held s \<and>
      (\<forall>a \<in> insert (rc_connection s) (set (rc_held s)). rc_store t a = rc_store s a)"
proof (induction cbs arbitrary: s)
  case Nil
  then show ?case by (simp add: ret_def)
next
  case (Cons cb cbs)
  obtain topo name where cb: "cb = (topo, name)" by (cases cb)
  obtain r u where h: "handleTopologyUpdate (rc_connection s) topo name s = (r, u)" by (cases "handleTopologyUpdate (rc_connection s) topo name s")
  have c: "rc_connection u = rc_connection s" "rc_held u = rc_held s" using handleTopologyUpdate_frame [OF h] by (auto simp: rerouted_def)
  have "referenced (rerouted topo s) a" if "a \<in> insert (rc_connection s) (set (rc_held s))" for a
    using that by (auto simp: rerouted_def referenced_def)
  then have "\<forall>a \<in> insert (rc_connection s) (set (rc_held s)). rc_store u a = rc_store s a" "r = Ok ()"
    using h Cons.prems by (auto simp: handleTopologyUpdate_eq Let_def store_releases rerouted_def simp del: set_map)
  moreover from this Cons.IH [of u] Cons.prems c obtain t where "deliver (rc_connection s) cbs u = (Ok (), t)"
    "rc_connection t = rc_connection s" "rc_held t = rc_held s" "\<forall>a \<in> insert (rc_connection s) (set (rc_held s)). rc_store t a = rc_store u a"
    by auto
  ultimately show ?case using h by (simp add: cb bindM_def)
qed

lemma running_wired: "running env ap \<Longrightarrow> wiring.everywhere (ap_cache ap)"
  by (rule wiring.running_everywhere)

lemma disconnect_outcome:
  assumes "running env ap"
  obtains r s where "cacheDisconnect busy (ap_cache ap) = (r, s)"
    "r = UB \<and> busy \<or> r = Ok () \<and> (\<exists>m. rc_store s (rc_connection s) = Some m \<and> mx_pending m = [] \<and> \<not> mx_connected m \<and> \<not> mx_readThread m)"
    "rc_connection s = rc_connection (ap_cache ap)"
    "\<And>a. a \<in> set (rc_held (ap_cache ap)) \<Longrightarrow> a \<noteq> rc_connection s \<Longrightarrow> rc_store s a = rc_store (ap_cache ap) a"
proof -
  let ?s = "ap_cache ap"
  have "cache_inv ?s" using running_inv [OF assms] by (simp add: app_inv_def)
  then obtain m where m: "rc_store ?s (rc_connection ?s) = Some m" using cache_inv_alive [of "{}" ?s "rc_connection ?s"] by (auto simp: referenced_def)
  with running_wired [OF assms] have w: "wired m" by (simp add: wiring.everywhere_def)
  obtain q m' where q: "muxClose busy m = (q, m')" by (cases "muxClose busy m")
  let ?t = "?s\<lparr>rc_store := (rc_store ?s)(rc_connection ?s \<mapsto> m')\<rparr>"
  obtain u where u: "deliver (rc_connection ?s) (drop (length (mx_callbacks m)) (mx_callbacks m')) ?t = (Ok (), u)"
    "rc_connection u = rc_connection ?s" "\<forall>a \<in> insert (rc_connection ?s) (set (rc_held ?s)). rc_store u a = rc_store ?t a"
    using deliver_seed [of ?t "drop (length (mx_callbacks m)) (mx_callbacks m')"] by auto
  have "cacheDisconnect busy ?s = (q, u)"
    using m q u(1) by (simp add: cacheDisconnect_def onReadThread_def bindM_def)
  moreover have "q = UB \<and> busy \<or> q = Ok () \<and> (\<exists>m. rc_store u (rc_connection u) = Some m \<and> mx_pending m = [] \<and> \<not> mx_connected m \<and> \<not> mx_readThread m)"
    using wired_close_returns [OF w, of busy] q u(2,3) answers_muxClose [of busy m m'] by auto
  ultimately show thesis using that u(2,3) by simp
qed

section \<open>The end of a cache\<close>

text \<open>
  What the destructor of the class leaves to the compiler: the members are destroyed in reverse order, the pool
  before the seed. A connection object goes, and closes itself, when its last owner does; a future is an owner
  (\<open>rc_held\<close>). \<open>busy a\<close>: the read thread of a is in an iteration. If that delivers a topology to the cache, it
  changes members that are being destroyed.
\<close>

definition endConnection :: "(nat \<Rightarrow> bool) \<Rightarrow> nat \<Rightarrow> unit client" where
  "endConnection busy a = (\<lambda>s.
     if a \<in> set (rc_held s) then (Ok (), s)
     else case rc_store s a of
       None \<Rightarrow> (UB, s)
     | Some m \<Rightarrow> (case muxClose (busy a) m of
         (Ok u, m') \<Rightarrow> if mx_callbacks m' = mx_callbacks m then (Ok (), s\<lparr>rc_store := (rc_store s)(a := None)\<rparr>) else (UB, s)
       | (Throw e, m') \<Rightarrow> (UB, s)
       | (Block, m') \<Rightarrow> (Block, s)
       | (UB, m') \<Rightarrow> (UB, s)))"

fun endConnections :: "(nat \<Rightarrow> bool) \<Rightarrow> nat list \<Rightarrow> unit client" where
  "endConnections busy [] = ret ()"
| "endConnections busy (a # as) = bindM (endConnection busy a) (\<lambda>_. endConnections busy as)"

definition endRemoteCache :: "(nat \<Rightarrow> bool) \<Rightarrow> unit client" where
  "endRemoteCache busy = (\<lambda>s.
     bindM (destroyRemoteCache (busy (rc_connection s))) (\<lambda>_ s.
       endConnections busy (map snd (rc_pool s) @ [rc_connection s]) s) s)"

text \<open>
  A read thread while the cache is \<open>alive\<close> and after its end. The lambda that the constructor and getConnectionForServer
  hand to a connection has captured \<open>this\<close>, the address of the cache; a call of one of its member functions after
  its end is undefined behaviour. \<open>readLoop\<close> is one turn of the loop, with its test.
\<close>

definition topologyCallback :: "bool \<Rightarrow> nat \<Rightarrow> TopologyInfo \<Rightarrow> string \<Rightarrow> unit client" where
  "topologyCallback alive self topo cacheName =
     (if alive then handleTopologyUpdate self topo cacheName else (\<lambda>s. (UB, s)))"

fun notify :: "bool \<Rightarrow> nat \<Rightarrow> (TopologyInfo \<times> string) list \<Rightarrow> unit client" where
  "notify alive self [] = ret ()"
| "notify alive self ((topo, cacheName) # rest) =
     bindM (topologyCallback alive self topo cacheName) (\<lambda>_. notify alive self rest)"

definition looping :: "MultiplexedConnection \<Rightarrow> bool" where
  "looping m \<longleftrightarrow> mx_readThread m \<and> \<not> mx_stopReadLoop m \<and> mx_connected m"

definition readLoop :: "bool \<Rightarrow> nat \<Rightarrow> bool client" where
  "readLoop alive a = (\<lambda>s. case rc_store s a of
      None \<Rightarrow> (UB, s)
    | Some m \<Rightarrow>
        if looping m
        then (case readIteration m of (r, m') \<Rightarrow>
          bindM (notify alive a (drop (length (mx_callbacks m)) (mx_callbacks m'))) (\<lambda>_ s. (r, s))
            (s\<lparr>rc_store := (rc_store s)(a \<mapsto> m')\<rparr>))
        else (Ok False, s))"

lemma notify_alive: "notify True self cbs = deliver self cbs"
  by (induction cbs) (auto simp: topologyCallback_def)

lemma readLoop_alive: "rc_store s a = Some m \<Longrightarrow> looping m \<Longrightarrow> readLoop True a s = clientRead a s"
  by (simp add: readLoop_def clientRead_def onReadThread_def notify_alive)

lemma muxClose_idle_callbacks: "fst (muxClose busy m) = Ok () \<Longrightarrow> \<not> busy \<Longrightarrow> mx_callbacks (snd (muxClose busy m)) = mx_callbacks m"
  by (auto simp: muxClose_def bindM_def modifyM_def ret_def closeAllPending_eq)

lemma endConnection_outcome:
  assumes "rc_store s a = Some m" and "wired m"
  shows "endConnection busy a s = (UB, s) \<and> busy a \<or>
    endConnection busy a s = (Ok (), if a \<in> set (rc_held s) then s else s\<lparr>rc_store := (rc_store s)(a := None)\<rparr>)"
proof -
  obtain q m' where q: "muxClose (busy a) m = (q, m')" by (cases "muxClose (busy a) m")
  have "q = Ok () \<and> (\<not> busy a \<longrightarrow> mx_callbacks m' = mx_callbacks m) \<or> q = UB \<and> busy a"
    using wired_close_returns [OF assms(2), of "busy a"] muxClose_idle_callbacks [of "busy a" m] q by auto
  with assms(1) q show ?thesis by (auto simp: endConnection_def)
qed

lemma endConnections_outcome:
  assumes "\<forall>a m. rc_store s a = Some m \<longrightarrow> wired m" and "set as \<subseteq> dom (rc_store s)" and "distinct as"
  shows "\<exists>r t. endConnections busy as s = (r, t) \<and>
    (r = UB \<and> (\<exists>a. busy a) \<or> r = Ok () \<and> t = s\<lparr>rc_store := rc_store s |` (- (set as - set (rc_held s)))\<rparr>)"
  using assms
proof (induction as arbitrary: s)
  case Nil
  then show ?case by (simp add: ret_def)
next
  case (Cons a as)
  let ?s = "if a \<in> set (rc_held s) then s else s\<lparr>rc_store := (rc_store s)(a := None)\<rparr>"
  obtain m where m: "rc_store s a = Some m" using Cons.prems(2) by auto
  with Cons.prems(1) endConnection_outcome [of s a m busy] consider
    "endConnection busy a s = (UB, s)" "busy a" | "endConnection busy a s = (Ok (), ?s)" by blast
  then show ?case
  proof cases
    case 1
    then show ?thesis by (auto simp: bindM_def)
  next
    case 2
    have "\<forall>b m. rc_store ?s b = Some m \<longrightarrow> wired m" using Cons.prems(1) by simp
    moreover have "set as \<subseteq> dom (rc_store ?s)" using Cons.prems(2,3) by auto
    moreover have "distinct as" using Cons.prems(3) by simp
    ultimately obtain r t where rt: "endConnections busy as ?s = (r, t)"
      "r = UB \<and> (\<exists>a. busy a) \<or> r = Ok () \<and> t = ?s\<lparr>rc_store := rc_store ?s |` (- (set as - set (rc_held ?s)))\<rparr>"
      using Cons.IH [of ?s] by blast
    have "?s\<lparr>rc_store := rc_store ?s |` (- (set as - set (rc_held ?s)))\<rparr> = s\<lparr>rc_store := rc_store s |` (- (set (a # as) - set (rc_held s)))\<rparr>"
      by (auto simp: restrict_map_def fun_eq_iff)
    moreover have "endConnections busy (a # as) s = (r, t)" using 2 rt(1) by (simp add: bindM_def del: if_split)
    ultimately show ?thesis using rt(2) by metis
  qed
qed

lemma pool_addresses:
  assumes "cache_inv s"
  shows "distinct (map snd (rc_pool s) @ [rc_connection s])"
proof -
  have k: "\<exists>m. rc_store s a = Some m \<and> k = poolKey (mx_host m) (mx_port m)" "a \<noteq> rc_connection s" if "(k, a) \<in> set (rc_pool s)" for k a
    using assms that by (auto simp: almost_def pooled_def)
  have "x = y" if "x \<in> set (rc_pool s)" "y \<in> set (rc_pool s)" "snd x = snd y" for x y
    using k(1) [of "fst x" "snd x"] k(1) [of "fst y" "snd y"] that by (cases x; cases y) auto
  then have "inj_on snd (set (rc_pool s))" by (simp add: inj_on_def)
  moreover have "distinct (rc_pool s)" using assms by (auto simp: almost_def pooled_def distinct_map)
  ultimately show ?thesis using k(2) by (force simp: distinct_map)
qed

lemma referenced_iff: "referenced s a \<longleftrightarrow> a \<in> set (map snd (rc_pool s) @ [rc_connection s]) \<union> set (rc_held s)"
  by (auto simp: referenced_def)

text \<open>What the destructor's own close leaves, before the members go.\<close>

lemma destroy_outcome:
  assumes "running env ap"
  obtains r s where "destroyRemoteCache busy (ap_cache ap) = (r, s)"
    "r = UB \<and> busy \<or> r = Ok () \<and> running env (ap\<lparr>ap_cache := s\<rparr>)"
    "rc_connection s = rc_connection (ap_cache ap)"
    "\<And>a. a \<in> set (rc_held (ap_cache ap)) \<Longrightarrow> a \<noteq> rc_connection s \<Longrightarrow> rc_store s a = rc_store (ap_cache ap) a"
proof (cases "isConnected (ap_cache ap)")
  case True
  then have d: "destroyRemoteCache busy (ap_cache ap) = cacheDisconnect busy (ap_cache ap)" by (simp add: destroyRemoteCache_def)
  obtain r s where c: "cacheDisconnect busy (ap_cache ap) = (r, s)" "r = UB \<and> busy \<or> r = Ok ()" "rc_connection s = rc_connection (ap_cache ap)"
    "\<And>a. a \<in> set (rc_held (ap_cache ap)) \<Longrightarrow> a \<noteq> rc_connection s \<Longrightarrow> rc_store s a = rc_store (ap_cache ap) a"
    by (rule disconnect_outcome [OF assms, of busy]) blast
  moreover have "r = Ok () \<Longrightarrow> running env (ap\<lparr>ap_cache := s\<rparr>)"
    using assms c(1) by (blast intro: running.goes_on happens.disconnecting)
  ultimately show thesis using that [of r s] d by auto
next
  case False
  with assms that [of "Ok ()" "ap_cache ap"] show thesis by (simp add: destroyRemoteCache_def ret_def)
qed

lemma endRemoteCache_outcome:
  assumes "running env ap"
  obtains r s where "endRemoteCache busy (ap_cache ap) = (r, s)"
    "r = UB \<and> (\<exists>a. busy a) \<or> r = Ok () \<and> dom (rc_store s) = anyConn ` set (ap_futures ap) \<and>
      (\<forall>a \<in> anyConn ` set (ap_futures ap). a \<noteq> rc_connection (ap_cache ap) \<longrightarrow> rc_store s a = rc_store (ap_cache ap) a)"
proof -
  let ?b = "busy (rc_connection (ap_cache ap))"
  have held: "set (rc_held u) = anyConn ` set (ap_futures ap)" if "app_inv (ap\<lparr>ap_cache := u\<rparr>)" for u
  proof -
    have "mset (rc_held u) = mset (map anyConn (ap_futures ap))" using that by (simp add: app_inv_def)
    from arg_cong [OF this, of set_mset] show ?thesis by simp
  qed
  obtain r s where d: "destroyRemoteCache ?b (ap_cache ap) = (r, s)" and r: "r = UB \<and> ?b \<or> r = Ok () \<and> running env (ap\<lparr>ap_cache := s\<rparr>)"
    and c: "rc_connection s = rc_connection (ap_cache ap)"
    and o: "\<And>a. a \<in> set (rc_held (ap_cache ap)) \<Longrightarrow> a \<noteq> rc_connection s \<Longrightarrow> rc_store s a = rc_store (ap_cache ap) a"
    by (rule destroy_outcome [OF assms, of ?b]) blast
  from r show thesis
  proof (elim disjE conjE)
    assume "r = UB" "?b"
    with d that [of UB s] show thesis by (auto simp: endRemoteCache_def bindM_def)
  next
    assume r: "r = Ok ()" and run: "running env (ap\<lparr>ap_cache := s\<rparr>)"
    let ?as = "map snd (rc_pool s) @ [rc_connection s]"
    from running_inv [OF run] have inv: "app_inv (ap\<lparr>ap_cache := s\<rparr>)" and i: "cache_inv s" by (simp_all add: app_inv_def)
    have h: "set (rc_held (ap_cache ap)) = set (rc_held s)" using held [OF inv] held [of "ap_cache ap"] running_inv [OF assms] by simp
    have dom: "dom (rc_store s) = set ?as \<union> set (rc_held s)" using i by (auto simp: almost_def referenced_iff)
    have e: "endRemoteCache busy (ap_cache ap) = endConnections busy ?as s" using d r by (simp add: endRemoteCache_def bindM_def)
    have left: "dom (rc_store s |` (- (set ?as - set (rc_held s)))) = set (rc_held s)" using dom by (auto simp: dom_restrict)
    obtain q t where q: "endConnections busy ?as s = (q, t)"
      "q = UB \<and> (\<exists>a. busy a) \<or> q = Ok () \<and> t = s\<lparr>rc_store := rc_store s |` (- (set ?as - set (rc_held s)))\<rparr>"
      using endConnections_outcome [of s ?as busy] running_wired [OF run] dom pool_addresses [OF i]
      by (auto simp: wiring.everywhere_def simp del: set_append set_map map_append)
    have "q = Ok () \<Longrightarrow> a \<in> set (rc_held s) \<Longrightarrow> a \<noteq> rc_connection (ap_cache ap) \<Longrightarrow> rc_store t a = rc_store (ap_cache ap) a" for a
      using q(2) o [of a] c h by auto
    with that [of q t] e q left held [OF inv] show thesis by auto
  qed
qed

text \<open>The seed's answer to a first ping announces the server b; a second ping goes to b, whose answer announces yet another topology.\<close>

definition announcing :: "VInt \<Rightarrow> Update" where
  "announcing n = \<lparr>up_topologyId = n, up_addresses = [\<lparr>sa_host = ''b'', sa_port = 2\<rparr>], up_hashVersion = 3, up_owners = []\<rparr>"

definition pingEnv :: Environment where
  "pingEnv = \<lparr>en_crypto = letterCrypto, en_network = (\<lambda>host port attempt.
     \<lparr>nw_resolved = Inr [Immediate], nw_incoming = [RecvData (encodeResponseStart TOPOLOGY_AWARE 0 0x18 0 (Some (announcing (if host = ''a'' then 2 else 3))) @ encodePing NoType NoType 41 [])],
      nw_sendScript = [SendAccepts 100]\<rparr>)\<rparr>"

definition outlivingCache :: RemoteCache where
  "outlivingCache = snd (bindM (cacheConnect pingEnv) (\<lambda>_. bindM (invoke pingEnv noExclusions False PingCall) (\<lambda>_. bindM (clientRead 0) (\<lambda>_.
     invoke pingEnv noExclusions False PingCall))) (cacheSetClientIntelligence TOPOLOGY_AWARE (newRemoteCache ''a'' 1 ''c'')))"

lemma outliving_values:
  "fst (bindM (cacheConnect pingEnv) (\<lambda>_. bindM (invoke pingEnv noExclusions False PingCall) (\<lambda>f. bindM (clientRead 0) (\<lambda>b.
     bindM (invoke pingEnv noExclusions False PingCall) (\<lambda>g s. (Ok (anyConn f, b, anyConn g, rc_connection s,
       map_option (\<lambda>m. (looping m, mx_clientIntelligence m, mx_nextMessageId m, map_option (\<lambda>c. (cn_connected c, avail c)) (mx_connection m)))
         (rc_store s 1)), s)))))
     (cacheSetClientIntelligence TOPOLOGY_AWARE (newRemoteCache ''a'' 1 ''c''))) =
   Ok (0, True, 1, 0, Some (True, TOPOLOGY_AWARE, 1, Some (True, encodeResponseStart TOPOLOGY_AWARE 0 0x18 0 (Some (announcing 3)) @ encodePing NoType NoType 41 [])))"
  by code_simp

lemma running_steps:
  assumes "running env \<lparr>ap_cache = s, ap_futures = fs\<rparr>"
  shows "configuring h \<Longrightarrow> running env \<lparr>ap_cache = h s, ap_futures = fs\<rparr>"
    and "cacheConnect env s = (Ok u, t) \<Longrightarrow> running env \<lparr>ap_cache = t, ap_futures = fs\<rparr>"
    and "clientRead a s = (Ok b, t) \<Longrightarrow> running env \<lparr>ap_cache = t, ap_futures = fs\<rparr>"
    and "invoke env ctx previous call s = (Ok f, t) \<Longrightarrow> running env \<lparr>ap_cache = t, ap_futures = fs @ [f]\<rparr>"
  using goes_on [OF assms, OF configured] goes_on [OF assms, OF connecting] goes_on [OF assms, OF receiving] goes_on [OF assms, OF invoked]
  by simp_all

lemma fst_eqE: "fst p = x \<Longrightarrow> (\<And>y. p = (x, y) \<Longrightarrow> R) \<Longrightarrow> R"
  by (cases p) simp

lemma outliving_run:
  obtains f g m c p where "running pingEnv \<lparr>ap_cache = outlivingCache, ap_futures = [f, g]\<rparr>" "anyConn f = 0" "anyConn g = 1"
    "rc_connection outlivingCache = 0" "rc_store outlivingCache 1 = Some m" "looping m" "mx_clientIntelligence m = TOPOLOGY_AWARE"
    "mx_connection m = Some c" "holds c (encodeResponseStart TOPOLOGY_AWARE 0 0x18 0 (Some (announcing 3)) @ encodePing NoType NoType 41 [])"
    "map_of (mx_pending m) 0 = Some p" "pr_bodyParser p = pingParser" "pr_expectedOpcode p = 0x18"
proof -
  let ?new = "newRemoteCache ''a'' 1 ''c''" and ?ping = "invoke pingEnv noExclusions False PingCall"
  obtain s1 f s2 b s3 g s4 where run: "cacheConnect pingEnv (cacheSetClientIntelligence TOPOLOGY_AWARE ?new) = (Ok (), s1)"
      "?ping s1 = (Ok f, s2)" "clientRead 0 s2 = (Ok b, s3)" "?ping s3 = (Ok g, s4)"
    and v: "anyConn f = 0" "anyConn g = 1" "rc_connection s4 = 0" "map_option (\<lambda>m. (looping m, mx_clientIntelligence m, mx_nextMessageId m,
        map_option (\<lambda>c. (cn_connected c, avail c)) (mx_connection m))) (rc_store s4 1) = Some (True, TOPOLOGY_AWARE, 1,
          Some (True, encodeResponseStart TOPOLOGY_AWARE 0 0x18 0 (Some (announcing 3)) @ encodePing NoType NoType 41 []))"
    using outliving_values by (rule fst_eqE) (simp only: bindM_eq_Ok_iff, auto)
  have o: "outlivingCache = s4" by (simp only: outlivingCache_def bindM_def run prod.case outcome.case snd_conv)
  have "configuring (cacheSetClientIntelligence TOPOLOGY_AWARE)" by (auto simp: configuring_def)
  from running_steps(1) [OF created this] have "running pingEnv \<lparr>ap_cache = s1, ap_futures = []\<rparr>" using run(1) by (rule running_steps(2))
  from running_steps(4) [OF running_steps(3) [OF running_steps(4) [OF this run(2)] run(3)] run(4)]
  have r: "running pingEnv \<lparr>ap_cache = outlivingCache, ap_futures = [f, g]\<rparr>" by (simp add: o)
  from run(4) obtain h a tried s where g: "g = PingF h" and s: "submit a \<lparr>cl_body = [], cl_opcode = 0x17, cl_expectedOpcode = 0x18,
      cl_bodyParser = pingParser, cl_cacheName = rc_cacheName s, cl_flags = 0\<rparr> (pingResult tried []) s = (Ok h, s4)"
    by (auto simp: mapResult_def pingImpl_def bindM_eq_Ok_iff ret_def noExclusions_def)
  obtain m p where "rc_store s4 1 = Some m" "map_of (mx_pending m) (mx_nextMessageId m - 1) = Some p"
      "pr_bodyParser p = pingParser" "pr_expectedOpcode p = 0x18"
    by (rule submit_returns [OF s]) (use g v(2) in simp)
  with r v that show thesis unfolding o holds_def by (auto simp: map_option_case split: option.splits)
qed



lemma notify_dead: "notify False a (cb # cbs) s = (UB, s)"
  by (cases cb) (simp add: topologyCallback_def bindM_def)

lemma app_holds:
  assumes "running env ap" and "f \<in> set (ap_futures ap)"
  shows "cache_inv (ap_cache ap)" "anyConn f \<in> set (rc_held (ap_cache ap))"
proof -
  have i: "app_inv ap" using running_inv [OF assms(1)] .
  then show "cache_inv (ap_cache ap)" by (simp add: app_inv_def)
  have "mset (rc_held (ap_cache ap)) = mset (map anyConn (ap_futures ap))" using i by (simp add: app_inv_def)
  from arg_cong [OF this, of set_mset] assms(2) show "anyConn f \<in> set (rc_held (ap_cache ap))" by simp
qed

text \<open>
  C20: A future that outlives the cache. When the cache is destroyed, the pooled connection of a future stays as it was, and
  its read thread goes on: the test of its loop still holds. Let the next bytes on its stream be a response that a request waits for.
  While the cache lived, that turn of the loop would have completed. Now it does so only if the response brings no topology
  update; one that does makes the thread call back into the destroyed cache, which is undefined behaviour.
\<close>

theorem future_outlives_cache:
  assumes run: "running env ap" and f: "f \<in> set (ap_futures ap)" and seed: "anyConn f \<noteq> rc_connection (ap_cache ap)"
    and m: "rc_store (ap_cache ap) (anyConn f) = Some m" "looping m" and c: "mx_connection m = Some c"
    and h: "holds c (encodeResponseStart (mx_clientIntelligence m) mid opc st update @ bodyBytes @ rest)"
    and u: "\<forall>u. update = Some u \<longrightarrow> valid_update u"
    and p: "map_of (mx_pending m) mid = Some p" and opc: "opc = pr_expectedOpcode p" "opc \<noteq> ERROR_RESPONSE"
    and y: "\<forall>d. holds d (bodyBytes @ rest) \<longrightarrow> yields d (pr_bodyParser p st (mx_protocolVersion m) (pr_flags p)) body rest"
  shows "\<exists>s. endRemoteCache (\<lambda>_. False) (ap_cache ap) = (Ok (), s) \<and> rc_store s (anyConn f) = Some m \<and>
    fst (readLoop True (anyConn f) (ap_cache ap)) = Ok True \<and>
    (case announced (mx_clientIntelligence m) update of
       Some topo \<Rightarrow> fst (readLoop False (anyConn f) s) = UB
     | None \<Rightarrow> \<exists>t m'. readLoop False (anyConn f) s = (Ok True, t) \<and> rc_store t (anyConn f) = Some m' \<and>
         mx_results m' (pr_ticket p) = Some \<lparr>rp_status = Some st, rp_body = body, rp_error = None, rp_topologyUpdate = None\<rparr>)"
proof -
  let ?t = "announced (mx_clientIntelligence m) update" and ?a = "anyConn f"
  obtain s where e: "endRemoteCache (\<lambda>_. False) (ap_cache ap) = (Ok (), s)" and s: "rc_store s ?a = Some m"
    by (rule endRemoteCache_outcome [OF run, of "\<lambda>_. False"]) (use f seed m in auto)
  have cb: "mx_hasCallback m" using running_wired [OF run] m(1) by (simp add: wiring.everywhere_def wired_def)
  obtain m' where it: "readIteration m = (Ok True, m')"
    and res: "mx_results m' (pr_ticket p) = Some \<lparr>rp_status = Some st, rp_body = body, rp_error = None, rp_topologyUpdate = ?t\<rparr>"
    and new: "drop (length (mx_callbacks m)) (mx_callbacks m') = (case ?t of Some t \<Rightarrow> [(t, pr_cacheName p)] | None \<Rightarrow> [])"
    by (rule response_delivered [OF c h u p opc y]) (simp add: setValue_def taken_def cb split: option.splits)
  have "fst (readLoop True ?a (ap_cache ap)) = Ok True"
    using held_answer_arrives [OF app_holds [OF run f] m(1) it res] readLoop_alive [OF m] by fastforce
  moreover have "case ?t of Some topo \<Rightarrow> fst (readLoop False ?a s) = UB
     | None \<Rightarrow> \<exists>t m'. readLoop False ?a s = (Ok True, t) \<and> rc_store t ?a = Some m' \<and>
         mx_results m' (pr_ticket p) = Some \<lparr>rp_status = Some st, rp_body = body, rp_error = None, rp_topologyUpdate = None\<rparr>"
    using res by (cases ?t) (simp_all add: readLoop_def s m(2) it new bindM_def ret_def topologyCallback_def)
  ultimately show ?thesis using e s by blast
qed

theorem future_outlives_cache_witness:
  "\<exists>m s. rc_store outlivingCache 1 = Some m \<and> endRemoteCache (\<lambda>_. False) outlivingCache = (Ok (), s) \<and> rc_store s 1 = Some m \<and>
     fst (readLoop True 1 outlivingCache) = Ok True \<and> fst (readLoop False 1 s) = UB"
proof -
  obtain f g m c p where r: "running pingEnv \<lparr>ap_cache = outlivingCache, ap_futures = [f, g]\<rparr>" "anyConn g = 1" "rc_connection outlivingCache = 0"
    and m: "rc_store outlivingCache 1 = Some m" "looping m" "mx_clientIntelligence m = TOPOLOGY_AWARE" "mx_connection m = Some c"
    and h: "holds c (encodeResponseStart TOPOLOGY_AWARE 0 0x18 0 (Some (announcing 3)) @ encodePing NoType NoType 41 [])"
    and p: "map_of (mx_pending m) 0 = Some p" "pr_bodyParser p = pingParser" "pr_expectedOpcode p = 0x18"
    by (rule outliving_run)
  have u: "\<forall>u. Some (announcing 3) = Some u \<longrightarrow> valid_update u"
    by (simp add: valid_update_def announcing_def)
  have y: "\<forall>d. holds d (encodePing NoType NoType 41 [] @ []) \<longrightarrow> yields d (pr_bodyParser p 0 (mx_protocolVersion m) (pr_flags p)) NoBody []"
    unfolding p(2) using ping_short [of NoType NoType "[]"] by simp
  obtain topo where n: "announced TOPOLOGY_AWARE (Some (announcing 3)) = Some topo" by (simp add: announced_def)
  have "anyConn g \<noteq> rc_connection outlivingCache" "rc_store outlivingCache (anyConn g) = Some m" "(0x18 :: byte) \<noteq> ERROR_RESPONSE"
    using r(2,3) m(1) by (simp_all add: ERROR_RESPONSE_def)
  note at = this
  have "g \<in> set (ap_futures \<lparr>ap_cache = outlivingCache, ap_futures = [f, g]\<rparr>)" by simp
  from future_outlives_cache [OF r(1) this, unfolded Application.simps, OF at(1,2) m(2,4) _ u p(1) p(3) [symmetric] at(3) y] h
  obtain s where "endRemoteCache (\<lambda>_. False) outlivingCache = (Ok (), s)" "rc_store s 1 = Some m"
    "fst (readLoop True 1 outlivingCache) = Ok True" "fst (readLoop False 1 s) = UB"
    unfolding r(2) m(3) n option.case append_Nil2 by blast
  with m(1) show ?thesis by blast
qed

end
