(* ===== verification/SharedErrors.thy ===== *)
theory SharedErrors
  imports CacheOperations
begin

text \<open>
  Who shares an exception. In C++ an exception\_ptr refers to an exception object, and std::rethrow\_exception throws that
  object itself (as it does on every Itanium ABI). closeAllPending stores one such pointer in
  every response, and rethrowWithTriedNodes changes the object it refers to. The other theories give every response its own
  exception; this one keeps the objects in a store and shows where the difference can be seen.
\<close>

section \<open>Exceptions as objects\<close>

type_synonym exceptions = "nat \<rightharpoonup> exn"

text \<open>The responses that closeAllPending sets, by ticket: all of them refer to the one object made at the address \<open>error\<close>.\<close>

definition closeAllPendingShared :: "string \<Rightarrow> MultiplexedConnection \<Rightarrow> nat \<Rightarrow> exceptions \<Rightarrow> (nat \<rightharpoonup> nat) \<times> exceptions" where
  "closeAllPendingShared errorMsg m error heap =
     (foldl (\<lambda>responses (msgId, pending). responses(pr_ticket pending \<mapsto> error)) Map.empty (mx_pending m),
      heap(error \<mapsto> hotrod_exn errorMsg AfterSend None (muxNode m) False))"

text \<open>The handler binds a reference to the object, assigns to its field, and throws the object again.\<close>

definition rethrowInPlace :: "nat \<Rightarrow> ServerAddress list \<Rightarrow> ServerAddress list \<Rightarrow> exceptions \<Rightarrow> exn option \<times> exceptions" where
  "rethrowInPlace eptr tried excluded heap = (case heap eptr of
      None \<Rightarrow> (None, heap)
    | Some (HotRod e) \<Rightarrow>
        (let e' = HotRod (e\<lparr>triedNodes := unionNodes (unionNodes excluded tried) (triedNodes e)\<rparr>)
         in (Some e', heap(eptr \<mapsto> e')))
    | Some e \<Rightarrow> (Some e, heap))"

text \<open>Callers that get their failed futures one after the other, and what each of them catches.\<close>

fun getInTurn :: "(nat \<times> ServerAddress list \<times> ServerAddress list) list \<Rightarrow> exceptions \<Rightarrow> exn option list" where
  "getInTurn [] heap = []"
| "getInTurn ((eptr, tried, excluded) # gets) heap =
     (case rethrowInPlace eptr tried excluded heap of (e, heap) \<Rightarrow> e # getInTurn gets heap)"

section \<open>What callers see\<close>

lemma rethrowInPlace_value:
  "heap eptr = Some e \<Longrightarrow> rethrowInPlace eptr tried excluded heap =
    (Some (rethrowWithTriedNodes e tried excluded), heap(eptr \<mapsto> rethrowWithTriedNodes e tried excluded))"
  by (cases e) (auto simp: rethrowInPlace_def rethrowWithTriedNodes_def Let_def)

text \<open>Exceptions that are not shared behave as values.\<close>

theorem unshared_exceptions_are_values:
  assumes "distinct (map fst gets)" and "\<forall>(eptr, tried, excluded) \<in> set gets. heap eptr = Some (err eptr)"
  shows "getInTurn gets heap = map (\<lambda>(eptr, tried, excluded). Some (rethrowWithTriedNodes (err eptr) tried excluded)) gets"
  using assms
proof (induction gets heap rule: getInTurn.induct)
  case (2 eptr tried excluded gets heap)
  let ?heap = "heap(eptr \<mapsto> rethrowWithTriedNodes (err eptr) tried excluded)"
  have r: "rethrowInPlace eptr tried excluded heap = (Some (rethrowWithTriedNodes (err eptr) tried excluded), ?heap)"
    using 2(3) by (simp add: rethrowInPlace_value)
  have "\<forall>(p, tried, excluded) \<in> set gets. ?heap p = Some (err p)" using 2(2,3) by force
  moreover have "distinct (map fst gets)" using 2(2) by simp
  ultimately have "getInTurn gets ?heap = map (\<lambda>(eptr, tried, excluded). Some (rethrowWithTriedNodes (err eptr) tried excluded)) gets"
    using 2(1) [OF r [symmetric]] by blast
  then show ?case by (simp only: getInTurn.simps r prod.case list.map)
qed simp

lemma responses_shared:
  "foldl (\<lambda>responses (msgId, pending). responses(pr_ticket pending \<mapsto> error)) R ps ticket =
     (if ticket \<in> pr_ticket ` snd ` set ps then Some error else R ticket)"
  by (induction ps arbitrary: R) auto

text \<open>The nodes in the exceptions the callers before and at position i have asked for.\<close>

abbreviation nodesUpTo :: "nat \<Rightarrow> (nat \<times> ServerAddress list \<times> ServerAddress list) list \<Rightarrow> ServerAddress set" where
  "nodesUpTo i gets \<equiv> (\<Union>(t, tried, excluded) \<in> set (take (Suc i) gets). set excluded \<union> set tried)"

lemma getInTurn_shared:
  assumes "\<forall>g \<in> set gets. fst g = a" and "heap a = Some (HotRod e)" and "i < length gets"
  shows "\<exists>x. getInTurn gets heap ! i = Some (HotRod x) \<and> phase x = phase e \<and> message x = message e \<and>
    set (triedNodes x) = set (triedNodes e) \<union> nodesUpTo i gets"
  using assms
proof (induction gets arbitrary: heap e i)
  case (Cons g gets)
  obtain tried excluded where g: "g = (a, tried, excluded)" using Cons.prems(1) by (cases g) auto
  let ?e = "e\<lparr>triedNodes := unionNodes (unionNodes excluded tried) (triedNodes e)\<rparr>"
  have r: "getInTurn (g # gets) heap = Some (HotRod ?e) # getInTurn gets (heap(a \<mapsto> HotRod ?e))"
    using Cons.prems(2) by (simp add: g rethrowInPlace_def Let_def)
  show ?case
  proof (cases i)
    case 0
    with r show ?thesis by (auto simp: g)
  next
    case (Suc k)
    with Cons.prems(1,3) have "\<forall>g \<in> set gets. fst g = a" "k < length gets" by simp_all
    moreover have "(heap(a \<mapsto> HotRod ?e)) a = Some (HotRod ?e)" by simp
    ultimately obtain x where x: "getInTurn gets (heap(a \<mapsto> HotRod ?e)) ! k = Some (HotRod x)" "phase x = phase ?e" "message x = message ?e"
      "set (triedNodes x) = set (triedNodes ?e) \<union> nodesUpTo k gets" using Cons.IH [of "heap(a \<mapsto> HotRod ?e)" ?e k] by blast
    have "getInTurn (g # gets) heap ! i = Some (HotRod x)" by (simp only: r Suc nth_Cons_Suc x(1))
    with x(2-4) Suc show ?thesis by (intro exI [of _ x]) (simp add: g Un_ac)
  qed
qed simp

text \<open>
  Requests that were pending when their connection was lost share one exception. Whichever of them are got, in
  whatever order, the exception the i-th caller catches names in triedNodes the exclusions and tried nodes of all callers
  before it as well. Each caller on its own would have caught its own exclusions and tried nodes and the node of the connection.
\<close>

theorem lost_requests_share_their_exception:
  assumes "closeAllPendingShared msg m a heap0 = (responses, heap)"
    and "\<forall>(ticket, tried, excluded) \<in> set calls. ticket \<in> pr_ticket ` snd ` set (mx_pending m)"
    and "i < length calls" and "calls ! i = (ticket, tried, excluded)"
  shows "(\<exists>x. getInTurn (map (\<lambda>(t, te). (the (responses t), te)) calls) heap ! i = Some (HotRod x) \<and>
      phase x = AfterSend \<and> set (triedNodes x) = set (muxNode m) \<union> nodesUpTo i calls) \<and>
    (\<exists>e x. heap (the (responses ticket)) = Some e \<and> mx_results (closeAllPending msg m) ticket = Some (errorResponse e) \<and>
      rethrowWithTriedNodes e tried excluded = HotRod x \<and> set (triedNodes x) = set (muxNode m) \<union> set excluded \<union> set tried)"
proof
  let ?e = "hotrod_exn msg AfterSend None (muxNode m) False"
  have heap: "heap a = Some ?e" using assms(1) by (auto simp: closeAllPendingShared_def)
  have resp: "responses t = Some a" if "t \<in> pr_ticket ` snd ` set (mx_pending m)" for t
    using assms(1) that responses_shared [of a Map.empty "mx_pending m" t] by (simp add: closeAllPendingShared_def)
  let ?gets = "map (\<lambda>(t, te). (the (responses t), te)) calls"
  have "\<forall>g \<in> set ?gets. fst g = a" using assms(2) resp by fastforce
  from getInTurn_shared [of ?gets a heap, OF this heap [unfolded hotrod_exn_def], of i] assms(3)
  show "\<exists>x. getInTurn ?gets heap ! i = Some (HotRod x) \<and> phase x = AfterSend \<and> set (triedNodes x) = set (muxNode m) \<union> nodesUpTo i calls"
    by (auto simp: take_map split_def)
  have t: "ticket \<in> pr_ticket ` snd ` set (mx_pending m)" using assms(2-4) nth_mem by fastforce
  with heap resp have "heap (the (responses ticket)) = Some ?e" "mx_results (closeAllPending msg m) ticket = Some (errorResponse ?e)"
    by (simp_all add: closeAllPending_eq)
  then show "\<exists>e x. heap (the (responses ticket)) = Some e \<and> mx_results (closeAllPending msg m) ticket = Some (errorResponse e) \<and>
      rethrowWithTriedNodes e tried excluded = HotRod x \<and> set (triedNodes x) = set (muxNode m) \<union> set excluded \<union> set tried"
    by (auto simp: rethrowWithTriedNodes_def hotrod_exn_def)
qed

end
