(* ===== verification/Spec2Isabelle.thy ===== *)
theory Spec2Isabelle
  imports Programs Typing Waiting Lifecycle SharedErrors
begin

text \<open>
  Verification library of the C++17 Hot Rod client.

  \<^bold>\<open>The program.\<close> The client (src/, include/hotrod/) speaks the binary Hot Rod protocol with an Infinispan
  cluster. RemoteCache routes an operation on a key to an owner of the key's segment, builds the request body
  and hands it to the MultiplexedConnection of that server. MultiplexedConnection gives the request a message
  id, registers a promise, and sends header and body; its read thread parses response headers, topology
  updates and, with the parser the operation registered, response bodies, and completes the promises.
  Topology updates go back to RemoteCache, which replaces its routing tables and prunes its connection pool.
  New connections may run a SASL SCRAM handshake. Failures reach callers as HotRodClientException, whose
  triedNodes a RetryView excludes on the next attempt.

  \<^bold>\<open>Theories\<close>, in the order of their imports:
  \<^item> Prelude: wire types (bytes and integers as words of their width), and the outcome of a C++ computation:
    \<open>Ok\<close>, \<open>Throw\<close>, \<open>Block\<close> (a blocking call that does not return) or \<open>UB\<close> (undefined behaviour, and the
    ways the C++ runtime ends the program). Stateful code is a function from a state to an outcome and
    the next state, sequenced by \<open>bindM\<close>, with \<open>catchM\<close> for try and catch.
  \<^item> Errors (HotRodClientException.h, protocol constants): exceptions as data, isTransient, outcomeUncertain.
  \<^item> Codec, HeaderCodec, AuthCodec (Codec.cpp, HeaderCodec.cpp, AuthCodec.h): encoders and decoders over byte
    buffers. The locale \<open>wire_primitive\<close> states what a decoder promises about an encoder; every primitive
    interprets it, and the round trips of headers and bodies rest on it.
  \<^item> ServerSelection (ServerSelection.h, RetryContext.h, ServerSelector.cpp): candidate order, exclusion
    lists, selectors; the locale \<open>round_robin\<close> is shared with the cursor of TopologyInfo.
  \<^item> MurmurHash3 (MurmurHash3.cpp) at 64-bit width.
  \<^item> Connection (Connection.cpp): the blocking socket and the typed reads. What recv and send will do is a script
    in the state, so every segmentation of the stream, failure and close is covered; the locale
    \<open>stream_primitive\<close> is the counterpart of \<open>wire_primitive\<close> on a stream.
  \<^item> Topology, ConsistentHash (TopologyInfo.cpp, ConsistentHash.cpp): topology updates and key ownership.
  \<^item> Scram, Sasl (SCRAM.cpp, SaslAuthenticator.cpp): the handshake. OpenSSL is a record of functions that all
    definitions take, its documented behaviour the hypothesis \<open>crypto_laws\<close>. The locale \<open>sasl_transport\<close>
    is the contract of the virtual class SaslTransport; ConnectionSaslTransport interprets it.
  \<^item> MultiplexedConnection (MultiplexedConnection.cpp): execute in its three critical sections, one iteration
    of the read loop, close; \<open>step\<close> interleaves callers, the read thread and the network.
  \<^item> CacheOperations, RemoteCache (RemoteCache.cpp): request bodies, response parsers and results of the ten
    operations; routing, the connection pool, topology callbacks, and futures. Connections are objects at
    addresses of an explicit store; the references of cache, pool and futures decide what is destroyed.
  \<^item> Retry (RetryView.h, examples/quickstart/retry.cpp): operations under exclusions and the retry loops.
  \<^item> Exchange, Cluster, Session: one exchange with a server; the client between two calls, with its pool, routing
    tables and servers that accept or refuse; and whole sessions with a cluster against an abstract cache, a map
    from keys to entries. The servers are not part of the repository: they are a record of functions the theorems
    quantify over, what the client relies on is the hypothesis \<open>hotrod_cluster\<close>, and the locale \<open>stepwise\<close> is
    the refinement argument.
  \<^item> Programs (examples/quickstart/quickstart.cpp, retry.cpp): the two main functions with their output.
  \<^item> Reading: properties of what the read thread and the SASL handshake do with a connection. The locales \<open>reading\<close>
    and \<open>talking\<close> carry a property of receive (and send) through all parsers and to a whole iteration.
  \<^item> Closing: which reads can wait once the socket is shut down (none), an interpretation of \<open>reading\<close>.
  \<^item> Typing: what every promise can be completed with, through all that an application and the read threads do.
  \<^item> Locking: callers and read threads around stateMutex\_ and the joins in destructors, with all data but references and
    open promises left out.
  \<^item> Waiting: the joins of read threads in disconnect and in destructors, on the states of Locking. \<open>inevitable\<close> is
    about all runs of the read threads.
  \<^item> Lifecycle: disconnect and the end of a cache with all its data, and what a read thread does that outlives it. The
    locale \<open>connection_invariant\<close> carries a property of single connections to all states an application can reach; its
    interpretation \<open>wiring\<close> is what makes closing end.
  \<^item> SharedErrors: the exception that closeAllPending shares among lost requests, as an object in a store.
  \<^item> this theory: an operation from the request to the result the caller gets.

  \<^bold>\<open>What is proved.\<close> Wire format: every encoder is inverted by the decoder of the other side, readers
  consume exactly what was written, buffer and stream readers agree, and the inputs on which the readers are
  undefined are characterised. Routing: a routable update determines the owners of every key; candidates
  are the owners, then the other servers, without the excluded nodes; the first reachable one is used.
  Concurrency: in every interleaving each promise is pending, answered or failed, answers do not change, and
  close comes to an end and leaves nobody waiting; stateMutex\_ can always be released again, and the joins in disconnect and
  in destructors come to an end, as long as no future is dropped unanswered; when one is, a deadlock is reachable, also of disconnect. Client: the pool invariant holds under every operation; a
  topology update prunes the pool without touching connections in use; request bodies carry what the caller
  passed, response bodies are consumed exactly, and results follow the status. A session of any operations
  refines the abstract cache: the callers get the answers of a map, while topology updates move owners, connections
  are opened and pruned, and servers refuse. In every reachable state in which no read thread is in an iteration, disconnect
  and the destructor return, and the destructor leaves only the connections that futures hold, with their read threads running. In no reachable state can get on a future fail
  with bad\_any\_cast or find its connection destroyed. Programs: against a server that answers, the examples write their
  expected transcripts and return 0; without a server they return 1. Authentication: success means
  that the server knows the password; an honest server is accepted. Retry: the loops end after at most
  maxAttempts attempts. Several theorems describe where the code departs from its documentation or
  breaks: request headers of the versions from 28 to 39, the segment of a key, over-long integers, stale indices, unread bodies,
  the operation count of a PING, a lost request, a self-join, a deadlock, a callback into a destroyed cache, forgotten exclusions, and
  an exception that several callers share.

  \<^bold>\<open>Bounds.\<close> No definition is cut off by fuel: loops are structural or have a termination proof by the bytes left to
  read, the candidates left or the attempts left. Only \<open>patience\<close> in Retry and Programs bounds how many read-loop iterations a
  caller waits for before the model calls the wait blocking; \<open>operation_round_trip\<close> shows that one iteration is
  enough once the answer is in the stream, and the theorems about sessions and programs hold for every patience from one on.

  \<^bold>\<open>Not modelled, or modelled apart.\<close> Mutexes are the atomicity of the steps, except for stateMutex\_ in Locking and Waiting:
  cacheDisconnect and endRemoteCache take the join of a read thread as the end of its iteration, so the waiting of that thread for
  stateMutex\_ is the subject of Waiting. An iteration of the read loop is one step, although the source holds pendingMutex\_ only
  while it takes the entry out of the map; a promise between that and its set\_value counts as pending. closeAllPending and
  rethrowWithTriedNodes give each response its own exception; SharedErrors shows that this is right for exceptions that are got
  once and what callers see when several share one. A send to a socket that the server has closed throws; that it may raise SIGPIPE is left
  out. Not modelled at all: the Winsock branches; exhaustion of memory or threads; output to stderr; the interleaving of a destructor
  with read threads other than the one it joins; read-only accessors; tests and build files.
\<close>

section \<open>An operation from request to result\<close>

text \<open>
  C2: An operation on a key, from request to result. Once the operation has returned its future, and
  the stream of the connection it chose holds the server's response to that request (with a
  topology update or without), one iteration of that connection's read loop is enough for get on the future to
  return: it yields the operation's result for the status and body the server sent, even when the
  update that came along removed the connection from the pool. The client's bookkeeping stays
  consistent.
\<close>

theorem operation_round_trip:
  assumes inv: "cache_inv s" and op: "keyed env key ctx request opc expected (parserOf opn) flags result s = (Ok f, s1)"
    and m: "rc_store s1 (fu_conn f) = Some m" and c: "mx_connection m = Some c"
    and h: "holds c (encodeResponseStart (mx_clientIntelligence m) (mx_nextMessageId m - 1) expected st update @ encodeBody body @ rest)"
    and u: "\<forall>u. update = Some u \<longrightarrow> valid_update u" and ver: "mx_protocolVersion m \<ge> VERSION_40"
    and legal: "legal opn st body" and ex: "expected \<noteq> ERROR_RESPONSE"
  shows "\<exists>tried s2 s3. clientRead (fu_conn f) s1 = (Ok True, s2) \<and>
    futureGet f s2 = (result tried (excludeNodes ctx) (answered st body (announced (mx_clientIntelligence m) update)), s3) \<and>
    (fst (futureGet f s2) \<noteq> UB \<longrightarrow> fst (futureGet f s2) \<noteq> Block \<longrightarrow> cache_inv s3)"
proof -
  from op obtain a tried s0 where sel: "selectServerForKey env key ctx s = (Ok (a, tried), s0)"
    and sub: "submit a \<lparr>cl_body = request, cl_opcode = opc, cl_expectedOpcode = expected, cl_bodyParser = parserOf opn,
      cl_cacheName = rc_cacheName s0, cl_flags = flags\<rparr> (result tried (excludeNodes ctx)) s0 = (Ok f, s1)"
    by (auto simp: keyed_def bindM_eq_Ok_iff)
  have inv0: "cache_inv s0" using preserves_selectServerForKey inv sel unfolding preserves_def by blast
  have inv1: "cache_inv s1" using preserves_submit inv0 sub unfolding preserves_def by blast
  obtain m2 ticket p where f: "f = \<lparr>fu_conn = a, fu_ticket = ticket, fu_result = result tried (excludeNodes ctx)\<rparr>"
    and m2: "rc_store s1 a = Some m2" and held: "a \<in> set (rc_held s1)"
    and p2: "map_of (mx_pending m2) (mx_nextMessageId m2 - 1) = Some p" and p: "pr_ticket p = ticket"
      "pr_bodyParser p = parserOf opn" "expected = pr_expectedOpcode p"
    by (rule submit_returns [OF sub]) simp
  from m m2 f have mm: "m2 = m" by simp
  from legal_body_consumed [OF legal ver] p(2)
  have y: "\<forall>d. holds d (encodeBody body @ rest) \<longrightarrow> yields d (pr_bodyParser p st (mx_protocolVersion m) (pr_flags p)) body rest" by simp
  obtain n where it: "readIteration m = (Ok True, setValue ticket (answered st body (announced (mx_clientIntelligence m) update)) n)"
    by (rule response_delivered [OF c h u p2 [unfolded mm] p(3) ex y]) (simp add: p(1) answered_def)
  have res: "mx_results (setValue ticket (answered st body (announced (mx_clientIntelligence m) update)) n) ticket =
      Some (answered st body (announced (mx_clientIntelligence m) update))" by (simp add: setValue_def)
  let ?r = "result tried (excludeNodes ctx) (answered st body (announced (mx_clientIntelligence m) update))"
  obtain s2 s3 where "clientRead a s1 = (Ok True, s2)" "futureGet f s2 = (?r, s3)" "?r \<noteq> Block \<and> ?r \<noteq> UB \<longrightarrow> cache_inv s3"
    using held_answer_arrives [OF inv1 held m2 [unfolded mm] it res, of "result tried (excludeNodes ctx)"] f by blast
  then show ?thesis by (intro exI [of _ tried] exI [of _ s2] exI [of _ s3]) (simp add: f)
qed

text \<open>A get that is answered, for the example: the server's first response carries the value.\<close>

definition exampleGet :: "(exn, byteArray option Future) outcome \<times> RemoteCache" where
  "exampleGet = getImpl (exampleEnv [RecvData [0xA1, 0, 4, 0, 0, 2, 7, 8]]) [65] noExclusions exampleCache"

lemma exampleGet_runs:
  "(case fst exampleGet of Ok f \<Rightarrow> fu_conn f = 1 | _ \<Rightarrow> False)"
  "map_option (\<lambda>m. (mx_nextMessageId m, mx_clientIntelligence m, mx_protocolVersion m,
      map_option (\<lambda>c. (cn_connected c, avail c)) (mx_connection m))) (rc_store (snd exampleGet) 1) =
     Some (1, HASH_DISTRIBUTION_AWARE, VERSION_41, Some (True, [0xA1, 0, 4, 0, 0, 2, 7, 8]))"
  by code_simp+

theorem operation_round_trip_witness:
  "\<exists>f s1 s2 s3. getImpl (exampleEnv [RecvData [0xA1, 0, 4, 0, 0, 2, 7, 8]]) [65] noExclusions exampleCache = (Ok f, s1) \<and>
     clientRead (fu_conn f) s1 = (Ok True, s2) \<and> futureGet f s2 = (Ok (Some [7, 8]), s3) \<and> cache_inv s3"
proof -
  let ?env = "exampleEnv [RecvData [0xA1, 0, 4, 0, 0, 2, 7, 8]]"
  obtain r s1 where e0: "exampleGet = (r, s1)" by (cases exampleGet)
  have "\<exists>f. r = Ok f \<and> fu_conn f = 1" using exampleGet_runs(1) unfolding e0 fst_conv by (cases r) simp_all
  with e0 obtain f where e: "exampleGet = (Ok f, s1)" "fu_conn f = 1" by blast
  then obtain m c where m: "rc_store s1 (fu_conn f) = Some m" "mx_connection m = Some c" "mx_nextMessageId m = 1"
    "mx_clientIntelligence m = HASH_DISTRIBUTION_AWARE" "mx_protocolVersion m = VERSION_41" "cn_connected c"
    "avail c = [0xA1, 0, 4, 0, 0, 2, 7, 8]"
    using exampleGet_runs(2) unfolding e(1) snd_conv by (auto simp: e(2))
  have enc: "encodeResponseStart HASH_DISTRIBUTION_AWARE 0 4 0 None = [0xA1, 0, 4, 0, 0]" "writeByteArray [] [7, 8] = [2, 7, 8]"
    by code_simp+
  have op: "keyed ?env [65] noExclusions (keyBody [65]) 0x03 0x04 (parserOf Get) 0 getResult exampleCache = (Ok f, s1)"
    using e(1) by (simp add: exampleGet_def getImpl_def)
  have h: "holds c (encodeResponseStart (mx_clientIntelligence m) (mx_nextMessageId m - 1) 0x04 0 None @ encodeBody (ValueBody [7, 8]) @ [])"
    by (simp add: m enc holds_def)
  have "legal Get 0 (ValueBody [7, 8])" by (simp add: legal_def)
  moreover have no: "\<forall>u. None = Some u \<longrightarrow> valid_update u" "mx_protocolVersion m \<ge> VERSION_40" "0x04 \<noteq> ERROR_RESPONSE"
    "announced (mx_clientIntelligence m) None = None" "excludeNodes noExclusions = []"
    by (simp_all add: m VERSION_40_def VERSION_41_def ERROR_RESPONSE_def announced_def noExclusions_def)
  ultimately obtain tried s2 s3 where "clientRead (fu_conn f) s1 = (Ok True, s2)"
    "futureGet f s2 = (getResult tried [] (answered 0 (ValueBody [7, 8]) None), s3)"
    "fst (futureGet f s2) \<noteq> UB \<longrightarrow> fst (futureGet f s2) \<noteq> Block \<longrightarrow> cache_inv s3"
    using operation_round_trip [OF example_inv op m(1,2) h no(1,2)] unfolding no(4,5) by blast
  moreover have "getResult tried [] (answered 0 (ValueBody [7, 8]) None) = Ok (Some [7, 8])"
    by (simp add: result_defs)
  ultimately show ?thesis using e(1) by (auto simp: exampleGet_def)
qed

end
